(* ===== verification/Prelude.thy ===== *)
theory Prelude
  imports Main "HOL-Library.AList" "HOL-Library.Word" "HOL-Library.Multiset" "HOL-Library.Sublist"
begin

text \<open>
  What every component theory shares: the machine types of
  \<open>libraries/common/include/common/types.hpp\<close>, the two container models
  (\<open>std::unordered_map\<close> as an association list whose list order stands for the iteration
  order, \<open>std::map\<close> as an association list sorted by key), one locale with the laws both
  containers satisfy, and the lemma collections of the development.
\<close>

named_theorems tara_defs \<open>definitions unfolded by the component proofs\<close>
named_theorems inv_intros \<open>introduction rules for component invariants\<close>

section \<open>Machine types\<close>

type_synonym byte = "8 word"
type_synonym u32 = "32 word"
type_synonym u64 = "64 word"
type_synonym u256 = "256 word"
type_synonym h256 = "256 word"
type_synonym addr_t = "160 word"
type_synonym pbft_period = u64
type_synonym pbft_round = u32
type_synonym pbft_step = u32

lemma unat_Suc_less:
  fixes x y :: "'a::len word"
  assumes "x < y"
  shows "unat (x + 1) = Suc (unat x)"
proof -
  have "unat x + unat (1::'a word) < 2 ^ LENGTH('a)"
    using order.strict_trans1[OF Suc_leI unsigned_less[of y]] assms by (simp add: word_less_nat_alt)
  then show ?thesis unfolding unat_add_lem by simp
qed

lemma less_word_Suc:
  fixes x y :: "'a::len word"
  shows "x < y \<Longrightarrow> x < x + 1"
  by (simp add: word_less_nat_alt[of x "x + 1"] unat_Suc_less)

lemma unat_ucast_up:
  fixes x :: "'a::len word"
  assumes "LENGTH('a) \<le> LENGTH('b::len)"
  shows "unat (ucast x :: 'b word) = unat x"
proof -
  have "unat x < 2 ^ LENGTH('a)" by (rule unsigned_less)
  also have "\<dots> \<le> 2 ^ LENGTH('b)" using assms by (simp add: power_increasing)
  finally show ?thesis by (simp add: unsigned_ucast_eq take_bit_nat_eq_self)
qed

lemma unat_eqI: "unat x = unat y \<Longrightarrow> x = y"
  for x y :: "'a::len word"
  by (simp add: word_unat_eq_iff)

lemma ucast_back:
  fixes x :: "'a::len word"
  assumes "LENGTH('a) \<le> LENGTH('b::len)"
  shows "ucast (ucast x :: 'b word) = x"
proof (rule unat_eqI)
  have "unat (ucast (ucast x :: 'b word) :: 'a word) = take_bit LENGTH('a) (unat (ucast x :: 'b word))"
    by (rule unsigned_ucast_eq)
  then show "unat (ucast (ucast x :: 'b word) :: 'a word) = unat x"
    using assms by (simp only: unat_ucast_up) (simp add: take_bit_nat_eq_self unsigned_less)
qed

section \<open>Association lists as containers\<close>

text \<open>
  The iteration order of an \<open>unordered_map\<close> is unspecified: a model state carries one such
  order, and no theorem of the development depends on which.
\<close>

type_synonym ('k, 'v) umap = "('k \<times> 'v) list"
type_synonym ('k, 'v) omap = "('k \<times> 'v) list"

abbreviation um_find :: "('k, 'v) umap \<Rightarrow> 'k \<Rightarrow> 'v option" where
  "um_find \<equiv> map_of"

abbreviation um_put :: "'k \<Rightarrow> 'v \<Rightarrow> ('k, 'v) umap \<Rightarrow> ('k, 'v) umap" where
  "um_put \<equiv> AList.update"

abbreviation um_erase :: "'k \<Rightarrow> ('k, 'v) umap \<Rightarrow> ('k, 'v) umap" where
  "um_erase \<equiv> AList.delete"

abbreviation um_inv :: "('k, 'v) umap \<Rightarrow> bool" where
  "um_inv m \<equiv> distinct (map fst m)"

fun om_put :: "'k::linorder \<Rightarrow> 'v \<Rightarrow> ('k, 'v) omap \<Rightarrow> ('k, 'v) omap" where
  "om_put k v [] = [(k, v)]"
| "om_put k v (p # m) =
     (if fst p < k then p # om_put k v m
      else if fst p = k then (k, v) # m
      else (k, v) # p # m)"

definition om_inv :: "('k::linorder, 'v) omap \<Rightarrow> bool" where
  "om_inv m \<longleftrightarrow> sorted_wrt (<) (map fst m)"

text \<open>\<open>operator[]\<close> on a missing key inserts a value-initialised entry first.\<close>

definition um_get_or :: "'v \<Rightarrow> ('k, 'v) umap \<Rightarrow> 'k \<Rightarrow> 'v" where
  "um_get_or d m k = (case um_find m k of None \<Rightarrow> d | Some v \<Rightarrow> v)"

text \<open>Look-ups stay look-ups in the component proofs.\<close>

declare map_of_eq_Some_iff [simp del] Some_eq_map_of_iff [simp del]

section \<open>The contract of a finite map\<close>

text \<open>
  \<open>entries\<close> lists the pairs in iteration order. From these laws alone follow the facts the
  components need: what a sum or a count over all entries becomes after an insertion or an
  erasure.
\<close>

locale finite_map =
  fixes entries :: "'m \<Rightarrow> ('k \<times> 'v) list"
    and find :: "'m \<Rightarrow> 'k \<Rightarrow> 'v option"
    and put :: "'k \<Rightarrow> 'v \<Rightarrow> 'm \<Rightarrow> 'm"
    and erase :: "'k \<Rightarrow> 'm \<Rightarrow> 'm"
    and inv :: "'m \<Rightarrow> bool"
  assumes find_entries: "inv m \<Longrightarrow> find m k = map_of (entries m) k"
    and distinct_entries: "inv m \<Longrightarrow> distinct (map fst (entries m))"
    and find_put: "inv m \<Longrightarrow> find (put k v m) = (find m)(k \<mapsto> v)"
    and find_erase: "inv m \<Longrightarrow> find (erase k m) = (find m)(k := None)"
    and inv_put: "inv m \<Longrightarrow> inv (put k v m)"
    and inv_erase: "inv m \<Longrightarrow> inv (erase k m)"
begin

lemma mem_entries:
  assumes "inv m"
  shows "(k, v) \<in> set (entries m) \<longleftrightarrow> find m k = Some v"
  using assms by (simp add: find_entries distinct_entries map_of_eq_Some_iff)

lemma set_entries: "inv m \<Longrightarrow> set (entries m) = {(k, v). find m k = Some v}"
  using mem_entries by auto

lemma set_entries_put:
  "inv m \<Longrightarrow> set (entries (put k v m)) = insert (k, v) {p \<in> set (entries m). fst p \<noteq> k}"
  by (auto simp: set_entries inv_put find_put split: if_splits)

lemma set_entries_erase:
  "inv m \<Longrightarrow> set (entries (erase k m)) = {p \<in> set (entries m). fst p \<noteq> k}"
  by (auto simp: set_entries inv_erase find_erase split: if_splits)

lemma distinct_pairs: "inv m \<Longrightarrow> distinct (entries m)"
  using distinct_entries by (simp add: distinct_map)

lemma sum_as_set:
  fixes f :: "'k \<times> 'v \<Rightarrow> 'a::comm_monoid_add"
  shows "inv m \<Longrightarrow> sum_list (map f (entries m)) = sum f (set (entries m))"
  by (simp add: distinct_pairs sum_list_distinct_conv_sum_set)

lemma sum_entries_put_new:
  fixes f :: "'k \<times> 'v \<Rightarrow> 'a::comm_monoid_add"
  assumes "inv m" and "find m k = None"
  shows "sum_list (map f (entries (put k v m))) = f (k, v) + sum_list (map f (entries m))"
proof -
  have "{p \<in> set (entries m). fst p \<noteq> k} = set (entries m)"
    using assms by (auto simp: set_entries)
  moreover have "(k, v) \<notin> set (entries m)"
    using assms by (simp add: mem_entries)
  ultimately show ?thesis
    using assms by (simp add: sum_as_set inv_put set_entries_put)
qed

lemma sum_entries_split:
  fixes f :: "'k \<times> 'v \<Rightarrow> 'a::comm_monoid_add"
  assumes "inv m" and "find m k = Some v"
  shows "sum_list (map f (entries m)) = f (k, v) + sum_list (map f (entries (erase k m)))"
proof -
  have "set (entries m) = insert (k, v) {p \<in> set (entries m). fst p \<noteq> k}"
    using assms by (auto simp: set_entries)
  moreover have "(k, v) \<notin> {p \<in> set (entries m). fst p \<noteq> k}"
    by simp
  moreover have "finite {p \<in> set (entries m). fst p \<noteq> k}"
    by simp
  ultimately have "sum f (set (entries m)) = f (k, v) + sum f {p \<in> set (entries m). fst p \<noteq> k}"
    by (metis (no_types, lifting) sum.insert)
  then show ?thesis
    using assms by (simp add: sum_as_set inv_erase set_entries_erase)
qed

lemma sum_entries_erase:
  fixes f :: "'k \<times> 'v \<Rightarrow> 'a::ab_group_add"
  assumes "inv m" and "find m k = Some v"
  shows "sum_list (map f (entries (erase k m))) = sum_list (map f (entries m)) - f (k, v)"
  using sum_entries_split[OF assms, of f] by simp

lemma sum_entries_put_old:
  fixes f :: "'k \<times> 'v \<Rightarrow> 'a::ab_group_add"
  assumes "inv m" and "find m k = Some v'"
  shows "sum_list (map f (entries (put k v m))) = sum_list (map f (entries m)) - f (k, v') + f (k, v)"
proof -
  have "inv (put k v m)" "find (put k v m) k = Some v"
    using assms by (simp_all add: inv_put find_put)
  then have "sum_list (map f (entries (put k v m)))
      = f (k, v) + sum_list (map f (entries (erase k (put k v m))))"
    by (rule sum_entries_split)
  moreover have "set (entries (erase k (put k v m))) = set (entries (erase k m))"
    using assms by (auto simp: set_entries_erase set_entries_put inv_put)
  ultimately show ?thesis
    using assms sum_entries_split[OF assms, of f] by (simp add: sum_as_set inv_put inv_erase)
qed

lemma length_entries_put_new:
  assumes "inv m" and "find m k = None"
  shows "length (entries (put k v m)) = Suc (length (entries m))"
  using sum_entries_put_new[OF assms, of "\<lambda>_. (1::nat)"] by (simp add: sum_list_triv)

lemma length_entries_put_old:
  assumes "inv m" and "find m k = Some v'"
  shows "length (entries (put k v m)) = length (entries m)"
  using sum_entries_put_old[OF assms, of "\<lambda>_. (1::int)"] by (simp add: sum_list_triv)

lemma length_entries_erase:
  assumes "inv m" and "find m k = Some v"
  shows "Suc (length (entries (erase k m))) = length (entries m)"
  using sum_entries_split[OF assms, of "\<lambda>_. (1::nat)"] by (simp add: sum_list_triv)

end

subsection \<open>Both containers satisfy it\<close>

lemma fst_set_om_put [simp]: "fst ` set (om_put k v m) = insert k (fst ` set m)"
  by (induction m) auto

lemma om_inv_Nil [simp]: "om_inv []"
  by (simp add: om_inv_def)

lemma om_inv_Cons [simp]: "om_inv (p # m) \<longleftrightarrow> (\<forall>q \<in> set m. fst p < fst q) \<and> om_inv m"
  by (auto simp: om_inv_def)

lemma om_inv_put [simp]: "om_inv m \<Longrightarrow> om_inv (om_put k v m)"
proof (induction m)
  case (Cons p m)
  have "\<forall>q \<in> set (om_put k v m). fst p < fst q" if "fst p < k"
  proof
    fix q assume "q \<in> set (om_put k v m)"
    then have "fst q \<in> insert k (fst ` set m)"
      by (metis fst_set_om_put imageI)
    with that Cons.prems show "fst p < fst q" by auto
  qed
  with Cons show ?case by auto
qed simp

lemma om_inv_distinct: "om_inv m \<Longrightarrow> distinct (map fst m)"
  by (auto simp: om_inv_def strict_sorted_iff)

lemma om_inv_delete [simp]: "om_inv m \<Longrightarrow> om_inv (AList.delete k m)"
  by (induction m) (auto simp: AList.delete_eq)

lemma map_of_om_put [simp]: "om_inv m \<Longrightarrow> map_of (om_put k v m) = (map_of m)(k \<mapsto> v)"
  by (induction m) (auto simp: fun_eq_iff)

lemma map_of_delete_fun [simp]: "map_of (AList.delete k m) = (map_of m)(k := None)"
  by (rule delete_conv')

lemma map_of_update_fun [simp]: "map_of (AList.update k v m) = (map_of m)(k \<mapsto> v)"
  by (rule update_conv')

lemma um_inv_update [simp]: "um_inv m \<Longrightarrow> um_inv (AList.update k v m)"
  by (rule distinct_update)

lemma um_inv_delete [simp]: "um_inv m \<Longrightarrow> um_inv (AList.delete k m)"
  by (rule distinct_delete)

interpretation um: finite_map "\<lambda>m. m" map_of AList.update AList.delete um_inv
  by unfold_locales simp_all

interpretation om: finite_map "\<lambda>m. m" map_of om_put AList.delete om_inv
  by unfold_locales (simp_all add: om_inv_distinct)

end
