(* ===== verification/Transaction_Types.thy ===== *)
theory Transaction_Types
  imports Prelude
begin

text \<open>
  \<open>libraries/types/transaction\<close>: the transaction object, its cost, the intrinsic gas
  computation with its overflow guards, and the EIP-155 coding of chain id and recovery id in
  the \<open>v\<close> signature field. The transaction hash and the recovered sender come from Keccak
  and ECDSA, which are outside the repository; they are fields of the record.
\<close>

record transaction =
  trx_nonce :: u256
  trx_value :: u256
  trx_gas_price :: u256
  trx_gas :: u64
  trx_data :: "byte list"
  trx_receiver :: "addr_t option"
  trx_chain_id :: u64
  trx_hash :: h256
  trx_sender :: addr_t
  trx_sender_valid :: bool

text \<open>\<open>getSender\<close> throws \<open>InvalidSignature\<close> exactly when \<open>trx_sender_valid\<close> is false.\<close>

definition getCost :: "transaction \<Rightarrow> u256" where
  "getCost t = trx_gas_price t * ucast (trx_gas t) + trx_value t"

section \<open>Intrinsic gas\<close>

definition kTxGas :: u64 where "kTxGas = 21000"
definition kTxGasContractCreation :: u64 where "kTxGasContractCreation = 53000"
definition kTxDataZeroGas :: u64 where "kTxDataZeroGas = 4"
definition kTxDataNonZeroGas :: u64 where "kTxDataNonZeroGas = 68"

datatype trx_error = OutOfGas | BadChainId | BadV

definition IntrinsicGas :: "byte list \<Rightarrow> bool \<Rightarrow> trx_error + u64" where
  "IntrinsicGas data is_contract_creation =
     (let gas = (if is_contract_creation then kTxGasContractCreation else kTxGas) in
      if data = [] then Inr gas
      else
        let nz = of_nat (length (filter (\<lambda>b. b \<noteq> 0) data)) in
        if (- 1 - gas) div kTxDataNonZeroGas < nz then Inl OutOfGas
        else
          let gas1 = gas + nz * kTxDataNonZeroGas;
              z = of_nat (length data) - nz in
          if (- 1 - gas1) div kTxDataZeroGas < z then Inl OutOfGas
          else Inr (gas1 + z * kTxDataZeroGas))"

definition intrinsicGasCovered :: "transaction \<Rightarrow> bool" where
  "intrinsicGasCovered t =
     (case IntrinsicGas (trx_data t) (trx_receiver t = None) of
        Inl _ \<Rightarrow> False
      | Inr gas \<Rightarrow> gas \<le> trx_gas t)"

text \<open>The cost the guards protect, over the naturals.\<close>

definition intrinsic_cost :: "byte list \<Rightarrow> bool \<Rightarrow> nat" where
  "intrinsic_cost data cc =
     (if cc then 53000 else 21000)
     + 68 * length (filter (\<lambda>b. b \<noteq> 0) data) + 4 * length (filter (\<lambda>b. b = 0) data)"

section \<open>Chain id and recovery id\<close>

text \<open>
  \<open>toChainID\<close> narrows a \<open>u256\<close>; the parser \<open>fromRLP\<close> reads \<open>v\<close>, \<open>r\<close>,
  \<open>s\<close>, and \<open>streamRLP\<close> writes \<open>v\<close> back. A signature is \<open>(recovery id, r, s)\<close>.
\<close>

definition toChainID :: "u256 \<Rightarrow> trx_error + u64" where
  "toChainID val = (if val = 0 \<or> 2 ^ 64 - 1 < val then Inl BadChainId else Inr (ucast val))"

definition decodeVRS :: "u256 \<Rightarrow> u256 \<Rightarrow> u256 \<Rightarrow> trx_error + (u64 \<times> byte \<times> u256 \<times> u256)" where
  "decodeVRS v r s =
     (if r = 0 \<and> s = 0 then
        (case toChainID v of Inl e \<Rightarrow> Inl e | Inr c \<Rightarrow> Inr (c, 0, 0, 0))
      else if 36 < v then
        (case toChainID ((v - 35) div 2) of
           Inl e \<Rightarrow> Inl e
         | Inr c \<Rightarrow>
             Inr (c, if c \<noteq> 0 then ucast (v - (ucast c * 2 + 35)) else ucast (v - 27), r, s))
      else if v \<noteq> 27 \<and> v \<noteq> 28 then Inl BadV
      else Inr (0, ucast (v - 27), r, s))"

definition encodeV :: "u64 \<Rightarrow> byte \<Rightarrow> u64" where
  "encodeV chain_id vrs_v = ucast vrs_v + (if chain_id \<noteq> 0 then chain_id * 2 + 35 else 27)"

section \<open>Properties\<close>

lemma unat_sub_max: "unat (- 1 - x :: 64 word) = 2 ^ 64 - 1 - unat x"
proof -
  have "x \<le> - 1" by simp
  then have "unat (- 1 - x) = unat (- 1 :: 64 word) - unat x"
    by (rule unat_sub)
  then show ?thesis by (simp add: unsigned_minus_1_eq_mask mask_eq_exp_minus_1)
qed

lemma guard_fits:
  fixes g n c :: u64
  assumes "\<not> (- 1 - g) div c < n" and "0 < unat c"
  shows "unat g + unat n * unat c < 2 ^ 64"
proof -
  have "unat n \<le> (2 ^ 64 - 1 - unat g) div unat c"
    using assms(1) by (simp add: not_less word_le_nat_alt unat_div_distrib unat_sub_max)
  then have "unat n * unat c \<le> 2 ^ 64 - 1 - unat g"
    using assms(2) by (metis less_eq_div_iff_mult_less_eq)
  moreover have "unat g < 2 ^ 64"
    by (rule order.strict_trans2[OF unsigned_less]) simp
  ultimately show ?thesis by linarith
qed

lemma guard_trips:
  fixes g n c :: u64
  assumes "(- 1 - g) div c < n" and "0 < unat c"
  shows "2 ^ 64 \<le> unat g + unat n * unat c"
proof -
  have "(2 ^ 64 - 1 - unat g) div unat c < unat n"
    using assms(1) by (simp add: word_less_nat_alt unat_div_distrib unat_sub_max)
  then have "2 ^ 64 - 1 - unat g < unat n * unat c"
    using assms(2) by (simp add: div_less_iff_less_mult)
  then show ?thesis by linarith
qed

lemma unat_add_mult_fits:
  fixes g n c :: u64
  assumes "unat g + unat n * unat c < 2 ^ 64"
  shows "unat (g + n * c) = unat g + unat n * unat c"
  using assms by (simp add: unat_word_ariths)

lemma filter_zero_length:
  "length (filter (\<lambda>b. b = (0::byte)) data) = length data - length (filter (\<lambda>b. b \<noteq> 0) data)"
  using sum_length_filter_compl[of "\<lambda>b. b = (0::byte)" data] by simp

lemma tx_gas_consts:
  "unat kTxDataNonZeroGas = 68" "unat kTxDataZeroGas = 4" "unat kTxGas = 21000"
  "unat kTxGasContractCreation = 53000"
  by (simp_all add: kTxDataNonZeroGas_def kTxDataZeroGas_def kTxGas_def kTxGasContractCreation_def)

text \<open>Both guards together: success means no wrap-around, failure means the true cost does not fit.\<close>

lemma IntrinsicGas_cases:
  assumes len: "length data < 2 ^ 64"
  shows "case IntrinsicGas data cc of
           Inr g \<Rightarrow> unat g = intrinsic_cost data cc
         | Inl e \<Rightarrow> e = OutOfGas \<and> 2 ^ 64 \<le> intrinsic_cost data cc"
proof (cases "data = []")
  case True
  then show ?thesis
    by (simp add: IntrinsicGas_def intrinsic_cost_def tx_gas_consts)
next
  case False
  define gas where "gas = (if cc then kTxGasContractCreation else kTxGas)"
  define k where "k = length (filter (\<lambda>b. b \<noteq> 0) data)"
  define nz where "nz = (of_nat k :: u64)"
  define gas1 where "gas1 = gas + nz * kTxDataNonZeroGas"
  define z where "z = (of_nat (length data) - nz :: u64)"
  have k: "k \<le> length data" by (simp add: k_def)
  then have nz: "unat nz = k"
    using len by (simp add: nz_def unat_of_nat)
  have "nz \<le> of_nat (length data)"
    using k len by (simp add: nz_def word_le_nat_alt unat_of_nat)
  then have z: "unat z = length data - k"
    using len nz by (simp add: z_def unat_sub unat_of_nat)
  have gas: "unat gas = (if cc then 53000 else 21000)"
    by (simp add: gas_def tx_gas_consts)
  have cost: "intrinsic_cost data cc = unat gas + k * 68 + (length data - k) * 4"
    by (simp add: intrinsic_cost_def gas k_def filter_zero_length)
  note unfolded = IntrinsicGas_def Let_def False gas_def[symmetric] k_def[symmetric]
    nz_def[symmetric] gas1_def[symmetric] z_def[symmetric]
  show ?thesis
  proof (cases "(- 1 - gas) div kTxDataNonZeroGas < nz")
    case True
    from guard_trips[OF this] have "2 ^ 64 \<le> unat gas + k * 68"
      by (simp add: tx_gas_consts nz)
    with True show ?thesis by (simp add: unfolded cost)
  next
    case ok1: False
    from guard_fits[OF this] have fit: "unat gas + k * 68 < 2 ^ 64"
      by (simp add: tx_gas_consts nz)
    then have gas1: "unat gas1 = unat gas + k * 68"
      by (simp add: gas1_def unat_add_mult_fits tx_gas_consts nz)
    show ?thesis
    proof (cases "(- 1 - gas1) div kTxDataZeroGas < z")
      case True
      from guard_trips[OF this] have "2 ^ 64 \<le> unat gas1 + (length data - k) * 4"
        by (simp add: tx_gas_consts z)
      with True ok1 show ?thesis by (simp add: unfolded cost gas1)
    next
      case ok2: False
      from guard_fits[OF this] have "unat gas1 + (length data - k) * 4 < 2 ^ 64"
        by (simp add: tx_gas_consts z)
      then have "unat (gas1 + z * kTxDataZeroGas) = unat gas1 + (length data - k) * 4"
        by (simp add: unat_add_mult_fits tx_gas_consts z)
      with ok1 ok2 show ?thesis by (simp add: unfolded cost gas1)
    qed
  qed
qed

text \<open>
  C28: a transaction passes \<open>intrinsicGasCovered\<close> exactly when its gas limit covers the
  mathematical intrinsic cost: the two overflow guards of \<open>IntrinsicGas\<close> neither let a
  wrapped sum through nor reject a cost that fits.
\<close>

theorem intrinsicGasCovered_iff:
  assumes "length (trx_data t) < 2 ^ 64"
  shows "intrinsicGasCovered t \<longleftrightarrow>
           intrinsic_cost (trx_data t) (trx_receiver t = None) \<le> unat (trx_gas t)"
proof -
  have gas: "unat (trx_gas t) < 2 ^ 64"
    by (rule order.strict_trans2[OF unsigned_less]) simp
  show ?thesis
    using IntrinsicGas_cases[OF assms, of "trx_receiver t = None"] gas
    by (auto simp: intrinsicGasCovered_def word_le_nat_alt split: sum.splits)
qed

definition example_trx :: transaction where
  "example_trx = \<lparr>trx_nonce = 3, trx_value = 10, trx_gas_price = 2, trx_gas = 21072,
     trx_data = [0, 7], trx_receiver = Some 5, trx_chain_id = 841, trx_hash = 77,
     trx_sender = 9, trx_sender_valid = True\<rparr>"

theorem intrinsicGasCovered_iff_witness:
  "length (trx_data example_trx) < 2 ^ 64 \<and> intrinsicGasCovered example_trx
   \<and> \<not> intrinsicGasCovered (example_trx\<lparr>trx_gas := 21071\<rparr>)"
proof -
  have a: "length (trx_data example_trx) < 2 ^ 64"
    by (simp add: example_trx_def)
  have b: "length (trx_data (example_trx\<lparr>trx_gas := 21071\<rparr>)) < 2 ^ 64"
    by (simp add: example_trx_def)
  show ?thesis
    using a intrinsicGasCovered_iff[OF a] intrinsicGasCovered_iff[OF b]
    by (simp add: example_trx_def intrinsic_cost_def)
qed

lemma unat_encodeV:
  assumes "unat c < 2 ^ 63 - 18" and "v < 2"
  shows "unat (encodeV c v) = unat v + (if c = 0 then 27 else 2 * unat c + 35)"
proof -
  have v: "unat (ucast v :: u64) = unat v" and "unat v < 2"
    using assms(2) by (simp_all add: unat_ucast_up word_less_nat_alt)
  have "unat (c * 2 + 35) = 2 * unat c + 35"
    using assms(1) by (simp add: unat_word_ariths)
  then show ?thesis
    using assms \<open>unat v < 2\<close> by (simp add: encodeV_def unat_word_ariths v)
qed

text \<open>
  Reading back the \<open>v\<close> field that \<open>streamRLP\<close> writes gives the chain id and the
  recovery id it was written from, for every chain id whose EIP-155 code fits in 64 bits.
\<close>

theorem decodeVRS_encodeV:
  assumes c: "unat c < 2 ^ 63 - 18" and v: "v < 2" and rs: "r \<noteq> 0 \<or> s \<noteq> 0"
  shows "decodeVRS (ucast (encodeV c v)) r s = Inr (c, v, r, s)"
proof -
  define w where "w = (ucast (encodeV c v) :: u256)"
  have v2: "unat v < 2" using v by (simp add: word_less_nat_alt)
  have w: "unat w = unat v + (if c = 0 then 27 else 2 * unat c + 35)"
    using unat_encodeV[OF c v] by (simp add: w_def unat_ucast_up)
  have "decodeVRS w r s = Inr (c, v, r, s)"
  proof (cases "c = 0")
    case True
    have "v = 0 \<or> v = 1"
      using v2 by (metis less_2_cases unat_1 unat_eq_zero unat_eqI One_nat_def)
    then have "w = 27 \<and> v = 0 \<or> w = 28 \<and> v = 1"
      using w True by (auto intro!: unat_eqI)
    then show ?thesis
      using rs True by (auto simp: decodeVRS_def)
  next
    case False
    then have c1: "1 \<le> unat c" by (simp add: unat_gt_0 Suc_leI)
    have w36: "36 < w" using w c1 False by (simp add: word_less_nat_alt)
    have "unat (w - 35) = unat v + 2 * unat c"
      using w False by (subst unat_sub) (simp_all add: word_le_nat_alt)
    then have "unat ((w - 35) div 2) = unat c"
      using v2 by (simp add: unat_div_distrib)
    then have d: "(w - 35) div 2 = ucast c"
      by (intro unat_eqI) (simp add: unat_ucast_up)
    have small: "unat (ucast c :: u256) < 2 ^ 64"
      using c by (simp add: unat_ucast_up)
    have chain: "toChainID (ucast c) = Inr c"
      using small False
      by (auto simp: toChainID_def word_less_nat_alt word_unat_eq_iff unat_ucast_up ucast_back)
    have "w = ucast v + (ucast c * 2 + 35)"
      using w c v2 False
      by (intro unat_eqI) (simp add: unat_word_ariths unat_ucast_up)
    then have "w - (ucast c * 2 + 35) = ucast v" by simp
    then show ?thesis
      using rs False w36 by (auto simp: decodeVRS_def d chain ucast_back)
  qed
  then show ?thesis by (simp add: w_def)
qed

theorem decodeVRS_encodeV_witness:
  "decodeVRS (ucast (encodeV 841 1)) 5 6 = Inr (841, 1, 5, 6)"
  by (rule decodeVRS_encodeV) simp_all

end
