(* ===== verification/Caches.thy ===== *)
theory Caches
  imports Prelude
begin

text \<open>
  The bounded containers of \<open>libraries/common/include/common/util.hpp\<close>:
  \<open>ExpirationCache\<close>, \<open>ExpirationBlockNumberCache\<close>, \<open>ExpirationCacheMap\<close>,
  \<open>ThreadSafeMap\<close>, \<open>ThreadSafeSet\<close> and the integer power \<open>int_pow\<close>. Every
  method takes the object's mutex for its whole body, so a method is one atomic step. Reading
  the front of an empty \<open>std::deque\<close> is undefined behaviour in C++; the model returns
  \<open>None\<close> there, so that its absence is a theorem.
\<close>

section \<open>int\_pow\<close>

fun int_pow_loop :: "int \<Rightarrow> nat \<Rightarrow> int" where
  "int_pow_loop x 0 = x"
| "int_pow_loop x (Suc y) = (if 0 < y then int_pow_loop (x * x) y else x)"

definition int_pow :: "int \<Rightarrow> nat \<Rightarrow> int" where
  "int_pow x y = (if y = 0 then 1 else int_pow_loop x y)"

section \<open>ExpirationCache\<close>

record 'k expiration_cache =
  ec_cache :: "'k set"
  ec_expiration :: "'k list"
  ec_max_size :: nat
  ec_delete_step :: nat

definition ec_empty :: "nat \<Rightarrow> nat \<Rightarrow> 'k expiration_cache" where
  "ec_empty mx st = \<lparr>ec_cache = {}, ec_expiration = [], ec_max_size = mx, ec_delete_step = st\<rparr>"

text \<open>The deletion loop: \<open>n\<close> times, erase the front key and pop it.\<close>

fun evict :: "nat \<Rightarrow> 'k set \<Rightarrow> 'k list \<Rightarrow> ('k set \<times> 'k list) option" where
  "evict 0 cache expiration = Some (cache, expiration)"
| "evict (Suc n) cache [] = None"
| "evict (Suc n) cache (k # expiration) = evict n (cache - {k}) expiration"

definition ec_contains :: "'k \<Rightarrow> 'k expiration_cache \<Rightarrow> bool" where
  "ec_contains k c \<longleftrightarrow> k \<in> ec_cache c"

definition ec_insert :: "'k \<Rightarrow> 'k expiration_cache \<Rightarrow> (bool \<times> 'k expiration_cache) option" where
  "ec_insert k c =
     (if ec_contains k c then Some (False, c)
      else
        let cache = insert k (ec_cache c); expiration = ec_expiration c @ [k] in
        if ec_max_size c < card cache then
          (case evict (ec_delete_step c) cache expiration of
             None \<Rightarrow> None
           | Some (cache', expiration') \<Rightarrow>
               Some (True, c\<lparr>ec_cache := cache', ec_expiration := expiration'\<rparr>))
        else Some (True, c\<lparr>ec_cache := cache, ec_expiration := expiration\<rparr>))"

definition ec_erase :: "'k \<Rightarrow> 'k expiration_cache \<Rightarrow> 'k expiration_cache" where
  "ec_erase k c = c\<lparr>ec_cache := ec_cache c - {k}\<rparr>"

definition ec_size :: "'k expiration_cache \<Rightarrow> nat" where
  "ec_size c = card (ec_cache c)"

definition ec_count :: "'k \<Rightarrow> 'k expiration_cache \<Rightarrow> nat" where
  "ec_count k c = (if k \<in> ec_cache c then 1 else 0)"

definition ec_clear :: "'k expiration_cache \<Rightarrow> 'k expiration_cache" where
  "ec_clear c = c\<lparr>ec_cache := {}, ec_expiration := []\<rparr>"

datatype 'k cache_op = CInsert 'k | CErase 'k | CClear

fun ec_step :: "'k cache_op \<Rightarrow> 'k expiration_cache \<Rightarrow> 'k expiration_cache option" where
  "ec_step (CInsert k) c = map_option snd (ec_insert k c)"
| "ec_step (CErase k) c = Some (ec_erase k c)"
| "ec_step CClear c = Some (ec_clear c)"

fun ec_run :: "'k cache_op list \<Rightarrow> 'k expiration_cache \<Rightarrow> 'k expiration_cache option" where
  "ec_run [] c = Some c"
| "ec_run (x # xs) c = (case ec_step x c of None \<Rightarrow> None | Some c' \<Rightarrow> ec_run xs c')"

section \<open>ExpirationBlockNumberCache\<close>

record 'k expiration_bn_cache =
  eb_cache :: "'k set"
  eb_block_expiration :: "('k \<times> u64) list"
  eb_max_size :: nat
  eb_delete_step :: nat
  eb_blocks_to_keep :: u32
  eb_last_block_number :: u64

text \<open>The \<open>while\<close> loop dropping entries more than \<open>kBlocksToKeep\<close> blocks old.\<close>

fun eb_expire :: "u64 \<Rightarrow> u32 \<Rightarrow> 'k set \<Rightarrow> ('k \<times> u64) list \<Rightarrow> 'k set \<times> ('k \<times> u64) list" where
  "eb_expire block_number keep cache [] = (cache, [])"
| "eb_expire block_number keep cache (e # es) =
     (if ucast keep < block_number \<and> snd e < block_number - ucast keep
      then eb_expire block_number keep (cache - {fst e}) es
      else (cache, e # es))"

fun eb_evict :: "nat \<Rightarrow> 'k set \<Rightarrow> ('k \<times> u64) list \<Rightarrow> ('k set \<times> ('k \<times> u64) list) option" where
  "eb_evict 0 cache es = Some (cache, es)"
| "eb_evict (Suc n) cache [] = None"
| "eb_evict (Suc n) cache (e # es) = eb_evict n (cache - {fst e}) es"

definition eb_insert ::
  "'k \<Rightarrow> u64 \<Rightarrow> 'k expiration_bn_cache \<Rightarrow> (bool \<times> 'k expiration_bn_cache) option" where
  "eb_insert k block_number c =
     (if k \<in> eb_cache c then Some (False, c)
      else
        let cache0 = insert k (eb_cache c);
            newer = eb_last_block_number c < block_number;
            last = (if newer then block_number else eb_last_block_number c);
            (cache1, es1) =
              (if newer then eb_expire block_number (eb_blocks_to_keep c) cache0 (eb_block_expiration c)
               else (cache0, eb_block_expiration c));
            es2 = es1 @ [(k, block_number)];
            c' = c\<lparr>eb_last_block_number := last\<rparr> in
        if eb_max_size c < card cache1 then
          (case eb_evict (eb_delete_step c) cache1 es2 of
             None \<Rightarrow> None
           | Some (cache2, es3) \<Rightarrow>
               Some (True, c'\<lparr>eb_cache := cache2, eb_block_expiration := es3\<rparr>))
        else Some (True, c'\<lparr>eb_cache := cache1, eb_block_expiration := es2\<rparr>))"

definition eb_clear :: "'k expiration_bn_cache \<Rightarrow> 'k expiration_bn_cache" where
  "eb_clear c = c\<lparr>eb_cache := {}, eb_block_expiration := []\<rparr>"

section \<open>ExpirationCacheMap\<close>

record ('k, 'v) expiration_cache_map =
  em_cache :: "('k, 'v) umap"
  em_expiration :: "'k list"
  em_max_size :: nat
  em_delete_step :: nat

fun em_evict :: "nat \<Rightarrow> ('k, 'v) umap \<Rightarrow> 'k list \<Rightarrow> (('k, 'v) umap \<times> 'k list) option" where
  "em_evict 0 cache expiration = Some (cache, expiration)"
| "em_evict (Suc n) cache [] = None"
| "em_evict (Suc n) cache (k # expiration) = em_evict n (um_erase k cache) expiration"

text \<open>\<open>eraseOldest\<close> and the three copies of its loop inside the updates.\<close>

definition em_shrink ::
  "('k, 'v) expiration_cache_map \<Rightarrow> ('k, 'v) expiration_cache_map option" where
  "em_shrink c =
     (if em_max_size c < length (em_cache c) then
        (case em_evict (em_delete_step c) (em_cache c) (em_expiration c) of
           None \<Rightarrow> None
         | Some (cache, expiration) \<Rightarrow> Some (c\<lparr>em_cache := cache, em_expiration := expiration\<rparr>))
      else Some c)"

definition em_insert ::
  "'k \<Rightarrow> 'v \<Rightarrow> ('k, 'v) expiration_cache_map \<Rightarrow> (bool \<times> ('k, 'v) expiration_cache_map) option" where
  "em_insert k v c =
     (if um_find (em_cache c) k \<noteq> None then Some (False, c)
      else map_option (Pair True)
             (em_shrink (c\<lparr>em_cache := um_put k v (em_cache c), em_expiration := em_expiration c @ [k]\<rparr>)))"

definition em_get :: "'v \<Rightarrow> 'k \<Rightarrow> ('k, 'v) expiration_cache_map \<Rightarrow> 'v \<times> bool" where
  "em_get default_value k c =
     (case um_find (em_cache c) k of None \<Rightarrow> (default_value, False) | Some v \<Rightarrow> (v, True))"

definition em_clear :: "('k, 'v) expiration_cache_map \<Rightarrow> ('k, 'v) expiration_cache_map" where
  "em_clear c = c\<lparr>em_cache := [], em_expiration := []\<rparr>"

definition em_update ::
  "'k \<Rightarrow> 'v \<Rightarrow> ('k, 'v) expiration_cache_map \<Rightarrow> ('k, 'v) expiration_cache_map option" where
  "em_update k v c =
     (let expiration = (if um_find (em_cache c) k \<noteq> None
                        then filter (\<lambda>x. x \<noteq> k) (em_expiration c) else em_expiration c) in
      em_shrink (c\<lparr>em_cache := um_put k v (em_cache c), em_expiration := expiration @ [k]\<rparr>))"

definition em_erase :: "'k \<Rightarrow> ('k, 'v) expiration_cache_map \<Rightarrow> ('k, 'v) expiration_cache_map" where
  "em_erase k c =
     c\<lparr>em_cache := um_erase k (em_cache c), em_expiration := filter (\<lambda>x. x \<noteq> k) (em_expiration c)\<rparr>"

definition em_updateWithGet ::
  "'v \<Rightarrow> 'k \<Rightarrow> 'v \<Rightarrow> ('k, 'v) expiration_cache_map
     \<Rightarrow> (('v \<times> bool) \<times> ('k, 'v) expiration_cache_map) option" where
  "em_updateWithGet default_value k v c =
     map_option (Pair (em_get default_value k c))
       (em_shrink (c\<lparr>em_cache := um_put k v (em_cache c), em_expiration := em_expiration c @ [k]\<rparr>))"

definition em_compare_update ::
  "'k \<Rightarrow> 'v \<Rightarrow> 'v \<Rightarrow> ('k, 'v) expiration_cache_map
     \<Rightarrow> (bool \<times> ('k, 'v) expiration_cache_map) option" where
  "em_compare_update k v expected c =
     (if um_find (em_cache c) k = Some expected then
        map_option (Pair True)
          (em_shrink (c\<lparr>em_cache := um_put k v (em_cache c), em_expiration := em_expiration c @ [k]\<rparr>))
      else Some (False, c))"

section \<open>ThreadSafeMap and ThreadSafeSet\<close>

definition tsm_emplace :: "'k \<Rightarrow> 'v \<Rightarrow> ('k, 'v) umap \<Rightarrow> bool \<times> ('k, 'v) umap" where
  "tsm_emplace k v m = (if um_find m k = None then (True, um_put k v m) else (False, m))"

definition tsm_get :: "'v \<Rightarrow> 'k \<Rightarrow> ('k, 'v) umap \<Rightarrow> 'v \<times> bool" where
  "tsm_get default_value k m =
     (case um_find m k of None \<Rightarrow> (default_value, False) | Some v \<Rightarrow> (v, True))"

fun tsm_values_loop :: "nat \<Rightarrow> nat \<Rightarrow> 'v list \<Rightarrow> ('k, 'v) umap \<Rightarrow> 'v list" where
  "tsm_values_loop cnt counter vs [] = vs"
| "tsm_values_loop cnt counter vs (p # m) =
     (let vs' = vs @ [snd p] in
      if cnt \<noteq> 0 then
        (if Suc counter = cnt then vs' else tsm_values_loop cnt (Suc counter) vs' m)
      else tsm_values_loop cnt counter vs' m)"

definition tsm_getValues :: "nat \<Rightarrow> ('k, 'v) umap \<Rightarrow> 'v list" where
  "tsm_getValues cnt m = tsm_values_loop cnt 0 [] m"

definition tsm_erase_if :: "('v \<Rightarrow> bool) \<Rightarrow> ('k, 'v) umap \<Rightarrow> ('k, 'v) umap" where
  "tsm_erase_if condition m = filter (\<lambda>p. \<not> condition (snd p)) m"

definition tsm_erase :: "'k \<Rightarrow> ('k, 'v) umap \<Rightarrow> bool \<times> ('k, 'v) umap" where
  "tsm_erase k m = (um_find m k \<noteq> None, um_erase k m)"

definition tsm_clear :: "('k, 'v) umap \<Rightarrow> ('k, 'v) umap" where
  "tsm_clear m = []"

definition tss_emplace :: "'k \<Rightarrow> 'k set \<Rightarrow> bool \<times> 'k set" where
  "tss_emplace k s = (k \<notin> s, insert k s)"

definition tss_erase :: "'k \<Rightarrow> 'k set \<Rightarrow> bool \<times> 'k set" where
  "tss_erase k s = (k \<in> s, s - {k})"

definition tss_clear :: "'k set \<Rightarrow> 'k set" where
  "tss_clear s = {}"

section \<open>Properties of int\_pow\<close>

lemma int_pow_loop_eq: "0 < y \<Longrightarrow> int_pow_loop x y = x ^ (2 ^ (y - 1))"
proof (induction x y rule: int_pow_loop.induct)
  case (2 x y)
  show ?case
  proof (cases y)
    case (Suc m)
    then have "int_pow_loop x (Suc y) = (x * x) ^ (2 ^ m)"
      using 2 by simp
    also have "\<dots> = x ^ (2 * 2 ^ m)"
      by (simp add: power_mult power2_eq_square)
    finally show ?thesis using Suc by simp
  qed simp
qed simp

text \<open>
  \<open>int_pow x y\<close> squares \<open>y - 1\<close> times, so it is \<open>x ^ (2 ^ (y - 1))\<close>. It is the
  power only for exponents up to 2, the only ones the log-bloom index uses
  (\<open>c_bloomIndexLevels = 2\<close>); with a third index level it would be wrong.
\<close>

theorem int_pow_squares:
  "(0 < y \<longrightarrow> int_pow x y = x ^ (2 ^ (y - 1)))
   \<and> (y \<le> 2 \<longrightarrow> int_pow x y = x ^ y)
   \<and> int_pow 16 3 \<noteq> 16 ^ 3"
proof (intro conjI impI)
  show pow: "int_pow x y = x ^ (2 ^ (y - 1))" if "0 < y" for x y
    using that by (simp add: int_pow_def int_pow_loop_eq)
  assume "y \<le> 2"
  then have "y = 0 \<or> y = 1 \<or> y = 2" by auto
  then show "int_pow x y = x ^ y"
    using pow[of y x] by (auto simp: int_pow_def)
next
  show "int_pow 16 3 \<noteq> 16 ^ 3"
    by (simp add: int_pow_def int_pow_loop_eq)
qed

theorem int_pow_squares_witness: "int_pow 16 2 = 256 \<and> int_pow 16 3 = 65536"
  using int_pow_squares[of 2 16] int_pow_squares[of 3 16] by simp

section \<open>Properties of the expiration caches\<close>

text \<open>The deque covers the set: every live key is still queued for expiration.\<close>

definition ec_inv :: "'k expiration_cache \<Rightarrow> bool" where
  "ec_inv c \<longleftrightarrow> ec_cache c \<subseteq> set (ec_expiration c)"

lemma evict_eq: "n \<le> length e \<Longrightarrow> evict n c e = Some (c - set (take n e), drop n e)"
  by (induction n c e rule: evict.induct) auto

lemma card_le_queue: "c \<subseteq> set e \<Longrightarrow> card c \<le> length e"
  by (meson card_length card_mono finite_set le_trans)

lemma finite_ec_cache: "ec_inv c \<Longrightarrow> finite (ec_cache c)"
  by (auto simp: ec_inv_def intro: finite_subset)

lemma ec_insert_cases:
  assumes inv: "ec_inv c" and step: "ec_delete_step c \<le> Suc (ec_max_size c)"
    and new: "k \<notin> ec_cache c"
  defines "n \<equiv> (if ec_max_size c < Suc (card (ec_cache c)) then ec_delete_step c else 0)"
  shows "ec_insert k c =
    Some (True, c\<lparr>ec_cache := insert k (ec_cache c) - set (take n (ec_expiration c @ [k])),
                  ec_expiration := drop n (ec_expiration c @ [k])\<rparr>)"
proof -
  have card: "card (insert k (ec_cache c)) = Suc (card (ec_cache c))"
    using finite_ec_cache[OF inv] new by simp
  have "card (insert k (ec_cache c)) \<le> length (ec_expiration c @ [k])"
    using inv by (intro card_le_queue) (auto simp: ec_inv_def)
  then have "ec_delete_step c \<le> length (ec_expiration c @ [k])"
    if "ec_max_size c < Suc (card (ec_cache c))"
    using that step card by simp
  then show ?thesis
    using new by (auto simp: ec_insert_def ec_contains_def card n_def evict_eq Let_def)
qed

lemma ec_insert_inv:
  assumes "ec_inv c" and "ec_delete_step c \<le> Suc (ec_max_size c)"
  shows "\<exists>b c'. ec_insert k c = Some (b, c') \<and> ec_inv c'
           \<and> ec_max_size c' = ec_max_size c \<and> ec_delete_step c' = ec_delete_step c"
proof (cases "k \<in> ec_cache c")
  case True
  then show ?thesis using assms by (auto simp: ec_insert_def ec_contains_def)
next
  case False
  have cover: "A - set (take n e) \<subseteq> set (drop n e)" if "A \<subseteq> set e" for A :: "'a set" and e n
    using that by (metis Diff_subset_conv append_take_drop_id set_append)
  have "insert k (ec_cache c) \<subseteq> set (ec_expiration c @ [k])"
    using assms(1) by (auto simp: ec_inv_def)
  note cover[OF this]
  then show ?thesis
    unfolding ec_insert_cases[OF assms False] by (simp add: ec_inv_def) blast
qed

lemma ec_step_inv:
  assumes "ec_inv c" and "ec_delete_step c \<le> Suc (ec_max_size c)"
  shows "\<exists>c'. ec_step x c = Some c' \<and> ec_inv c'
           \<and> ec_max_size c' = ec_max_size c \<and> ec_delete_step c' = ec_delete_step c"
proof (cases x)
  case (CInsert k)
  then show ?thesis using ec_insert_inv[OF assms, of k] by auto
qed (use assms in \<open>auto simp: ec_inv_def ec_erase_def ec_clear_def\<close>)

lemma ec_run_inv:
  assumes "ec_inv c" and "ec_delete_step c \<le> Suc (ec_max_size c)"
  shows "\<exists>c'. ec_run xs c = Some c' \<and> ec_inv c'"
  using assms
proof (induction xs arbitrary: c)
  case (Cons x xs)
  obtain c' where "ec_step x c = Some c'" "ec_inv c'"
    "ec_delete_step c' \<le> Suc (ec_max_size c')"
    using ec_step_inv[OF Cons.prems, of x] Cons.prems by auto
  with Cons.IH show ?case by auto
qed simp

text \<open>
  A cache built with \<open>delete_step \<le> max_size + 1\<close> never pops from an empty deque,
  whatever sequence of \<open>insert\<close>, \<open>erase\<close> and \<open>clear\<close> is run on it, and every key it
  still reports is queued for expiration.
\<close>

theorem ec_run_never_underflows:
  assumes "st \<le> Suc mx"
  shows "\<exists>c. ec_run xs (ec_empty mx st) = Some c \<and> ec_inv c"
  by (rule ec_run_inv) (simp_all add: ec_inv_def ec_empty_def assms)

theorem ec_run_never_underflows_witness:
  "(1::nat) \<le> Suc 1 \<and>
   (\<exists>c. ec_run [CInsert (5::nat), CErase 5, CInsert 6, CInsert 7] (ec_empty 1 1) = Some c \<and> ec_inv c)"
  using ec_run_never_underflows[of 1 1 "[CInsert (5::nat), CErase 5, CInsert 6, CInsert 7]"]
  by (simp del: ec_run.simps)

text \<open>While no key is erased the deque lists the live keys exactly, and the size bound holds.\<close>

definition ec_exact :: "'k expiration_cache \<Rightarrow> bool" where
  "ec_exact c \<longleftrightarrow> distinct (ec_expiration c) \<and> ec_cache c = set (ec_expiration c)
     \<and> card (ec_cache c) \<le> ec_max_size c"

lemma ec_insert_exact:
  assumes ex: "ec_exact c" and st: "0 < ec_delete_step c" "ec_delete_step c \<le> Suc (ec_max_size c)"
  shows "\<exists>b c'. ec_insert k c = Some (b, c') \<and> ec_exact c'
           \<and> ec_max_size c' = ec_max_size c \<and> ec_delete_step c' = ec_delete_step c"
proof (cases "k \<in> ec_cache c")
  case True
  then show ?thesis using ex by (auto simp: ec_insert_def ec_contains_def)
next
  case False
  define n where "n = (if ec_max_size c < Suc (card (ec_cache c)) then ec_delete_step c else 0)"
  define e where "e = ec_expiration c @ [k]"
  have inv: "ec_inv c" using ex by (auto simp: ec_inv_def ec_exact_def)
  have de: "distinct e" and se: "set e = insert k (ec_cache c)"
    using ex False by (auto simp: e_def ec_exact_def)
  have len: "length e = Suc (card (ec_cache c))"
    using ex distinct_card by (fastforce simp: e_def ec_exact_def)
  have split: "set e - set (take n e) = set (drop n e)"
  proof -
    have "set e = set (take n e) \<union> set (drop n e)"
      by (metis append_take_drop_id set_append)
    moreover have "set (take n e) \<inter> set (drop n e) = {}"
      using de by (simp add: set_take_disj_set_drop_if_distinct)
    ultimately show ?thesis by blast
  qed
  have "card (set (drop n e)) = length e - n"
    using de by (simp add: distinct_card)
  then have "card (set (drop n e)) \<le> ec_max_size c"
    using ex st len by (auto simp: n_def ec_exact_def split: if_splits)
  then show ?thesis
    using ec_insert_cases[OF inv st(2) False] split se de
    by (auto simp: ec_exact_def n_def[symmetric] e_def[symmetric])
qed

text \<open>
  A run of insertions alone keeps \<open>ExpirationCache\<close> within its \<open>max_size\<close>.
\<close>

theorem ec_insertions_bounded:
  assumes "0 < st" and "st \<le> Suc mx"
  shows "\<exists>c. ec_run (map CInsert ks) (ec_empty mx st) = Some c \<and> ec_size c \<le> mx"
proof -
  have "\<exists>c'. ec_run (map CInsert ks) c = Some c' \<and> ec_exact c' \<and> ec_max_size c' = ec_max_size c"
    if "ec_exact c" "0 < ec_delete_step c" "ec_delete_step c \<le> Suc (ec_max_size c)" for c
    using that
  proof (induction ks arbitrary: c)
    case (Cons k ks)
    obtain b c' where "ec_insert k c = Some (b, c')" "ec_exact c'"
      "ec_max_size c' = ec_max_size c" "ec_delete_step c' = ec_delete_step c"
      using ec_insert_exact[OF Cons.prems] by blast
    with Cons.IH[of c'] Cons.prems show ?case by simp
  qed simp
  from this[of "ec_empty mx st"] show ?thesis
    using assms by (auto simp: ec_empty_def ec_exact_def ec_size_def)
qed

theorem ec_insertions_bounded_witness:
  "\<exists>c. ec_run (map CInsert [1, 2, 3, 4::nat]) (ec_empty 2 1) = Some c \<and> ec_size c \<le> 2"
  by (rule ec_insertions_bounded) simp_all

text \<open>
  \<open>erase\<close> drops a key from the set but leaves it in the deque. Inserting and erasing one
  key \<open>n\<close> times leaves an empty cache with \<open>n\<close> queued expirations (the deque grows without
  bound), and stale entries let the live set pass \<open>max_size\<close>.
\<close>

theorem ec_erase_leaves_stale_entries:
  "(0 < mx \<longrightarrow> (\<exists>c. ec_run (concat (replicate n [CInsert k, CErase k])) (ec_empty mx st) = Some c
        \<and> ec_size c = 0 \<and> length (ec_expiration c) = n))
   \<and> (\<exists>c. ec_run [CInsert (1::nat), CErase 1, CInsert 2, CInsert 3, CInsert 4] (ec_empty 2 1) = Some c
        \<and> ec_size c = 3 \<and> ec_max_size c = 2)"
proof (intro conjI impI)
  assume mx: "0 < mx"
  have "ec_run (concat (replicate n [CInsert k, CErase k])) c
          = Some (c\<lparr>ec_expiration := ec_expiration c @ replicate n k\<rparr>)"
    if "ec_cache c = {}" "ec_max_size c = mx" for c
    using that
  proof (induction n arbitrary: c)
    case (Suc n)
    have eq: "c\<lparr>ec_expiration := e, ec_cache := {}\<rparr> = c\<lparr>ec_expiration := e\<rparr>" for e
      using Suc.prems by (cases c) simp
    have "ec_run (concat (replicate (Suc n) [CInsert k, CErase k])) c
        = ec_run (concat (replicate n [CInsert k, CErase k])) (c\<lparr>ec_expiration := ec_expiration c @ [k]\<rparr>)"
      using Suc.prems mx
      by (simp add: ec_insert_def ec_contains_def ec_erase_def Let_def eq)
    then show ?case using Suc by simp
  qed simp
  from this[of "ec_empty mx st"]
  show "\<exists>c. ec_run (concat (replicate n [CInsert k, CErase k])) (ec_empty mx st) = Some c
        \<and> ec_size c = 0 \<and> length (ec_expiration c) = n"
    by (simp add: ec_empty_def ec_size_def)
next
  show "\<exists>c. ec_run [CInsert (1::nat), CErase 1, CInsert 2, CInsert 3, CInsert 4] (ec_empty 2 1) = Some c
        \<and> ec_size c = 3 \<and> ec_max_size c = 2"
    by (simp add: ec_empty_def ec_insert_def ec_contains_def ec_erase_def ec_size_def Let_def)
qed

theorem ec_erase_leaves_stale_entries_witness:
  "\<exists>c. ec_run (concat (replicate 5 [CInsert (7::nat), CErase 7])) (ec_empty 3 1) = Some c
     \<and> ec_size c = 0 \<and> length (ec_expiration c) = 5"
  by (rule mp[OF conjunct1[OF ec_erase_leaves_stale_entries[of 3 5 "7::nat" 1]]]) simp

end
