(* ===== verification/Transaction_Queue.thy ===== *)
theory Transaction_Queue
  imports Transaction_Types Caches
begin

text \<open>
  The transaction pool, \<open>core_libs/consensus/src/transaction/transaction_queue.cpp\<close>: proposable
  transactions indexed by hash and by (sender, nonce), gas totals per gas price, non-proposable
  transactions with the block they expire after, and the cache of known hashes. The pool is
  protected by the caller's mutex, so each method is one step. \<open>now\<close> stands for
  \<open>system_clock::now()\<close>. An \<open>assert\<close> that fails is \<open>Inl AssertFailed\<close>, a throwing
  \<open>getSender\<close> is \<open>Inl InvalidSignature\<close>.
\<close>

datatype trx_status = Inserted | InsertedNonProposable | Known | Overflow

datatype tq_error = InvalidSignature | AssertFailed | DequeUnderflow | EndIterator

record transaction_queue =
  tq_account_nonce :: "(addr_t, (u256, transaction) omap) umap"
  tq_queue :: "(h256, transaction) umap"
  tq_gas_prices :: "(u256, u64) omap"
  tq_non_proposable :: "(h256, u64 \<times> transaction) umap"
  tq_known :: "h256 expiration_cache"
  tq_overflow_time :: nat
  tq_data_size :: u64
  tq_max_size :: nat

text \<open>Limits derived from \<open>max_size\<close> in the constructor.\<close>

definition kNonProposableTransactionsPeriodExpiryLimit :: u64 where
  "kNonProposableTransactionsPeriodExpiryLimit = 10"

definition kNonProposableTransactionsMaxSize :: "transaction_queue \<Rightarrow> nat" where
  "kNonProposableTransactionsMaxSize q = tq_max_size q * 20 div 100"

definition kMaxDataSize :: "transaction_queue \<Rightarrow> nat" where
  "kMaxDataSize q = tq_max_size q * 1024"

definition kMaxSingleAccountTransactionsSize :: "transaction_queue \<Rightarrow> nat" where
  "kMaxSingleAccountTransactionsSize q = tq_max_size q * 5 div 100"

definition tq_new :: "nat \<Rightarrow> transaction_queue" where
  "tq_new max_size =
     \<lparr>tq_account_nonce = [], tq_queue = [], tq_gas_prices = [], tq_non_proposable = [],
      tq_known = ec_empty (max_size * 2) (max_size div 5), tq_overflow_time = 0,
      tq_data_size = 0, tq_max_size = max_size\<rparr>"

abbreviation data_len :: "transaction \<Rightarrow> u64" where
  "data_len t \<equiv> of_nat (length (trx_data t))"

definition tq_size :: "transaction_queue \<Rightarrow> nat" where
  "tq_size q = length (tq_queue q)"

definition addTransaction :: "transaction \<Rightarrow> bool \<Rightarrow> u64 \<Rightarrow> transaction_queue \<Rightarrow> transaction_queue" where
  "addTransaction t proposable last_block_number q =
     (if proposable then
        (if um_find (tq_queue q) (trx_hash t) = None then
           q\<lparr>tq_queue := um_put (trx_hash t) t (tq_queue q),
             tq_data_size := tq_data_size q + data_len t,
             tq_gas_prices := om_put (trx_gas_price t)
               (um_get_or 0 (tq_gas_prices q) (trx_gas_price t) + trx_gas t) (tq_gas_prices q)\<rparr>
         else q)
      else
        (if um_find (tq_non_proposable q) (trx_hash t) = None then
           q\<lparr>tq_non_proposable := um_put (trx_hash t) (last_block_number, t) (tq_non_proposable q),
             tq_data_size := tq_data_size q + data_len t\<rparr>
         else q))"

definition removeTransaction :: "transaction \<Rightarrow> bool \<Rightarrow> transaction_queue \<Rightarrow> bool \<times> transaction_queue" where
  "removeTransaction t proposable q =
     (if proposable then
        (if um_find (tq_queue q) (trx_hash t) \<noteq> None then
           (let entry = um_get_or 0 (tq_gas_prices q) (trx_gas_price t) - trx_gas t in
            (True, q\<lparr>tq_queue := um_erase (trx_hash t) (tq_queue q),
                     tq_data_size := tq_data_size q - data_len t,
                     tq_gas_prices := (if entry = 0 then um_erase (trx_gas_price t) (tq_gas_prices q)
                                       else om_put (trx_gas_price t) entry (tq_gas_prices q))\<rparr>))
         else (False, q))
      else
        (if um_find (tq_non_proposable q) (trx_hash t) \<noteq> None then
           (True, q\<lparr>tq_non_proposable := um_erase (trx_hash t) (tq_non_proposable q),
                    tq_data_size := tq_data_size q - data_len t\<rparr>)
         else (False, q)))"

definition tq_contains :: "h256 \<Rightarrow> transaction_queue \<Rightarrow> bool" where
  "tq_contains h q \<longleftrightarrow> um_find (tq_queue q) h \<noteq> None \<or> um_find (tq_non_proposable q) h \<noteq> None"

definition tq_get :: "h256 \<Rightarrow> transaction_queue \<Rightarrow> transaction option" where
  "tq_get h q =
     (case um_find (tq_queue q) h of
        Some t \<Rightarrow> Some t
      | None \<Rightarrow> map_option snd (um_find (tq_non_proposable q) h))"

subsection \<open>Ordered view\<close>

text \<open>
  \<open>head_transactions\<close> is a multimap with the greatest gas price first; equal prices keep
  insertion order.
\<close>

fun mm_insert :: "transaction \<Rightarrow> transaction list \<Rightarrow> transaction list" where
  "mm_insert t [] = [t]"
| "mm_insert t (x # xs) =
     (if trx_gas_price x < trx_gas_price t then t # x # xs else x # mm_insert t xs)"

text \<open>First loop: one head per account; \<open>None\<close> where an account had no transaction (end iterator).\<close>

fun ordered_init ::
  "(addr_t, (u256, transaction) omap) umap
     \<Rightarrow> transaction list \<Rightarrow> (addr_t, transaction list) umap
     \<Rightarrow> (transaction list \<times> (addr_t, transaction list) umap) option" where
  "ordered_init [] heads iters = Some (heads, iters)"
| "ordered_init ((a, m) # accounts) heads iters =
     (case m of
        [] \<Rightarrow> None
      | p # ps \<Rightarrow> ordered_init accounts (mm_insert (snd p) heads) (iters @ [(a, map snd ps)]))"

lemma length_mm_insert [simp]: "length (mm_insert t xs) = Suc (length xs)"
  by (induction xs) auto

lemma pending_update:
  "map_of iters a = Some (y # ys) \<Longrightarrow>
     Suc (sum_list (map (length \<circ> snd) (um_put a ys iters))) = sum_list (map (length \<circ> snd) iters)"
  by (induction iters) (auto split: if_splits)

function ordered_loop ::
  "nat \<Rightarrow> transaction list \<Rightarrow> transaction list \<Rightarrow> (addr_t, transaction list) umap \<Rightarrow> transaction list" where
  "ordered_loop cnt ret [] iters = ret"
| "ordered_loop cnt ret (t # heads) iters =
     (let ret' = ret @ [t] in
      if length ret' = cnt then ret'
      else
        (case um_find iters (trx_sender t) of
           Some (y # ys) \<Rightarrow>
             ordered_loop cnt ret' (mm_insert y heads) (um_put (trx_sender t) ys iters)
         | _ \<Rightarrow> ordered_loop cnt ret' heads iters))"
  by pat_completeness auto
termination
  by (relation "measure (\<lambda>(cnt, ret, heads, iters). length heads + sum_list (map (length \<circ> snd) iters))")
     (auto dest: pending_update)

definition getOrderedTransactions :: "nat \<Rightarrow> transaction_queue \<Rightarrow> transaction list option" where
  "getOrderedTransactions cnt q =
     (case ordered_init (tq_account_nonce q) [] [] of
        None \<Rightarrow> None
      | Some (heads, iters) \<Rightarrow> Some (ordered_loop cnt [] heads iters))"

definition getAllTransactions :: "transaction_queue \<Rightarrow> transaction list list" where
  "getAllTransactions q = map (\<lambda>p. map snd (snd p)) (tq_account_nonce q)"

subsection \<open>Erasure and insertion\<close>

definition account_erase ::
  "addr_t \<Rightarrow> u256 \<Rightarrow> (u256, transaction) omap \<Rightarrow> transaction_queue \<Rightarrow> transaction_queue" where
  "account_erase a n m q =
     (let m' = um_erase n m in
      q\<lparr>tq_account_nonce := (if m' = [] then um_erase a (tq_account_nonce q)
                             else um_put a m' (tq_account_nonce q))\<rparr>)"

definition tq_erase :: "transaction \<Rightarrow> transaction_queue \<Rightarrow> tq_error + bool \<times> transaction_queue" where
  "tq_erase t q =
     (case um_find (tq_queue q) (trx_hash t) of
        None \<Rightarrow> Inr (removeTransaction t False q)
      | Some t' \<Rightarrow>
          (case um_find (tq_account_nonce q) (trx_sender t') of
             None \<Rightarrow> Inl AssertFailed
           | Some m \<Rightarrow>
               (case um_find m (trx_nonce t') of
                  None \<Rightarrow> Inl AssertFailed
                | Some t'' \<Rightarrow>
                    if trx_hash t \<noteq> trx_hash t'' then Inl AssertFailed
                    else Inr (removeTransaction t True
                                (account_erase (trx_sender t') (trx_nonce t') m q)))))"

definition account_put :: "transaction \<Rightarrow> transaction_queue \<Rightarrow> transaction_queue" where
  "account_put t q =
     q\<lparr>tq_account_nonce :=
         um_put (trx_sender t) (om_put (trx_nonce t) t (um_get_or [] (tq_account_nonce q) (trx_sender t)))
           (tq_account_nonce q)\<rparr>"

text \<open>The eviction loop of \<open>insert\<close>: drop 1\% of the pool, lowest priority first.\<close>

fun overflow_loop ::
  "nat \<Rightarrow> nat \<Rightarrow> nat \<Rightarrow> transaction list \<Rightarrow> transaction_queue \<Rightarrow> tq_error + transaction_queue" where
  "overflow_loop now queue_size counter [] q = Inr q"
| "overflow_loop now queue_size counter (t # ts) q =
     (case tq_erase t (q\<lparr>tq_overflow_time := now\<rparr>) of
        Inl e \<Rightarrow> Inl e
      | Inr (_, q1) \<Rightarrow>
          let q2 = q1\<lparr>tq_known := ec_erase (trx_hash t) (tq_known q1)\<rparr> in
          if queue_size div 100 \<le> Suc counter then Inr q2
          else overflow_loop now queue_size (Suc counter) ts q2)"

definition known_insert :: "h256 \<Rightarrow> transaction_queue \<Rightarrow> tq_error + transaction_queue" where
  "known_insert h q =
     (case ec_insert h (tq_known q) of
        None \<Rightarrow> Inl DequeUnderflow
      | Some (_, known) \<Rightarrow> Inr (q\<lparr>tq_known := known\<rparr>))"

text \<open>The proposable branch up to the size check: \<open>Inr None\<close> where it returns \<open>Overflow\<close>.\<close>

definition insert_proposable ::
  "transaction \<Rightarrow> u64 \<Rightarrow> transaction_queue \<Rightarrow> tq_error + transaction_queue option" where
  "insert_proposable t last_block_number q =
     (case um_find (tq_account_nonce q) (trx_sender t) of
        None \<Rightarrow> Inr (Some (addTransaction t True 0 (account_put t q)))
      | Some m \<Rightarrow>
          if length m = kMaxSingleAccountTransactionsSize q then Inr None
          else
            (case um_find m (trx_nonce t) of
               None \<Rightarrow> Inr (Some (addTransaction t True 0 (account_put t q)))
             | Some old \<Rightarrow>
                 if trx_hash old = trx_hash t then Inl AssertFailed
                 else if trx_gas_price old < trx_gas_price t then
                   let q1 = snd (removeTransaction old True q);
                       q2 = addTransaction old False last_block_number q1
                   in Inr (Some (addTransaction t True 0 (account_put t q2)))
                 else Inr (Some (addTransaction t False last_block_number q))))"

definition trim_overflow :: "nat \<Rightarrow> transaction_queue \<Rightarrow> tq_error + transaction_queue" where
  "trim_overflow now q =
     (if tq_max_size q < tq_size q then
        (case getOrderedTransactions (tq_size q) q of
           None \<Rightarrow> Inl EndIterator
         | Some ordered \<Rightarrow> overflow_loop now (tq_size q) 0 (rev ordered) q)
      else Inr q)"

definition tq_insert ::
  "nat \<Rightarrow> transaction \<Rightarrow> bool \<Rightarrow> u64 \<Rightarrow> transaction_queue
     \<Rightarrow> tq_error + trx_status \<times> transaction_queue" where
  "tq_insert now t proposable last_block_number q =
     (if tq_contains (trx_hash t) q then Inr (Known, q)
      else if kMaxDataSize q < unat (tq_data_size q) then
        Inr (Overflow, q\<lparr>tq_overflow_time := now\<rparr>)
      else if proposable then
        (if \<not> trx_sender_valid t then Inl InvalidSignature
         else
           (case insert_proposable t last_block_number q of
              Inl e \<Rightarrow> Inl e
            | Inr None \<Rightarrow> Inr (Overflow, q\<lparr>tq_overflow_time := now\<rparr>)
            | Inr (Some q1) \<Rightarrow>
                (case trim_overflow now q1 of
                   Inl e \<Rightarrow> Inl e
                 | Inr q2 \<Rightarrow>
                     if tq_max_size q1 < tq_size q1 \<and> um_find (tq_queue q2) (trx_hash t) = None
                     then Inr (Overflow, q2)
                     else
                       (case known_insert (trx_hash t) q2 of
                          Inl e \<Rightarrow> Inl e
                        | Inr q3 \<Rightarrow> Inr (Inserted, q3)))))
      else if length (tq_non_proposable q) \<le> kNonProposableTransactionsMaxSize q then
        (case known_insert (trx_hash t) (addTransaction t False last_block_number q) of
           Inl e \<Rightarrow> Inl e
         | Inr q1 \<Rightarrow> Inr (InsertedNonProposable, q1))
      else Inr (Overflow, q\<lparr>tq_overflow_time := now\<rparr>))"

subsection \<open>Expiry and queries\<close>

text \<open>\<open>blockFinalized\<close>: one pass over the non-proposable map in iteration order.\<close>

definition np_expired :: "u64 \<Rightarrow> u64 \<times> transaction \<Rightarrow> bool" where
  "np_expired block_number e \<longleftrightarrow> fst e + kNonProposableTransactionsPeriodExpiryLimit < block_number"

fun expire_loop ::
  "u64 \<Rightarrow> (h256, u64 \<times> transaction) umap \<Rightarrow> transaction_queue \<Rightarrow> transaction_queue" where
  "expire_loop block_number [] q = q"
| "expire_loop block_number ((h, e) # es) q =
     expire_loop block_number es
       (if np_expired block_number e then
          q\<lparr>tq_known := ec_erase h (tq_known q),
            tq_data_size := tq_data_size q - data_len (snd e),
            tq_non_proposable := um_erase h (tq_non_proposable q)\<rparr>
        else q)"

definition tq_blockFinalized :: "u64 \<Rightarrow> transaction_queue \<Rightarrow> transaction_queue" where
  "tq_blockFinalized block_number q = expire_loop block_number (tq_non_proposable q) q"

text \<open>\<open>purge\<close>: \<open>account_nonce\<close> stands for \<open>final_chain_->getAccount(addr)->nonce\<close>.\<close>

fun purge_nonces ::
  "u256 \<Rightarrow> (u256, transaction) omap \<Rightarrow> transaction_queue \<Rightarrow> (u256, transaction) omap \<times> transaction_queue" where
  "purge_nonces nonce [] q = ([], q)"
| "purge_nonces nonce ((n, t) # m) q =
     (if n < nonce then purge_nonces nonce m (snd (removeTransaction t True q)) else ((n, t) # m, q))"

fun purge_accounts ::
  "(addr_t \<Rightarrow> u256 option) \<Rightarrow> (addr_t, (u256, transaction) omap) umap \<Rightarrow> transaction_queue
     \<Rightarrow> transaction_queue" where
  "purge_accounts account_nonce [] q = q"
| "purge_accounts account_nonce ((a, m) # accounts) q =
     (case account_nonce a of
        None \<Rightarrow> purge_accounts account_nonce accounts q
      | Some nonce \<Rightarrow>
          let (m', q1) = purge_nonces nonce m q in
          purge_accounts account_nonce accounts
            (q1\<lparr>tq_account_nonce := (if m' = [] then um_erase a (tq_account_nonce q1)
                                     else um_put a m' (tq_account_nonce q1))\<rparr>))"

definition tq_purge :: "(addr_t \<Rightarrow> u256 option) \<Rightarrow> transaction_queue \<Rightarrow> transaction_queue" where
  "tq_purge account_nonce q = purge_accounts account_nonce (tq_account_nonce q) q"

definition tq_transactionsDropped :: "nat \<Rightarrow> transaction_queue \<Rightarrow> bool" where
  "tq_transactionsDropped now q \<longleftrightarrow> int now - int (tq_overflow_time q) < 600"

definition tq_nonProposableOverTheLimit :: "transaction_queue \<Rightarrow> bool" where
  "tq_nonProposableOverTheLimit q \<longleftrightarrow>
     kNonProposableTransactionsMaxSize q \<le> length (tq_non_proposable q)"

definition tq_markTransactionKnown :: "h256 \<Rightarrow> transaction_queue \<Rightarrow> tq_error + transaction_queue" where
  "tq_markTransactionKnown h q = known_insert h q"

definition tq_isTransactionKnown :: "h256 \<Rightarrow> transaction_queue \<Rightarrow> bool" where
  "tq_isTransactionKnown h q \<longleftrightarrow> ec_contains h (tq_known q)"

fun min_price_loop :: "u64 \<Rightarrow> u64 \<Rightarrow> (u256, u64) omap \<Rightarrow> u256" where
  "min_price_loop limit total_gas [] = 1"
| "min_price_loop limit total_gas ((price, gas) # es) =
     (if limit \<le> total_gas + gas then price + 1 else min_price_loop limit (total_gas + gas) es)"

text \<open>The map is ordered by \<open>std::greater\<close>: iterate from the highest price down.\<close>

definition tq_getMinGasPriceForBlockInclusion :: "u64 \<Rightarrow> transaction_queue \<Rightarrow> u256" where
  "tq_getMinGasPriceForBlockInclusion limit q = min_price_loop limit 0 (rev (tq_gas_prices q))"

section \<open>The pool invariant\<close>

text \<open>What the two indexes say, as functions.\<close>

definition acc_find :: "transaction_queue \<Rightarrow> addr_t \<Rightarrow> u256 \<Rightarrow> transaction option" where
  "acc_find q a n = (case um_find (tq_account_nonce q) a of None \<Rightarrow> None | Some m \<Rightarrow> um_find m n)"

definition index_ok :: "(addr_t \<Rightarrow> u256 \<Rightarrow> transaction option) \<Rightarrow> (h256 \<Rightarrow> transaction option) \<Rightarrow> bool" where
  "index_ok A Q \<longleftrightarrow>
     (\<forall>a n t. A a n = Some t \<longleftrightarrow> Q (trx_hash t) = Some t \<and> trx_sender t = a \<and> trx_nonce t = n)
     \<and> (\<forall>h t. Q h = Some t \<longrightarrow> trx_hash t = h)"

definition gas_at :: "u256 \<Rightarrow> (h256, transaction) umap \<Rightarrow> u64" where
  "gas_at p m = sum_list (map (\<lambda>e. if trx_gas_price (snd e) = p then trx_gas (snd e) else 0) m)"

definition data_sum :: "transaction_queue \<Rightarrow> u64" where
  "data_sum q = sum_list (map (\<lambda>e. data_len (snd e)) (tq_queue q))
              + sum_list (map (\<lambda>e. data_len (snd (snd e))) (tq_non_proposable q))"

definition tq_sums :: "transaction_queue \<Rightarrow> bool" where
  "tq_sums q \<longleftrightarrow> um_inv (tq_queue q) \<and> um_inv (tq_non_proposable q) \<and> om_inv (tq_gas_prices q)
     \<and> tq_data_size q = data_sum q
     \<and> (\<forall>p. um_get_or 0 (tq_gas_prices q) p = gas_at p (tq_queue q))"

definition tq_accounts :: "transaction_queue \<Rightarrow> bool" where
  "tq_accounts q \<longleftrightarrow> um_inv (tq_account_nonce q)
     \<and> (\<forall>a m. um_find (tq_account_nonce q) a = Some m \<longrightarrow> m \<noteq> [] \<and> om_inv m)"

definition tq_pool :: "transaction_queue \<Rightarrow> bool" where
  "tq_pool q \<longleftrightarrow>
     (\<forall>h e. um_find (tq_non_proposable q) h = Some e \<longrightarrow>
        trx_hash (snd e) = h \<and> um_find (tq_queue q) h = None)"

definition known_ok :: "transaction_queue \<Rightarrow> bool" where
  "known_ok q \<longleftrightarrow> ec_inv (tq_known q) \<and> ec_delete_step (tq_known q) \<le> Suc (ec_max_size (tq_known q))"

definition tq_inv :: "transaction_queue \<Rightarrow> bool" where
  "tq_inv q \<longleftrightarrow> tq_sums q \<and> tq_accounts q \<and> tq_pool q \<and> known_ok q
     \<and> index_ok (acc_find q) (um_find (tq_queue q))"

lemma tq_inv_new: "tq_inv (tq_new n)"
  by (simp add: tq_inv_def tq_new_def tq_sums_def tq_accounts_def tq_pool_def known_ok_def
      index_ok_def acc_find_def gas_at_def data_sum_def um_get_or_def ec_empty_def ec_inv_def)

subsection \<open>Updates of the two indexes\<close>

lemma index_ok_iff:
  "index_ok A Q \<Longrightarrow> A a n = Some t \<longleftrightarrow> Q (trx_hash t) = Some t \<and> trx_sender t = a \<and> trx_nonce t = n"
  unfolding index_ok_def by blast

lemma index_ok_hash: "index_ok A Q \<Longrightarrow> Q h = Some t \<Longrightarrow> trx_hash t = h"
  unfolding index_ok_def by blast

lemma index_okI:
  assumes "\<And>a n t. A a n = Some t \<longleftrightarrow> Q (trx_hash t) = Some t \<and> trx_sender t = a \<and> trx_nonce t = n"
    and "\<And>h t. Q h = Some t \<Longrightarrow> trx_hash t = h"
  shows "index_ok A Q"
  unfolding index_ok_def using assms by blast

lemma index_ok_add:
  assumes ok: "index_ok A Q" and "Q (trx_hash t) = None" and "A (trx_sender t) (trx_nonce t) = None"
  shows "index_ok (A(trx_sender t := (A (trx_sender t))(trx_nonce t \<mapsto> t))) (Q(trx_hash t \<mapsto> t))"
proof (rule index_okI)
  fix a n x
  show "(A(trx_sender t := (A (trx_sender t))(trx_nonce t \<mapsto> t))) a n = Some x
     \<longleftrightarrow> (Q(trx_hash t \<mapsto> t)) (trx_hash x) = Some x \<and> trx_sender x = a \<and> trx_nonce x = n"
    using index_ok_iff[OF ok, of a n x] assms(2,3) by (auto split: if_splits)
qed (use index_ok_hash[OF ok] in \<open>auto split: if_splits\<close>)

lemma index_ok_del:
  assumes ok: "index_ok A Q" and "Q (trx_hash t) = Some t"
  shows "index_ok (A(trx_sender t := (A (trx_sender t))(trx_nonce t := None))) (Q(trx_hash t := None))"
proof (rule index_okI)
  fix a n x
  let ?A = "A(trx_sender t := (A (trx_sender t))(trx_nonce t := None))"
  note x = index_ok_iff[OF ok, of a n x]
  have q: "(Q(trx_hash t := None)) (trx_hash x) = Some x
      \<longleftrightarrow> trx_hash x \<noteq> trx_hash t \<and> Q (trx_hash x) = Some x"
    by simp
  show "?A a n = Some x
     \<longleftrightarrow> (Q(trx_hash t := None)) (trx_hash x) = Some x \<and> trx_sender x = a \<and> trx_nonce x = n"
  proof (cases "a = trx_sender t \<and> n = trx_nonce t")
    case True
    then have "A a n = Some t" using index_ok_iff[OF ok, of a n t] assms(2) by simp
    with x have "\<not> (trx_hash x \<noteq> trx_hash t \<and> Q (trx_hash x) = Some x \<and> trx_sender x = a \<and> trx_nonce x = n)"
      by (metis option.inject)
    moreover have "?A a n = None" using True by simp
    ultimately show ?thesis unfolding q by simp
  next
    case False
    then have "A a n = Some x \<longleftrightarrow> trx_hash x \<noteq> trx_hash t \<and> Q (trx_hash x) = Some x
        \<and> trx_sender x = a \<and> trx_nonce x = n"
      using x assms(2) by (metis option.inject)
    moreover have "?A a n = A a n" using False by auto
    ultimately show ?thesis unfolding q by simp
  qed
qed (use index_ok_hash[OF ok] in \<open>auto split: if_splits\<close>)

lemma acc_find_account_put:
  assumes "tq_accounts q"
  shows "acc_find (account_put t q) =
           (acc_find q)(trx_sender t := (acc_find q (trx_sender t))(trx_nonce t \<mapsto> t))"
proof -
  have "om_inv (um_get_or [] (tq_account_nonce q) (trx_sender t))"
    using assms by (auto simp: um_get_or_def tq_accounts_def split: option.splits)
  then show ?thesis
    by (auto simp: fun_eq_iff acc_find_def account_put_def um_get_or_def split: option.splits)
qed

lemma tq_accounts_account_put: "tq_accounts q \<Longrightarrow> tq_accounts (account_put t q)"
proof -
  assume a: "tq_accounts q"
  have "om_put n v m \<noteq> []" for n v and m :: "(u256, transaction) omap"
    by (cases m) auto
  then show ?thesis
    using a by (auto simp: tq_accounts_def account_put_def um_get_or_def split: option.splits if_splits)
qed

lemma acc_find_account_erase:
  assumes "tq_accounts q" and "um_find (tq_account_nonce q) a = Some m"
  shows "acc_find (account_erase a n m q) = (acc_find q)(a := (acc_find q a)(n := None))"
proof -
  have "um_erase n m = [] \<Longrightarrow> k \<noteq> n \<Longrightarrow> um_find m k = None" for k
    by (metis delete_conv' fun_upd_apply map_of.simps(1))
  then show ?thesis
    using assms by (auto simp: fun_eq_iff acc_find_def account_erase_def Let_def)
qed

lemma tq_accounts_account_erase:
  assumes "tq_accounts q" and "um_find (tq_account_nonce q) a = Some m"
  shows "tq_accounts (account_erase a n m q)"
  using assms by (auto simp: tq_accounts_def account_erase_def Let_def split: if_splits)

subsection \<open>Updates of the totals\<close>

lemma get_or_put: "om_inv m \<Longrightarrow> um_get_or d (om_put k v m) p = (if p = k then v else um_get_or d m p)"
  by (simp add: um_get_or_def)

lemma get_or_erase: "um_get_or d (um_erase k m) p = (if p = k then d else um_get_or d m p)"
  by (simp add: um_get_or_def)

lemma gas_at_put:
  "um_inv m \<Longrightarrow> um_find m h = None \<Longrightarrow>
     gas_at p (um_put h t m) = (if trx_gas_price t = p then trx_gas t else 0) + gas_at p m"
  unfolding gas_at_def by (subst um.sum_entries_put_new) auto

lemma gas_at_erase:
  "um_inv m \<Longrightarrow> um_find m h = Some t \<Longrightarrow>
     gas_at p (um_erase h m) = gas_at p m - (if trx_gas_price t = p then trx_gas t else 0)"
  unfolding gas_at_def by (subst um.sum_entries_erase) auto

lemma tq_sums_add: "tq_sums q \<Longrightarrow> tq_sums (addTransaction t pr n q)"
  by (auto simp: tq_sums_def addTransaction_def data_sum_def um.sum_entries_put_new gas_at_put
      get_or_put algebra_simps)

lemma tq_sums_remove:
  assumes "tq_sums q"
    and "pr \<Longrightarrow> um_find (tq_queue q) (trx_hash t) = Some t"
    and "\<not> pr \<Longrightarrow> (\<And>e. um_find (tq_non_proposable q) (trx_hash t) = Some e \<Longrightarrow> snd e = t)"
  shows "tq_sums (snd (removeTransaction t pr q))"
proof (cases pr)
  case True
  with assms show ?thesis
    by (auto simp: tq_sums_def removeTransaction_def data_sum_def um.sum_entries_erase gas_at_erase
        get_or_put get_or_erase Let_def)
next
  case False
  with assms show ?thesis
    by (auto simp: tq_sums_def removeTransaction_def data_sum_def um.sum_entries_erase)
qed

lemma queue_frames [simp]:
  "tq_account_nonce (addTransaction t pr n q) = tq_account_nonce q"
  "tq_account_nonce (snd (removeTransaction t pr q)) = tq_account_nonce q"
  "tq_known (addTransaction t pr n q) = tq_known q"
  "tq_known (snd (removeTransaction t pr q)) = tq_known q"
  "tq_max_size (addTransaction t pr n q) = tq_max_size q"
  "tq_max_size (snd (removeTransaction t pr q)) = tq_max_size q"
  "tq_queue (account_put t q) = tq_queue q"
  "tq_non_proposable (account_put t q) = tq_non_proposable q"
  "tq_known (account_put t q) = tq_known q"
  "tq_max_size (account_put t q) = tq_max_size q"
  "tq_queue (account_erase a k m q) = tq_queue q"
  "tq_non_proposable (account_erase a k m q) = tq_non_proposable q"
  "tq_known (account_erase a k m q) = tq_known q"
  "tq_max_size (account_erase a k m q) = tq_max_size q"
  by (auto simp: addTransaction_def removeTransaction_def account_put_def account_erase_def Let_def)

lemma tq_sums_frames [simp]:
  "tq_sums (account_put t q) = tq_sums q"
  "tq_sums (account_erase a k m q) = tq_sums q"
  "tq_sums (q\<lparr>tq_overflow_time := x\<rparr>) = tq_sums q"
  "tq_sums (q\<lparr>tq_known := kn\<rparr>) = tq_sums q"
  by (simp_all add: tq_sums_def data_sum_def account_put_def account_erase_def Let_def)

lemma acc_find_frames [simp]:
  "acc_find (addTransaction t pr n q) = acc_find q"
  "acc_find (snd (removeTransaction t pr q)) = acc_find q"
  "acc_find (q\<lparr>tq_overflow_time := x\<rparr>) = acc_find q"
  "acc_find (q\<lparr>tq_known := kn\<rparr>) = acc_find q"
  by (simp_all add: acc_find_def fun_eq_iff)

lemma tq_accounts_frames [simp]:
  "tq_accounts (addTransaction t pr n q) = tq_accounts q"
  "tq_accounts (snd (removeTransaction t pr q)) = tq_accounts q"
  by (simp_all add: tq_accounts_def)

lemma queue_after_add:
  "um_find (tq_queue q) (trx_hash t) = None \<Longrightarrow>
     um_find (tq_queue (addTransaction t True n q)) = (um_find (tq_queue q))(trx_hash t \<mapsto> t)"
  "tq_queue (addTransaction t False n q) = tq_queue q"
  "um_find (tq_non_proposable q) (trx_hash t) = None \<Longrightarrow>
     um_find (tq_non_proposable (addTransaction t False n q)) = (um_find (tq_non_proposable q))(trx_hash t \<mapsto> (n, t))"
  "tq_non_proposable (addTransaction t True n q) = tq_non_proposable q"
  by (auto simp: addTransaction_def)

lemma queue_after_remove:
  "um_find (tq_queue (snd (removeTransaction t True q))) = (um_find (tq_queue q))(trx_hash t := None)"
  "tq_queue (snd (removeTransaction t False q)) = tq_queue q"
  "um_find (tq_non_proposable (snd (removeTransaction t False q))) =
     (um_find (tq_non_proposable q))(trx_hash t := None)"
  "tq_non_proposable (snd (removeTransaction t True q)) = tq_non_proposable q"
  "fst (removeTransaction t True q) \<longleftrightarrow> um_find (tq_queue q) (trx_hash t) \<noteq> None"
  "fst (removeTransaction t False q) \<longleftrightarrow> um_find (tq_non_proposable q) (trx_hash t) \<noteq> None"
  by (auto simp: removeTransaction_def Let_def fun_eq_iff) (metis not_None_eq surj_pair)+

lemma known_ok_frames [simp]:
  "known_ok (addTransaction t pr n q) = known_ok q"
  "known_ok (snd (removeTransaction t pr q)) = known_ok q"
  "known_ok (account_put t q) = known_ok q"
  "known_ok (account_erase a k m q) = known_ok q"
  "known_ok (q\<lparr>tq_overflow_time := x\<rparr>) = known_ok q"
  by (simp_all add: known_ok_def)

lemma known_ok_erase: "known_ok q \<Longrightarrow> known_ok (q\<lparr>tq_known := ec_erase h (tq_known q)\<rparr>)"
  by (auto simp: known_ok_def ec_inv_def ec_erase_def)

lemma tq_inv_frames [simp]:
  "tq_inv (q\<lparr>tq_overflow_time := x\<rparr>) = tq_inv q"
  by (simp add: tq_inv_def tq_accounts_def tq_pool_def)

lemma tq_inv_known_erase: "tq_inv q \<Longrightarrow> tq_inv (q\<lparr>tq_known := ec_erase h (tq_known q)\<rparr>)"
  by (simp add: tq_inv_def tq_accounts_def tq_pool_def known_ok_erase)

subsection \<open>Erasing\<close>

text \<open>
  The caller's transaction is the stored one whenever the hashes agree: what collision freedom
  of the transaction hash gives.
\<close>

definition same_trx :: "transaction \<Rightarrow> transaction_queue \<Rightarrow> bool" where
  "same_trx t q \<longleftrightarrow> (\<forall>x. tq_get (trx_hash t) q = Some x \<longrightarrow> x = t)"

lemma tq_erase_inv:
  assumes inv: "tq_inv q" and same: "same_trx t q"
  obtains b q' where "tq_erase t q = Inr (b, q')" and "tq_inv q'"
    and "b \<longleftrightarrow> tq_contains (trx_hash t) q"
    and "um_find (tq_queue q') = (um_find (tq_queue q))(trx_hash t := None)"
    and "um_find (tq_non_proposable q') = (um_find (tq_non_proposable q))(trx_hash t := None)"
    and "tq_max_size q' = tq_max_size q"
proof (cases "um_find (tq_queue q) (trx_hash t)")
  case None
  define q' where "q' = snd (removeTransaction t False q)"
  have np: "um_find (tq_non_proposable q) (trx_hash t) = Some e \<Longrightarrow> snd e = t" for e
    using same None by (auto simp: same_trx_def tq_get_def)
  have "tq_sums q'"
    unfolding q'_def using inv np by (intro tq_sums_remove) (auto simp: tq_inv_def)
  then have "tq_inv q'"
    using inv by (auto simp: q'_def tq_inv_def tq_pool_def queue_after_remove split: if_splits)
  moreover have "tq_erase t q = Inr (fst (removeTransaction t False q), q')"
    using None by (simp add: tq_erase_def q'_def)
  ultimately show thesis
    using None that by (simp add: q'_def queue_after_remove tq_contains_def fun_upd_idem)
next
  case (Some t')
  then have [simp]: "t' = t" using same by (simp add: same_trx_def tq_get_def)
  note idx = inv[unfolded tq_inv_def]
  have "acc_find q (trx_sender t) (trx_nonce t) = Some t"
    using index_ok_iff[of "acc_find q" "um_find (tq_queue q)" "trx_sender t" "trx_nonce t" t] idx Some
    by simp
  then obtain m where m: "um_find (tq_account_nonce q) (trx_sender t) = Some m"
      "um_find m (trx_nonce t) = Some t"
    by (auto simp: acc_find_def split: option.splits)
  define q1 where "q1 = account_erase (trx_sender t) (trx_nonce t) m q"
  define q' where "q' = snd (removeTransaction t True q1)"
  have "tq_sums q'"
    unfolding q'_def using idx Some by (intro tq_sums_remove) (auto simp: q1_def)
  moreover have "tq_accounts q'"
    using idx m(1) by (simp add: q'_def q1_def tq_accounts_account_erase)
  moreover have "tq_pool q'"
    using idx by (auto simp: q'_def q1_def tq_pool_def queue_after_remove)
  moreover have "index_ok (acc_find q') (um_find (tq_queue q'))"
    using index_ok_del[of "acc_find q" "um_find (tq_queue q)" t] idx Some m
    by (simp add: q'_def q1_def queue_after_remove acc_find_account_erase)
  ultimately have "tq_inv q'"
    using idx by (simp add: tq_inv_def q'_def q1_def)
  moreover have "tq_erase t q = Inr (fst (removeTransaction t True q1), q')"
    using Some m by (simp add: tq_erase_def q'_def q1_def)
  moreover have "um_find (tq_non_proposable q) (trx_hash t) = None"
    using idx Some by (metis not_Some_eq option.distinct(1) tq_pool_def)
  ultimately show thesis
    using Some that by (simp add: q'_def q1_def queue_after_remove tq_contains_def fun_upd_idem)
qed

subsection \<open>Inserting\<close>

lemma not_containsD:
  assumes "\<not> tq_contains h q"
  shows "um_find (tq_queue q) h = None" and "um_find (tq_non_proposable q) h = None"
  using assms unfolding tq_contains_def by blast+

lemma insert_new_inv:
  assumes inv: "tq_inv q" and new: "\<not> tq_contains (trx_hash t) q"
    and free: "acc_find q (trx_sender t) (trx_nonce t) = None"
  shows "tq_inv (addTransaction t True n (account_put t q))"
proof -
  have "index_ok (acc_find (addTransaction t True n (account_put t q)))
          (um_find (tq_queue (addTransaction t True n (account_put t q))))"
    using inv not_containsD[OF new] free index_ok_add
    by (simp add: tq_inv_def queue_after_add acc_find_account_put)
  then show ?thesis
    using inv not_containsD[OF new]
    by (auto simp: tq_inv_def tq_sums_add tq_accounts_account_put tq_pool_def queue_after_add)
qed

lemma insert_np_inv:
  assumes inv: "tq_inv q" and new: "\<not> tq_contains (trx_hash t) q"
  shows "tq_inv (addTransaction t False n q)"
  using inv not_containsD[OF new]
  by (auto simp: tq_inv_def tq_sums_add tq_pool_def queue_after_add split: if_splits)

lemma insert_replace_inv:
  assumes inv: "tq_inv q" and new: "\<not> tq_contains (trx_hash t) q"
    and old: "acc_find q (trx_sender t) (trx_nonce t) = Some old"
    and q2_def: "q2 = addTransaction old False n (snd (removeTransaction old True q))"
  shows "tq_inv (addTransaction t True k (account_put t q2))"
proof -
  note idx = inv[unfolded tq_inv_def]
  have stored: "um_find (tq_queue q) (trx_hash old) = Some old"
    and key: "trx_sender old = trx_sender t" "trx_nonce old = trx_nonce t"
    using index_ok_iff[of "acc_find q" "um_find (tq_queue q)" "trx_sender t" "trx_nonce t" old] idx old
    by simp_all
  have np: "um_find (tq_non_proposable q) (trx_hash old) = None"
    using idx stored by (metis not_Some_eq option.distinct(1) tq_pool_def)
  have ne: "trx_hash old \<noteq> trx_hash t"
    using not_containsD[OF new] stored by auto
  have qf: "um_find (tq_queue q2) = (um_find (tq_queue q))(trx_hash old := None)"
    by (simp add: q2_def queue_after_add queue_after_remove)
  have npf: "um_find (tq_non_proposable q2) = (um_find (tq_non_proposable q))(trx_hash old \<mapsto> (n, old))"
    using np by (simp add: q2_def queue_after_add queue_after_remove)
  have af: "acc_find q2 = acc_find q"
    by (simp add: q2_def)
  have sums: "tq_sums q2"
    unfolding q2_def using idx stored by (intro tq_sums_add tq_sums_remove) auto
  have acc: "tq_accounts q2" using idx by (simp add: q2_def)
  let ?q = "addTransaction t True k (account_put t q2)"
  have fresh: "um_find (tq_queue q2) (trx_hash t) = None"
    using not_containsD[OF new] by (simp add: qf)
  have "index_ok ((acc_find q)(trx_sender t := (acc_find q (trx_sender t))(trx_nonce t := None)))
      (um_find (tq_queue q2))"
    using index_ok_del[of "acc_find q" "um_find (tq_queue q)" old] idx stored by (simp add: key qf)
  from index_ok_add[OF this fresh]
  have "index_ok (acc_find ?q) (um_find (tq_queue ?q))"
    using fresh acc by (simp add: queue_after_add acc_find_account_put af)
  moreover have "tq_pool ?q"
    using idx not_containsD[OF new] ne fresh
    by (auto simp: tq_pool_def queue_after_add npf qf split: if_splits)
  ultimately show ?thesis
    using sums acc idx
    by (simp add: tq_inv_def tq_sums_add tq_accounts_account_put) (simp add: q2_def)
qed

lemma insert_proposable_inv:
  assumes inv: "tq_inv q" and new: "\<not> tq_contains (trx_hash t) q"
    and res: "insert_proposable t n q = Inr (Some q1)"
  shows "tq_inv q1"
proof (cases "acc_find q (trx_sender t) (trx_nonce t)")
  case None
  then have "q1 = addTransaction t True 0 (account_put t q)"
    using res by (auto simp: insert_proposable_def acc_find_def split: option.splits if_splits)
  then show ?thesis using insert_new_inv[OF inv new None] by simp
next
  case (Some old)
  then show ?thesis
    using res insert_replace_inv[OF inv new Some refl] insert_np_inv[OF inv new]
    by (auto simp: insert_proposable_def acc_find_def Let_def split: option.splits if_splits)
qed

end
