(* ===== verification/Transaction_Queue_Order.thy ===== *)
theory Transaction_Queue_Order
  imports Transaction_Queue
begin

text \<open>
  \<open>getOrderedTransactions\<close>: the merge of the per-account nonce sequences by gas price. The
  abstract contract is that the result is a shuffle of the accounts' sequences (every account's
  transactions in nonce order) which at every point prefers the best-priced head.
\<close>

abbreviation of_sender :: "addr_t \<Rightarrow> transaction list \<Rightarrow> transaction list" where
  "of_sender a ts \<equiv> filter (\<lambda>t. trx_sender t = a) ts"

text \<open>Each transaction pays at least as much as the next transaction of every other account.\<close>

fun price_greedy :: "transaction list \<Rightarrow> bool" where
  "price_greedy [] \<longleftrightarrow> True"
| "price_greedy (t # ts) \<longleftrightarrow> price_greedy ts \<and>
     (\<forall>a. a \<noteq> trx_sender t \<longrightarrow>
        (case of_sender a ts of [] \<Rightarrow> True | u # _ \<Rightarrow> trx_gas_price u \<le> trx_gas_price t))"

section \<open>The merge loop\<close>

definition merge_state :: "transaction list \<Rightarrow> (addr_t, transaction list) umap \<Rightarrow> bool" where
  "merge_state heads iters \<longleftrightarrow>
     distinct (map trx_sender heads)
     \<and> sorted_wrt (\<lambda>x y. trx_gas_price y \<le> trx_gas_price x) heads
     \<and> (\<forall>a ts. um_find iters a = Some ts \<longrightarrow>
          (\<forall>t \<in> set ts. trx_sender t = a) \<and> (ts \<noteq> [] \<longrightarrow> a \<in> trx_sender ` set heads))"

lemma set_mm_insert [simp]: "set (mm_insert t xs) = insert t (set xs)"
  by (induction xs) auto

lemma sorted_mm_insert:
  "sorted_wrt (\<lambda>x y. trx_gas_price y \<le> trx_gas_price x) xs \<Longrightarrow>
   sorted_wrt (\<lambda>x y. trx_gas_price y \<le> trx_gas_price x) (mm_insert t xs)"
  by (induction xs) fastforce+

lemma distinct_mm_insert:
  "trx_sender t \<notin> trx_sender ` set xs \<Longrightarrow> distinct (map trx_sender xs) \<Longrightarrow>
   distinct (map trx_sender (mm_insert t xs))"
  by (induction xs) auto

lemma of_sender_mm_insert_other:
  "trx_sender t \<noteq> a \<Longrightarrow> of_sender a (mm_insert t xs) = of_sender a xs"
  by (induction xs) auto

lemma of_sender_mm_insert_new:
  "trx_sender t \<notin> trx_sender ` set xs \<Longrightarrow> of_sender (trx_sender t) (mm_insert t xs) = [t]"
  by (induction xs) (auto simp: filter_empty_conv image_iff)

lemma merge_induct [case_names Nil Stop Next]:
  assumes "\<And>iters. P [] iters"
    and "\<And>t heads iters. um_find iters (trx_sender t) = None \<or> um_find iters (trx_sender t) = Some [] \<Longrightarrow>
           P heads iters \<Longrightarrow> P (t # heads) iters"
    and "\<And>t heads iters y ys. um_find iters (trx_sender t) = Some (y # ys) \<Longrightarrow>
           P (mm_insert y heads) (um_put (trx_sender t) ys iters) \<Longrightarrow> P (t # heads) iters"
  shows "P heads iters"
proof -
  have "cnt = 0 \<longrightarrow> P heads iters" for cnt :: nat and ret :: "transaction list"
  proof (induction cnt ret heads iters rule: ordered_loop.induct)
    case (2 cnt ret t heads iters)
    show ?case
    proof (cases "um_find iters (trx_sender t)")
      case None
      then show ?thesis using 2 assms(2) by simp
    next
      case (Some ts)
      then show ?thesis using 2 assms(2,3) by (cases ts) auto
    qed
  qed (simp add: assms(1))
  then show ?thesis by blast
qed

lemma loop_stop:
  "um_find iters (trx_sender t) = None \<or> um_find iters (trx_sender t) = Some [] \<Longrightarrow>
   ordered_loop cnt ret (t # heads) iters =
     (if Suc (length ret) = cnt then ret @ [t] else ordered_loop cnt (ret @ [t]) heads iters)"
  by auto

lemma loop_next:
  "um_find iters (trx_sender t) = Some (y # ys) \<Longrightarrow>
   ordered_loop cnt ret (t # heads) iters =
     (if Suc (length ret) = cnt then ret @ [t]
      else ordered_loop cnt (ret @ [t]) (mm_insert y heads) (um_put (trx_sender t) ys iters))"
  by simp

declare ordered_loop.simps(2) [simp del]

definition merged :: "transaction list \<Rightarrow> (addr_t, transaction list) umap \<Rightarrow> transaction list" where
  "merged heads iters = ordered_loop 0 [] heads iters"

lemma ordered_loop_append: "ordered_loop 0 ret heads iters = ret @ merged heads iters"
proof (induction heads iters arbitrary: ret rule: merge_induct)
  case (Stop t heads iters)
  then show ?case by (simp add: merged_def[of "t # heads"] loop_stop)
next
  case (Next t heads iters y ys)
  then show ?case by (simp add: merged_def[of "t # heads"] loop_next)
qed (simp add: merged_def)

lemma merged_Nil [simp]: "merged [] iters = []"
  by (simp add: merged_def)

lemma merged_stop:
  "um_find iters (trx_sender t) = None \<or> um_find iters (trx_sender t) = Some [] \<Longrightarrow>
   merged (t # heads) iters = t # merged heads iters"
  unfolding merged_def[of "t # heads"] by (subst loop_stop) (auto simp: ordered_loop_append)

lemma merged_next:
  "um_find iters (trx_sender t) = Some (y # ys) \<Longrightarrow>
   merged (t # heads) iters = t # merged (mm_insert y heads) (um_put (trx_sender t) ys iters)"
  unfolding merged_def[of "t # heads"] by (subst loop_next) (auto simp: ordered_loop_append)

lemma ordered_loop_take:
  "length ret < cnt \<Longrightarrow> ordered_loop cnt ret heads iters = ret @ take (cnt - length ret) (merged heads iters)"
proof (induction heads iters arbitrary: ret rule: merge_induct)
  case (Stop t heads iters)
  show ?case
  proof (cases "Suc (length ret) = cnt")
    case False
    then have "cnt - length ret = Suc (cnt - Suc (length ret))" using Stop.prems by simp
    then show ?thesis using Stop False by (simp add: loop_stop merged_stop)
  qed (use Stop in \<open>auto simp: loop_stop merged_stop\<close>)
next
  case (Next t heads iters y ys)
  show ?case
  proof (cases "Suc (length ret) = cnt")
    case False
    then have "cnt - length ret = Suc (cnt - Suc (length ret))" using Next.prems by simp
    then show ?thesis using Next False by (simp add: loop_next merged_next)
  qed (use Next in \<open>auto simp: loop_next merged_next\<close>)
qed simp

subsection \<open>What the merge keeps\<close>

lemma merge_state_stop:
  assumes "merge_state (t # heads) iters"
    and "um_find iters (trx_sender t) = None \<or> um_find iters (trx_sender t) = Some []"
  shows "merge_state heads iters"
  using assms unfolding merge_state_def by fastforce

lemma merge_state_next:
  assumes st: "merge_state (t # heads) iters" and f: "um_find iters (trx_sender t) = Some (y # ys)"
  shows "merge_state (mm_insert y heads) (um_put (trx_sender t) ys iters)"
proof -
  have y: "trx_sender y = trx_sender t" and ys: "\<forall>x \<in> set ys. trx_sender x = trx_sender t"
    using st f unfolding merge_state_def by force+
  have new: "trx_sender y \<notin> trx_sender ` set heads"
    using st y by (simp add: merge_state_def)
  show ?thesis
    unfolding merge_state_def
  proof (intro conjI allI impI)
    show "distinct (map trx_sender (mm_insert y heads))"
      using st new by (intro distinct_mm_insert) (simp_all add: merge_state_def)
    show "sorted_wrt (\<lambda>x y. trx_gas_price y \<le> trx_gas_price x) (mm_insert y heads)"
      using st by (intro sorted_mm_insert) (simp add: merge_state_def)
  next
    fix a ts assume a: "um_find (um_put (trx_sender t) ys iters) a = Some ts"
    show "\<forall>x \<in> set ts. trx_sender x = a"
      using a ys st by (auto simp: merge_state_def split: if_splits)
    assume "ts \<noteq> []"
    then show "a \<in> trx_sender ` set (mm_insert y heads)"
      using a y st by (auto simp: merge_state_def split: if_splits)
  qed
qed

lemma of_sender_merged:
  "merge_state heads iters \<Longrightarrow>
   of_sender a (merged heads iters) = of_sender a heads @ um_get_or [] iters a"
proof (induction heads iters rule: merge_induct)
  case (Nil iters)
  then show ?case
    by (auto simp: merge_state_def um_get_or_def split: option.splits)
next
  case (Stop t heads iters)
  then show ?case
    using merge_state_stop[OF Stop.prems Stop.hyps] by (simp add: merged_stop)
next
  case (Next t heads iters y ys)
  note st = merge_state_next[OF Next.prems Next.hyps]
  have y: "trx_sender y = trx_sender t" and new: "trx_sender t \<notin> trx_sender ` set heads"
    using Next.prems Next.hyps unfolding merge_state_def by force+
  then have none: "of_sender (trx_sender t) heads = []"
    by (auto simp: filter_empty_conv image_iff)
  show ?case
  proof (cases "a = trx_sender t")
    case True
    then show ?thesis
      using Next.IH[OF st] Next.hyps y new none of_sender_mm_insert_new[of y heads]
      by (simp add: merged_next um_get_or_def)
  next
    case False
    then show ?thesis
      using Next.IH[OF st] Next.hyps y of_sender_mm_insert_other[of y a heads]
      by (simp add: merged_next um_get_or_def)
  qed
qed

lemma best_head:
  assumes st: "merge_state (t # heads) iters" and ne: "a \<noteq> trx_sender t"
  shows "case of_sender a heads @ um_get_or [] iters a of
           [] \<Rightarrow> True | u # _ \<Rightarrow> trx_gas_price u \<le> trx_gas_price t"
proof (cases "of_sender a heads")
  case Nil
  then have "a \<notin> trx_sender ` set (t # heads)"
    using ne by (auto simp: filter_empty_conv)
  then have "um_get_or [] iters a = []"
    using st by (auto simp: merge_state_def um_get_or_def split: option.splits)
  with Nil show ?thesis by simp
next
  case (Cons u us)
  then have "u \<in> set heads"
    by (metis filter_is_subset list.set_intros(1) subsetD)
  with Cons st show ?thesis by (simp add: merge_state_def)
qed

lemma price_greedy_merged: "merge_state heads iters \<Longrightarrow> price_greedy (merged heads iters)"
proof (induction heads iters rule: merge_induct)
  case (Stop t heads iters)
  note st = merge_state_stop[OF Stop.prems Stop.hyps]
  show ?case
    using Stop.IH[OF st] best_head[OF Stop.prems]
    by (simp add: merged_stop[OF Stop.hyps] of_sender_merged[OF st])
next
  case (Next t heads iters y ys)
  note st = merge_state_next[OF Next.prems Next.hyps]
  have y: "trx_sender y = trx_sender t"
    using Next.prems Next.hyps unfolding merge_state_def by force
  show ?case
    using Next.IH[OF st] best_head[OF Next.prems]
    by (simp add: merged_next[OF Next.hyps] of_sender_merged[OF st] y of_sender_mm_insert_other um_get_or_def)
qed simp

section \<open>The first loop\<close>

definition first_heads :: "(addr_t, (u256, transaction) omap) umap \<Rightarrow> transaction list \<Rightarrow> transaction list" where
  "first_heads accounts heads = fold (\<lambda>p. mm_insert (snd (hd (snd p)))) accounts heads"

lemma ordered_init_eq:
  "\<forall>p \<in> set accounts. snd p \<noteq> [] \<Longrightarrow>
   ordered_init accounts heads iters =
     Some (first_heads accounts heads, iters @ map (\<lambda>(a, m). (a, map snd (tl m))) accounts)"
  by (induction accounts heads iters rule: ordered_init.induct)
     (auto simp: first_heads_def split: list.splits)

lemma first_heads_props:
  assumes "\<forall>p \<in> set accounts. snd p \<noteq> [] \<and> (\<forall>t \<in> snd ` set (snd p). trx_sender t = fst p)"
    and "distinct (map fst accounts)" and "trx_sender ` set heads \<inter> fst ` set accounts = {}"
    and "distinct (map trx_sender heads)"
    and "sorted_wrt (\<lambda>x y. trx_gas_price y \<le> trx_gas_price x) heads"
  shows "distinct (map trx_sender (first_heads accounts heads))
     \<and> sorted_wrt (\<lambda>x y. trx_gas_price y \<le> trx_gas_price x) (first_heads accounts heads)
     \<and> trx_sender ` set (first_heads accounts heads) = trx_sender ` set heads \<union> fst ` set accounts
     \<and> (\<forall>a. of_sender a (first_heads accounts heads) =
          (case um_find accounts a of None \<Rightarrow> of_sender a heads | Some m \<Rightarrow> [snd (hd m)]))"
  using assms
proof (induction accounts arbitrary: heads)
  case (Cons p accounts)
  let ?t = "snd (hd (snd p))"
  have t: "trx_sender ?t = fst p"
    using Cons.prems(1) by simp
  have new: "trx_sender ?t \<notin> trx_sender ` set heads"
    using Cons.prems(3) t by auto
  have rest: "fst p \<notin> fst ` set accounts"
    using Cons.prems(2) by simp
  have none: "um_find accounts (fst p) = None"
    using rest by (simp add: map_of_eq_None_iff)
  have "distinct (map trx_sender (first_heads accounts (mm_insert ?t heads)))
     \<and> sorted_wrt (\<lambda>x y. trx_gas_price y \<le> trx_gas_price x) (first_heads accounts (mm_insert ?t heads))
     \<and> trx_sender ` set (first_heads accounts (mm_insert ?t heads))
         = trx_sender ` set (mm_insert ?t heads) \<union> fst ` set accounts
     \<and> (\<forall>a. of_sender a (first_heads accounts (mm_insert ?t heads)) =
          (case um_find accounts a of None \<Rightarrow> of_sender a (mm_insert ?t heads) | Some m \<Rightarrow> [snd (hd m)]))"
    using Cons.prems t new rest
    by (intro Cons.IH distinct_mm_insert sorted_mm_insert) auto
  moreover have "first_heads (p # accounts) heads = first_heads accounts (mm_insert ?t heads)"
    by (simp add: first_heads_def)
  moreover have "of_sender (fst p) (mm_insert ?t heads) = [?t]"
    using of_sender_mm_insert_new[OF new] t by simp
  ultimately show ?case
    using t none of_sender_mm_insert_other[of ?t _ heads] by (auto split: option.splits)
qed (simp add: first_heads_def)

section \<open>The whole operation\<close>

lemma tq_accounts_entries:
  assumes inv: "tq_inv q" and p: "p \<in> set (tq_account_nonce q)"
  shows "snd p \<noteq> [] \<and> om_inv (snd p)
     \<and> (\<forall>e \<in> set (snd p). trx_sender (snd e) = fst p \<and> trx_nonce (snd e) = fst e)"
proof -
  note i = inv[unfolded tq_inv_def]
  have f: "um_find (tq_account_nonce q) (fst p) = Some (snd p)"
    using i p um.mem_entries[of "tq_account_nonce q" "fst p" "snd p"] by (simp add: tq_accounts_def)
  then have om: "snd p \<noteq> [] \<and> om_inv (snd p)"
    using i by (simp add: tq_accounts_def)
  have "trx_sender (snd e) = fst p \<and> trx_nonce (snd e) = fst e" if "e \<in> set (snd p)" for e
  proof -
    have "um_find (snd p) (fst e) = Some (snd e)"
      using om that om.mem_entries[of "snd p" "fst e" "snd e"] by simp
    then have "acc_find q (fst p) (fst e) = Some (snd e)"
      using f by (simp add: acc_find_def)
    then show ?thesis
      using index_ok_iff[of "acc_find q" "um_find (tq_queue q)" "fst p" "fst e" "snd e"] i by simp
  qed
  with om show ?thesis by blast
qed

definition full_order :: "transaction_queue \<Rightarrow> transaction list" where
  "full_order q = merged (first_heads (tq_account_nonce q) [])
                    (map (\<lambda>(a, m). (a, map snd (tl m))) (tq_account_nonce q))"

lemma getOrderedTransactions_full:
  assumes "tq_inv q"
  shows "getOrderedTransactions cnt q =
           Some (if cnt = 0 then full_order q else take cnt (full_order q))"
proof -
  have "\<forall>p \<in> set (tq_account_nonce q). snd p \<noteq> []"
    using tq_accounts_entries[OF assms] by blast
  note ordered_init_eq[OF this]
  then show ?thesis
    using ordered_loop_take[of "[]" cnt]
    by (auto simp: getOrderedTransactions_def full_order_def merged_def)
qed

lemma full_order_state:
  assumes "tq_inv q"
  shows "merge_state (first_heads (tq_account_nonce q) [])
           (map (\<lambda>(a, m). (a, map snd (tl m))) (tq_account_nonce q))"
    and "of_sender a (first_heads (tq_account_nonce q) [])
           = (case um_find (tq_account_nonce q) a of None \<Rightarrow> [] | Some m \<Rightarrow> [snd (hd m)])"
proof -
  note entries = tq_accounts_entries[OF assms]
  have d: "distinct (map fst (tq_account_nonce q))"
    using assms by (simp add: tq_inv_def tq_accounts_def)
  have "\<forall>p \<in> set (tq_account_nonce q).
      snd p \<noteq> [] \<and> (\<forall>t \<in> snd ` set (snd p). trx_sender t = fst p)"
    using entries by blast
  note fh = first_heads_props[OF this d, of "[]"]
  have fh': "distinct (map trx_sender (first_heads (tq_account_nonce q) []))
     \<and> sorted_wrt (\<lambda>x y. trx_gas_price y \<le> trx_gas_price x) (first_heads (tq_account_nonce q) [])
     \<and> trx_sender ` set (first_heads (tq_account_nonce q) []) = fst ` set (tq_account_nonce q)
     \<and> (\<forall>a. of_sender a (first_heads (tq_account_nonce q) []) =
          (case um_find (tq_account_nonce q) a of None \<Rightarrow> [] | Some m \<Rightarrow> [snd (hd m)]))"
    using fh by (simp cong: option.case_cong)
  then show "of_sender a (first_heads (tq_account_nonce q) [])
           = (case um_find (tq_account_nonce q) a of None \<Rightarrow> [] | Some m \<Rightarrow> [snd (hd m)])"
    by blast
  have "(\<forall>t \<in> set ts. trx_sender t = a) \<and> a \<in> fst ` set (tq_account_nonce q)"
    if f: "um_find (map (\<lambda>(a, m). (a, map snd (tl m))) (tq_account_nonce q)) a = Some ts" for a ts
  proof -
    from f obtain m where m: "um_find (tq_account_nonce q) a = Some m" "ts = map snd (tl m)"
      by (auto simp: map_of_map)
    then have mem: "(a, m) \<in> set (tq_account_nonce q)"
      using d by (simp add: map_of_eq_Some_iff)
    then have "a \<in> fst ` set (tq_account_nonce q)" by force
    moreover have "\<forall>t \<in> set ts. trx_sender t = a"
      using entries[OF mem] m by (cases m) auto
    ultimately show ?thesis by blast
  qed
  with fh' show "merge_state (first_heads (tq_account_nonce q) [])
           (map (\<lambda>(a, m). (a, map snd (tl m))) (tq_account_nonce q))"
    unfolding merge_state_def by metis
qed

lemma of_sender_full_order:
  assumes "tq_inv q"
  shows "of_sender a (full_order q) =
           (case um_find (tq_account_nonce q) a of None \<Rightarrow> [] | Some m \<Rightarrow> map snd m)"
proof (cases "um_find (tq_account_nonce q) a")
  case None
  then show ?thesis
    by (simp add: full_order_def of_sender_merged[OF full_order_state(1)[OF assms]]
        full_order_state(2)[OF assms] um_get_or_def map_of_map)
next
  case (Some m)
  then have "m \<noteq> []"
    using assms by (simp add: tq_inv_def tq_accounts_def)
  with Some show ?thesis
    by (simp add: full_order_def of_sender_merged[OF full_order_state(1)[OF assms]]
        full_order_state(2)[OF assms] um_get_or_def map_of_map)
       (metis list.map(2) list.collapse)
qed

lemma full_order_nonces:
  assumes "tq_inv q"
  shows "sorted_wrt (<) (map trx_nonce (of_sender a (full_order q)))"
proof (cases "um_find (tq_account_nonce q) a")
  case (Some m)
  then have "(a, m) \<in> set (tq_account_nonce q)"
    by (rule map_of_SomeD)
  from tq_accounts_entries[OF assms this]
  have "map trx_nonce (map snd m) = map fst m" and "sorted_wrt (<) (map fst m)"
    by (simp_all add: om_inv_def)
  with Some show ?thesis by (simp add: of_sender_full_order[OF assms] del: map_map)
qed (simp add: of_sender_full_order[OF assms])

lemma mem_full_order:
  assumes "tq_inv q"
  shows "t \<in> set (full_order q) \<longleftrightarrow> um_find (tq_queue q) (trx_hash t) = Some t"
proof -
  note i = assms[unfolded tq_inv_def]
  have "t \<in> set (full_order q) \<longleftrightarrow> t \<in> set (of_sender (trx_sender t) (full_order q))"
    by simp
  also have "\<dots> \<longleftrightarrow> (\<exists>n. acc_find q (trx_sender t) n = Some t)"
  proof (cases "um_find (tq_account_nonce q) (trx_sender t)")
    case (Some m)
    then have "om_inv m" using i by (simp add: tq_accounts_def)
    then have "t \<in> snd ` set m \<longleftrightarrow> (\<exists>n. um_find m n = Some t)"
      using om.mem_entries[of m _ t] by force
    with Some show ?thesis
      unfolding of_sender_full_order[OF assms] by (simp add: acc_find_def)
  next
    case None
    then show ?thesis
      unfolding of_sender_full_order[OF assms] by (simp add: acc_find_def)
  qed
  also have "\<dots> \<longleftrightarrow> um_find (tq_queue q) (trx_hash t) = Some t"
    using index_ok_iff[of "acc_find q" "um_find (tq_queue q)" "trx_sender t" _ t] i by auto
  finally show ?thesis .
qed

lemma distinct_of_senders: "(\<And>a. distinct (of_sender a ts)) \<Longrightarrow> distinct ts"
proof (induction ts)
  case (Cons t ts)
  have "distinct (of_sender a ts)" for a
    using Cons.prems[of a] by (simp split: if_splits)
  moreover have "t \<notin> set ts"
    using Cons.prems[of "trx_sender t"] by simp
  ultimately show ?case using Cons.IH by simp
qed simp

lemma distinct_full_order:
  assumes "tq_inv q"
  shows "distinct (full_order q)"
proof (rule distinct_of_senders)
  show "distinct (of_sender a (full_order q))" for a
    using full_order_nonces[OF assms, of a] by (metis distinct_map strict_sorted_iff)
qed

lemma mset_full_order:
  assumes "tq_inv q"
  shows "mset (full_order q) = mset (map snd (tq_queue q))"
proof -
  note i = assms[unfolded tq_inv_def]
  have hash: "trx_hash (snd e) = fst e" if "e \<in> set (tq_queue q)" for e
    using that i um.mem_entries[of "tq_queue q" "fst e" "snd e"]
    by (auto simp: tq_sums_def intro: index_ok_hash)
  note d1 = distinct_full_order[OF assms]
  have "map trx_hash (map snd (tq_queue q)) = map fst (tq_queue q)"
    using hash by simp
  then have d2: "distinct (map snd (tq_queue q))"
    using i by (metis distinct_map tq_sums_def)
  have "t \<in> snd ` set (tq_queue q) \<longleftrightarrow> um_find (tq_queue q) (trx_hash t) = Some t" for t
  proof
    assume "t \<in> snd ` set (tq_queue q)"
    then obtain e where "e \<in> set (tq_queue q)" "t = snd e" by blast
    then have "(trx_hash t, t) \<in> set (tq_queue q)"
      using hash[of e] by simp
    then show "um_find (tq_queue q) (trx_hash t) = Some t"
      using i um.mem_entries[of "tq_queue q" "trx_hash t" t] by (simp add: tq_sums_def)
  qed (force dest: map_of_SomeD)
  then have "set (full_order q) = set (map snd (tq_queue q))"
    using mem_full_order[OF assms] by auto
  then show ?thesis
    using set_eq_iff_mset_eq_distinct[OF d1 d2] by blast
qed

text \<open>
  C24: on a consistent pool \<open>getOrderedTransactions\<close> returns a prefix of one order that holds
  every proposable transaction once, keeps each account's transactions in nonce order, and at
  every position pays at least what the next transaction of any other account pays. A request
  for 0 transactions returns the whole order.
\<close>

theorem getOrderedTransactions_spec:
  assumes "tq_inv q"
  shows "\<exists>ts. mset ts = mset (map snd (tq_queue q))
           \<and> (\<forall>a. sorted_wrt (<) (map trx_nonce (of_sender a ts)))
           \<and> price_greedy ts
           \<and> (\<forall>cnt. getOrderedTransactions cnt q = Some (if cnt = 0 then ts else take cnt ts))"
proof (intro exI conjI allI)
  show "mset (full_order q) = mset (map snd (tq_queue q))"
    by (rule mset_full_order[OF assms])
  show "sorted_wrt (<) (map trx_nonce (of_sender a (full_order q)))" for a
    by (rule full_order_nonces[OF assms])
  show "price_greedy (full_order q)"
    unfolding full_order_def by (rule price_greedy_merged[OF full_order_state(1)[OF assms]])
  show "getOrderedTransactions cnt q = Some (if cnt = 0 then full_order q else take cnt (full_order q))" for cnt
    by (rule getOrderedTransactions_full[OF assms])
qed

text \<open>A pool of three transactions from two accounts.\<close>

definition sample_trx :: "addr_t \<Rightarrow> u256 \<Rightarrow> u256 \<Rightarrow> transaction" where
  "sample_trx a n price =
     \<lparr>trx_nonce = n, trx_value = 0, trx_gas_price = price, trx_gas = 21000, trx_data = [],
      trx_receiver = None, trx_chain_id = 0, trx_hash = ucast a * 1000 + ucast n, trx_sender = a,
      trx_sender_valid = True\<rparr>"

definition sample_pool1 :: transaction_queue where
  "sample_pool1 = the (projr (insert_proposable (sample_trx 1 0 5) 0 (tq_new 100)))"

definition sample_pool2 :: transaction_queue where
  "sample_pool2 = the (projr (insert_proposable (sample_trx 1 1 9) 0 sample_pool1))"

definition sample_pool :: transaction_queue where
  "sample_pool = the (projr (insert_proposable (sample_trx 2 0 7) 0 sample_pool2))"

lemmas sample_pool_defs =
  sample_trx_def sample_pool1_def sample_pool2_def sample_pool_def tq_new_def insert_proposable_def
  addTransaction_def account_put_def um_get_or_def kMaxSingleAccountTransactionsSize_def
  tq_contains_def ec_empty_def

lemma sample_pool1_inv: "tq_inv sample_pool1"
  by (rule insert_proposable_inv[OF tq_inv_new[of 100], of "sample_trx 1 0 5" 0])
     (simp_all add: sample_pool_defs)

lemma sample_pool2_inv: "tq_inv sample_pool2"
  by (rule insert_proposable_inv[OF sample_pool1_inv, of "sample_trx 1 1 9" 0])
     (simp_all add: sample_pool_defs)

lemma sample_pool_inv: "tq_inv sample_pool"
  by (rule insert_proposable_inv[OF sample_pool2_inv, of "sample_trx 2 0 7" 0])
     (simp_all add: sample_pool_defs)

theorem getOrderedTransactions_spec_witness:
  "tq_inv sample_pool \<and> tq_size sample_pool = 3
   \<and> (\<exists>ts. mset ts = mset (map snd (tq_queue sample_pool))
           \<and> (\<forall>a. sorted_wrt (<) (map trx_nonce (of_sender a ts)))
           \<and> price_greedy ts
           \<and> (\<forall>cnt. getOrderedTransactions cnt sample_pool = Some (if cnt = 0 then ts else take cnt ts)))"
  using getOrderedTransactions_spec[OF sample_pool_inv] sample_pool_inv
  by (simp add: sample_pool_defs tq_size_def)

end
