(* ===== verification/Transaction_Queue_Props.thy ===== *)
theory Transaction_Queue_Props
  imports Transaction_Queue_Order
begin

text \<open>
  What the mutating operations of the transaction pool promise: \<open>insert\<close>, \<open>erase\<close>,
  \<open>blockFinalized\<close> and \<open>purge\<close> keep the pool invariant, keep the pool within \<open>max_size\<close>, and
  return the status that describes the resulting pool.
\<close>

section \<open>Insertion\<close>

lemma length_eq_card_dom: "um_inv m \<Longrightarrow> length m = card (dom (um_find m))"
  by (metis distinct_card dom_map_of_conv_image_fst length_map list.set_map)

lemma tq_size_card: "tq_inv q \<Longrightarrow> tq_size q = card (dom (um_find (tq_queue q)))"
  by (simp add: tq_size_def tq_inv_def tq_sums_def length_eq_card_dom)

lemma known_insert_inv:
  assumes "tq_inv q"
  obtains known where "known_insert h q = Inr (q\<lparr>tq_known := known\<rparr>)" and "tq_inv (q\<lparr>tq_known := known\<rparr>)"
proof -
  have "ec_inv (tq_known q)" "ec_delete_step (tq_known q) \<le> Suc (ec_max_size (tq_known q))"
    using assms by (simp_all add: tq_inv_def known_ok_def)
  from ec_insert_inv[OF this, of h] obtain b known where
    k: "ec_insert h (tq_known q) = Some (b, known)" "ec_inv known"
      "ec_delete_step known \<le> Suc (ec_max_size known)"
    using assms by (auto simp: tq_inv_def known_ok_def)
  then have "tq_inv (q\<lparr>tq_known := known\<rparr>)"
    using assms by (simp add: tq_inv_def tq_accounts_def tq_pool_def known_ok_def)
  with k show thesis by (intro that) (simp_all add: known_insert_def)
qed

lemma overflow_loop_inv:
  assumes "tq_inv q" and "distinct ts" and "\<forall>t \<in> set ts. um_find (tq_queue q) (trx_hash t) = Some t"
  shows "\<exists>q'. overflow_loop now n c ts q = Inr q' \<and> tq_inv q' \<and> tq_max_size q' = tq_max_size q
      \<and> um_find (tq_queue q') \<subseteq>\<^sub>m um_find (tq_queue q)
      \<and> um_find (tq_non_proposable q') = um_find (tq_non_proposable q)
      \<and> (ts \<noteq> [] \<longrightarrow> um_find (tq_queue q') (trx_hash (hd ts)) = None)"
  using assms
proof (induction ts arbitrary: c q)
  case (Cons t ts)
  let ?q = "q\<lparr>tq_overflow_time := now\<rparr>"
  have stored: "um_find (tq_queue q) (trx_hash t) = Some t"
    using Cons.prems(3) by simp
  have np: "um_find (tq_non_proposable q) (trx_hash t) = None"
    using Cons.prems(1) stored by (metis not_Some_eq option.distinct(1) tq_inv_def tq_pool_def)
  have same: "same_trx t ?q"
    using stored np by (simp add: same_trx_def tq_get_def)
  have inv: "tq_inv ?q"
    using Cons.prems(1) by simp
  obtain b q1 where q1: "tq_erase t ?q = Inr (b, q1)" "tq_inv q1"
    "um_find (tq_queue q1) = (um_find (tq_queue ?q))(trx_hash t := None)"
    "um_find (tq_non_proposable q1) = (um_find (tq_non_proposable ?q))(trx_hash t := None)"
    "tq_max_size q1 = tq_max_size ?q"
    by (rule tq_erase_inv[OF inv same])
  define q2 where "q2 = q1\<lparr>tq_known := ec_erase (trx_hash t) (tq_known q1)\<rparr>"
  have find: "um_find (tq_queue q2) = (um_find (tq_queue q))(trx_hash t := None)"
    "um_find (tq_non_proposable q2) = um_find (tq_non_proposable q)" "tq_max_size q2 = tq_max_size q"
    using q1(3,4,5) np by (simp_all add: q2_def fun_upd_idem)
  have inv2: "tq_inv q2"
    unfolding q2_def using q1(2) by (rule tq_inv_known_erase)
  have step: "overflow_loop now n c (t # ts) q =
      (if n div 100 \<le> Suc c then Inr q2 else overflow_loop now n (Suc c) ts q2)"
    using q1(1) by (simp add: q2_def Let_def)
  have "\<forall>x \<in> set ts. um_find (tq_queue q2) (trx_hash x) = Some x"
  proof
    fix x
    assume x: "x \<in> set ts"
    then have "um_find (tq_queue q) (trx_hash x) = Some x" "x \<noteq> t"
      using Cons.prems(2,3) by auto
    moreover have "trx_hash x \<noteq> trx_hash t"
      using calculation stored by (metis option.inject)
    ultimately show "um_find (tq_queue q2) (trx_hash x) = Some x"
      by (simp add: find(1))
  qed
  from Cons.IH[OF inv2 _ this, of "Suc c", unfolded find(2,3)] Cons.prems(2) obtain q' where
    q': "overflow_loop now n (Suc c) ts q2 = Inr q'" "tq_inv q'" "tq_max_size q' = tq_max_size q"
      "um_find (tq_queue q') \<subseteq>\<^sub>m um_find (tq_queue q2)"
      "um_find (tq_non_proposable q') = um_find (tq_non_proposable q)"
    by auto
  have less: "m \<subseteq>\<^sub>m um_find (tq_queue q) \<and> m (trx_hash t) = None"
    if "m \<subseteq>\<^sub>m um_find (tq_queue q2)" for m
    using that unfolding find(1) map_le_def
    by (metis domIff fun_upd_other fun_upd_same)
  show ?case
    using step q' inv2 find(2,3) less[OF map_le_refl] less[OF q'(4)] by simp
qed (simp add: map_le_def)

lemma map_le_card:
  assumes "m \<subseteq>\<^sub>m m'" and "finite (dom m')"
  shows "card (dom m) \<le> card (dom m')"
    and "m h = None \<Longrightarrow> m' h \<noteq> None \<Longrightarrow> card (dom m) < card (dom m')"
proof -
  show "card (dom m) \<le> card (dom m')"
    using assms by (simp add: card_mono map_le_implies_dom_le)
  show "card (dom m) < card (dom m')" if "m h = None" "m' h \<noteq> None"
    using that map_le_implies_dom_le[OF assms(1)]
    by (intro psubset_card_mono assms(2)) blast
qed

lemma trim_overflow_inv:
  assumes inv: "tq_inv q" and size: "tq_size q \<le> Suc (tq_max_size q)"
  shows "\<exists>q'. trim_overflow now q = Inr q' \<and> tq_inv q' \<and> tq_max_size q' = tq_max_size q
      \<and> um_find (tq_queue q') \<subseteq>\<^sub>m um_find (tq_queue q)
      \<and> um_find (tq_non_proposable q') = um_find (tq_non_proposable q)
      \<and> tq_size q' \<le> tq_max_size q"
proof (cases "tq_max_size q < tq_size q")
  case True
  let ?ts = "rev (full_order q)"
  have len: "length ?ts = tq_size q"
    using mset_full_order[OF inv] by (metis length_map length_rev size_mset tq_size_def)
  have stored: "\<forall>t \<in> set ?ts. um_find (tq_queue q) (trx_hash t) = Some t"
    using mem_full_order[OF inv] by simp
  have d: "distinct ?ts"
    using distinct_full_order[OF inv] by simp
  from overflow_loop_inv[OF inv d stored, of now "tq_size q" 0] obtain q' where
    q': "overflow_loop now (tq_size q) 0 ?ts q = Inr q'" "tq_inv q'" "tq_max_size q' = tq_max_size q"
      "um_find (tq_queue q') \<subseteq>\<^sub>m um_find (tq_queue q)"
      "um_find (tq_non_proposable q') = um_find (tq_non_proposable q)"
      "?ts \<noteq> [] \<longrightarrow> um_find (tq_queue q') (trx_hash (hd ?ts)) = None"
    by blast
  have "?ts \<noteq> []" using len True by auto
  then have "um_find (tq_queue q') (trx_hash (hd ?ts)) = None"
    "um_find (tq_queue q) (trx_hash (hd ?ts)) = Some (hd ?ts)"
    using q'(6) stored hd_in_set[of ?ts] by blast+
  then have "tq_size q' < tq_size q"
    using map_le_card(2)[OF q'(4) finite_dom_map_of] tq_size_card[OF inv] tq_size_card[OF q'(2)]
    by simp
  moreover have "trim_overflow now q = Inr q'"
    using True q'(1) len getOrderedTransactions_full[OF inv, of "tq_size q"]
    by (simp add: trim_overflow_def)
  ultimately show ?thesis using q' size by auto
qed (use assms in \<open>simp add: trim_overflow_def\<close>)

lemma length_um_put_le: "length (um_put k v m) \<le> Suc (length m)"
  by (induction m) auto

lemma tq_size_frames:
  "tq_size (addTransaction t pr n q) \<le> Suc (tq_size q)"
  "tq_size (addTransaction t False n q) = tq_size q"
  "tq_size (account_put t q) = tq_size q"
  "tq_size (snd (removeTransaction t pr q)) \<le> tq_size q"
  by (auto simp: tq_size_def addTransaction_def account_put_def removeTransaction_def Let_def
      length_um_put_le length_delete_le)

lemma tq_max_size_frames [simp]:
  "tq_max_size (addTransaction t pr n q) = tq_max_size q"
  "tq_max_size (account_put t q) = tq_max_size q"
  "tq_max_size (snd (removeTransaction t pr q)) = tq_max_size q"
  by (auto simp: addTransaction_def account_put_def removeTransaction_def Let_def)

lemma other_trx_of_nonce:
  assumes inv: "tq_inv q" and new: "\<not> tq_contains (trx_hash t) q"
    and "acc_find q (trx_sender t) (trx_nonce t) = Some old"
  shows "trx_hash old \<noteq> trx_hash t" and "um_find (tq_queue q) (trx_hash old) = Some old"
proof -
  show stored: "um_find (tq_queue q) (trx_hash old) = Some old"
    using index_ok_iff[of "acc_find q" "um_find (tq_queue q)" "trx_sender t" "trx_nonce t" old] assms
    by (simp add: tq_inv_def)
  then show "trx_hash old \<noteq> trx_hash t"
    using not_containsD(1)[OF new] by (metis option.distinct(1))
qed

lemma insert_proposable_defined:
  assumes "tq_inv q" and "\<not> tq_contains (trx_hash t) q"
  obtains "insert_proposable t n q = Inr None" | q1 where "insert_proposable t n q = Inr (Some q1)"
proof -
  have "\<exists>r. insert_proposable t n q = Inr r"
  proof (cases "acc_find q (trx_sender t) (trx_nonce t)")
    case None
    then show ?thesis by (auto simp: insert_proposable_def acc_find_def split: option.splits)
  next
    case (Some old)
    with other_trx_of_nonce[OF assms Some] show ?thesis
      by (auto simp: insert_proposable_def acc_find_def Let_def split: option.splits)
  qed
  with that show thesis by (metis not_Some_eq)
qed

lemma insert_proposable_cases:
  assumes inv: "tq_inv q" and new: "\<not> tq_contains (trx_hash t) q"
    and res: "insert_proposable t n q = Inr (Some q1)"
  obtains (fresh) "q1 = addTransaction t True 0 (account_put t q)"
    | (old) old where "trx_hash old \<noteq> trx_hash t" "um_find (tq_queue q) (trx_hash old) = Some old"
        "q1 = addTransaction t True 0
          (account_put t (addTransaction old False n (snd (removeTransaction old True q))))"
    | (np) "q1 = addTransaction t False n q"
proof (cases "acc_find q (trx_sender t) (trx_nonce t)")
  case None
  with res show thesis
    by (intro that(1)) (auto simp: insert_proposable_def acc_find_def split: option.splits if_splits)
next
  case (Some old)
  have "q1 = addTransaction t True 0
          (account_put t (addTransaction old False n (snd (removeTransaction old True q))))
      \<or> q1 = addTransaction t False n q"
    using res Some
    by (simp add: insert_proposable_def acc_find_def Let_def split: option.splits if_splits)
  then show thesis using that(2)[OF other_trx_of_nonce[OF inv new Some]] that(3) by blast
qed

lemma insert_proposable_shape:
  assumes inv: "tq_inv q" and new: "\<not> tq_contains (trx_hash t) q"
    and res: "insert_proposable t n q = Inr (Some q1)"
  shows "tq_max_size q1 = tq_max_size q" and "tq_size q1 \<le> Suc (tq_size q)"
    and "tq_contains (trx_hash t) q1"
    and "tq_size q < tq_size q1 \<Longrightarrow> um_find (tq_non_proposable q1) (trx_hash t) = None"
proof -
  note free = not_containsD[OF new] and cases = insert_proposable_cases[OF assms]
  show "tq_max_size q1 = tq_max_size q"
    by (rule cases) simp_all
  show "tq_size q1 \<le> Suc (tq_size q)"
  proof (rule cases)
    fix old
    assume "q1 = addTransaction t True 0
        (account_put t (addTransaction old False n (snd (removeTransaction old True q))))"
    then show ?thesis
      using tq_size_frames(1)[of t True 0 "account_put t (addTransaction old False n (snd (removeTransaction old True q)))"]
        tq_size_frames(4)[of old True q]
      by (simp add: tq_size_frames(2,3))
  qed (use tq_size_frames(1)[of t True 0 "account_put t q"] in \<open>simp_all add: tq_size_frames\<close>)
  show "tq_contains (trx_hash t) q1"
    by (rule cases) (use free in \<open>simp_all add: tq_contains_def queue_after_add queue_after_remove\<close>)
  show "um_find (tq_non_proposable q1) (trx_hash t) = None" if "tq_size q < tq_size q1"
  proof (rule cases)
    fix old
    assume "trx_hash old \<noteq> trx_hash t" "q1 = addTransaction t True 0
        (account_put t (addTransaction old False n (snd (removeTransaction old True q))))"
    moreover have "um_find (tq_non_proposable (addTransaction old False n x)) (trx_hash t)
        = um_find (tq_non_proposable x) (trx_hash t)" if "trx_hash old \<noteq> trx_hash t" for x
      using that by (auto simp: addTransaction_def)
    ultimately show ?thesis
      using free by (simp add: queue_after_add queue_after_remove)
  qed (use that free in \<open>simp_all add: tq_size_frames queue_after_add\<close>)
qed

text \<open>What the status returned by \<open>insert\<close> says about the pool afterwards.\<close>

definition status_ok :: "h256 \<Rightarrow> trx_status \<Rightarrow> transaction_queue \<Rightarrow> transaction_queue \<Rightarrow> bool" where
  "status_ok h st q q' \<longleftrightarrow>
     (case st of
        Known \<Rightarrow> tq_contains h q \<and> q' = q
      | Inserted \<Rightarrow> \<not> tq_contains h q \<and> tq_contains h q'
      | InsertedNonProposable \<Rightarrow> \<not> tq_contains h q \<and> um_find (tq_non_proposable q') h \<noteq> None
      | Overflow \<Rightarrow> \<not> tq_contains h q \<and> \<not> tq_contains h q')"

lemma insert_proposable_ok:
  assumes inv: "tq_inv q" and size: "tq_size q \<le> tq_max_size q"
    and new: "\<not> tq_contains (trx_hash t) q" and res: "insert_proposable t n q = Inr (Some q1)"
  obtains q2 where "trim_overflow now q1 = Inr q2" and "tq_inv q2" and "tq_size q2 \<le> tq_max_size q2"
    and "tq_max_size q2 = tq_max_size q"
    and "tq_contains (trx_hash t) q2
           \<longleftrightarrow> \<not> (tq_max_size q1 < tq_size q1 \<and> um_find (tq_queue q2) (trx_hash t) = None)"
proof -
  note shape = insert_proposable_shape[OF inv new res]
  have inv1: "tq_inv q1" by (rule insert_proposable_inv[OF inv new res])
  have "tq_size q1 \<le> Suc (tq_max_size q1)" using shape(1,2) size by simp
  from trim_overflow_inv[OF inv1 this, of now] obtain q2 where
    q2: "trim_overflow now q1 = Inr q2" "tq_inv q2" "tq_max_size q2 = tq_max_size q1"
      "um_find (tq_non_proposable q2) = um_find (tq_non_proposable q1)" "tq_size q2 \<le> tq_max_size q1"
    by blast
  have "tq_contains (trx_hash t) q2
           \<longleftrightarrow> \<not> (tq_max_size q1 < tq_size q1 \<and> um_find (tq_queue q2) (trx_hash t) = None)"
  proof (cases "tq_max_size q1 < tq_size q1")
    case True
    then have "um_find (tq_non_proposable q2) (trx_hash t) = None"
      using shape(1,4) size q2(4) by simp
    with True show ?thesis by (simp add: tq_contains_def)
  next
    case False
    then have "q2 = q1" using q2(1) by (simp add: trim_overflow_def)
    with False shape(3) show ?thesis by simp
  qed
  with q2 shape(1) show thesis by (intro that) simp_all
qed

lemma tq_contains_frames [simp]:
  "tq_contains h (q\<lparr>tq_known := k\<rparr>) = tq_contains h q"
  "tq_contains h (q\<lparr>tq_overflow_time := x\<rparr>) = tq_contains h q"
  "tq_size (q\<lparr>tq_known := k\<rparr>) = tq_size q"
  "tq_size (q\<lparr>tq_overflow_time := x\<rparr>) = tq_size q"
  by (simp_all add: tq_contains_def tq_size_def)

lemma tq_insert_proposable:
  assumes inv: "tq_inv q" and size: "tq_size q \<le> tq_max_size q"
    and new: "\<not> tq_contains (trx_hash t) q" and sig: "trx_sender_valid t"
    and room: "\<not> kMaxDataSize q < unat (tq_data_size q)"
  shows "\<exists>st q'. tq_insert now t True n q = Inr (st, q') \<and> tq_inv q' \<and> tq_size q' \<le> tq_max_size q'
      \<and> tq_max_size q' = tq_max_size q \<and> status_ok (trx_hash t) st q q'"
proof (rule insert_proposable_defined[OF inv new, of n])
  assume "insert_proposable t n q = Inr None"
  then have "tq_insert now t True n q = Inr (Overflow, q\<lparr>tq_overflow_time := now\<rparr>)"
    using new sig room by (simp add: tq_insert_def)
  then show ?thesis using inv size new by (simp add: status_ok_def)
next
  fix q1
  assume Some: "insert_proposable t n q = Inr (Some q1)"
  obtain q2 where q2: "trim_overflow now q1 = Inr q2" "tq_inv q2" "tq_size q2 \<le> tq_max_size q2"
    "tq_max_size q2 = tq_max_size q"
    "tq_contains (trx_hash t) q2
       \<longleftrightarrow> \<not> (tq_max_size q1 < tq_size q1 \<and> um_find (tq_queue q2) (trx_hash t) = None)"
    by (rule insert_proposable_ok[OF inv size new Some])
  obtain known where known: "known_insert (trx_hash t) q2 = Inr (q2\<lparr>tq_known := known\<rparr>)"
    "tq_inv (q2\<lparr>tq_known := known\<rparr>)"
    by (rule known_insert_inv[OF q2(2)])
  have "tq_insert now t True n q =
      (if tq_contains (trx_hash t) q2 then Inr (Inserted, q2\<lparr>tq_known := known\<rparr>) else Inr (Overflow, q2))"
    using new sig room Some q2(1,5) known(1) by (simp add: tq_insert_def)
  then show ?thesis using q2 known new by (simp add: status_ok_def)
qed

lemma tq_insert_inv:
  assumes inv: "tq_inv q" and size: "tq_size q \<le> tq_max_size q" and sig: "pr \<Longrightarrow> trx_sender_valid t"
  shows "\<exists>st q'. tq_insert now t pr n q = Inr (st, q') \<and> tq_inv q' \<and> tq_size q' \<le> tq_max_size q'
      \<and> tq_max_size q' = tq_max_size q \<and> status_ok (trx_hash t) st q q'"
proof -
  let ?q = "addTransaction t False n q"
  consider (known) "tq_contains (trx_hash t) q"
    | (full) "\<not> tq_contains (trx_hash t) q" "kMaxDataSize q < unat (tq_data_size q)"
    | (pr) "\<not> tq_contains (trx_hash t) q" "\<not> kMaxDataSize q < unat (tq_data_size q)" pr
    | (np) "\<not> tq_contains (trx_hash t) q" "\<not> kMaxDataSize q < unat (tq_data_size q)" "\<not> pr"
    by blast
  then show ?thesis
  proof cases
    case pr
    then show ?thesis using tq_insert_proposable[OF inv size] sig by simp
  next
    case np
    note free = not_containsD[OF np(1)]
    obtain known where k: "known_insert (trx_hash t) ?q = Inr (?q\<lparr>tq_known := known\<rparr>)"
      "tq_inv (?q\<lparr>tq_known := known\<rparr>)"
      by (rule known_insert_inv[OF insert_np_inv[OF inv np(1)]])
    have "um_find (tq_non_proposable ?q) (trx_hash t) \<noteq> None"
      using free by (simp add: queue_after_add)
    then show ?thesis
      using np k inv size by (simp add: tq_insert_def status_ok_def tq_size_frames)
  qed (use inv size in \<open>simp_all add: tq_insert_def status_ok_def\<close>)
qed

section \<open>Expiry\<close>

lemma expire_step_inv:
  assumes inv: "tq_inv q" and e: "um_find (tq_non_proposable q) h = Some e"
  defines "q' \<equiv> q\<lparr>tq_known := ec_erase h (tq_known q),
                  tq_data_size := tq_data_size q - data_len (snd e),
                  tq_non_proposable := um_erase h (tq_non_proposable q)\<rparr>"
  shows "tq_inv q'"
proof -
  have h: "trx_hash (snd e) = h" and none: "um_find (tq_queue q) h = None"
    using inv e unfolding tq_inv_def tq_pool_def by blast+
  have same: "same_trx (snd e) q"
    using e h none by (simp add: same_trx_def tq_get_def)
  obtain b q1 where q1: "tq_erase (snd e) q = Inr (b, q1)" "tq_inv q1"
    by (rule tq_erase_inv[OF inv same])
  have "q1 = q\<lparr>tq_data_size := tq_data_size q - data_len (snd e),
               tq_non_proposable := um_erase h (tq_non_proposable q)\<rparr>"
    using q1(1) e h none by (cases q) (auto simp: tq_erase_def removeTransaction_def)
  then have "q' = q1\<lparr>tq_known := ec_erase h (tq_known q1)\<rparr>"
    by (simp add: q'_def)
  then show ?thesis using tq_inv_known_erase[OF q1(2)] by simp
qed

lemma expire_loop_inv:
  assumes "tq_inv q" and "um_inv es" and "\<forall>p \<in> set es. um_find (tq_non_proposable q) (fst p) = Some (snd p)"
  shows "tq_inv (expire_loop b es q) \<and> tq_queue (expire_loop b es q) = tq_queue q
     \<and> tq_max_size (expire_loop b es q) = tq_max_size q
     \<and> um_find (tq_non_proposable (expire_loop b es q)) =
         (\<lambda>h. case um_find es h of
                Some e \<Rightarrow> if np_expired b e then None else Some e
              | None \<Rightarrow> um_find (tq_non_proposable q) h)"
  using assms
proof (induction b es q rule: expire_loop.induct)
  case (2 b h e es q)
  let ?q = "if np_expired b e then
          q\<lparr>tq_known := ec_erase h (tq_known q),
            tq_data_size := tq_data_size q - data_len (snd e),
            tq_non_proposable := um_erase h (tq_non_proposable q)\<rparr>
        else q"
  have e: "um_find (tq_non_proposable q) h = Some e"
    using "2.prems"(3) by simp
  have inv: "tq_inv ?q"
    using expire_step_inv[OF "2.prems"(1) e] "2.prems"(1) by simp
  have fresh: "um_find es h = None" and es: "um_inv es"
    using "2.prems"(2) by (simp_all add: map_of_eq_None_iff)
  have rest: "\<forall>p \<in> set es. um_find (tq_non_proposable ?q) (fst p) = Some (snd p)"
    using "2.prems"(2,3) by (auto simp: rev_image_eqI)
  show ?case
    using "2.IH"[OF inv es rest] e fresh
    by (cases "np_expired b e") (auto simp: fun_eq_iff split: option.splits)
qed simp

lemma tq_blockFinalized_inv:
  assumes inv: "tq_inv q"
  shows "tq_inv (tq_blockFinalized b q)" and "tq_queue (tq_blockFinalized b q) = tq_queue q"
    and "tq_max_size (tq_blockFinalized b q) = tq_max_size q"
    and "um_find (tq_non_proposable (tq_blockFinalized b q)) h =
           (case um_find (tq_non_proposable q) h of
              Some e \<Rightarrow> if np_expired b e then None else Some e | None \<Rightarrow> None)"
proof -
  have "um_inv (tq_non_proposable q)"
    using inv by (simp add: tq_inv_def tq_sums_def)
  moreover have "\<forall>p \<in> set (tq_non_proposable q). um_find (tq_non_proposable q) (fst p) = Some (snd p)"
    using map_of_is_SomeI[OF calculation] by simp
  ultimately show "tq_inv (tq_blockFinalized b q)" "tq_queue (tq_blockFinalized b q) = tq_queue q"
    "tq_max_size (tq_blockFinalized b q) = tq_max_size q"
    "um_find (tq_non_proposable (tq_blockFinalized b q)) h =
           (case um_find (tq_non_proposable q) h of
              Some e \<Rightarrow> if np_expired b e then None else Some e | None \<Rightarrow> None)"
    using expire_loop_inv[OF inv, of "tq_non_proposable q" b]
    by (simp_all add: tq_blockFinalized_def split: option.splits)
qed

section \<open>Purging\<close>

definition set_account ::
  "addr_t \<Rightarrow> (u256, transaction) omap \<Rightarrow> transaction_queue \<Rightarrow> transaction_queue" where
  "set_account a m q =
     q\<lparr>tq_account_nonce := (if m = [] then um_erase a (tq_account_nonce q)
                             else um_put a m (tq_account_nonce q))\<rparr>"

lemma set_account_frames [simp]:
  "tq_queue (set_account a m q) = tq_queue q"
  "tq_non_proposable (set_account a m q) = tq_non_proposable q"
  "tq_max_size (set_account a m q) = tq_max_size q"
  "removeTransaction t True (set_account a m q) =
     (fst (removeTransaction t True q), set_account a m (snd (removeTransaction t True q)))"
  by (simp_all add: set_account_def removeTransaction_def Let_def)

lemma set_account_erase:
  "m \<noteq> [] \<Longrightarrow> account_erase a n m (set_account a m q) = set_account a (um_erase n m) q"
  by (auto simp: set_account_def account_erase_def Let_def delete_update_same)

lemma set_account_same:
  assumes "tq_inv q" and "um_find (tq_account_nonce q) a = Some m"
  shows "set_account a m q = q"
proof -
  have "m \<noteq> []" using assms by (simp add: tq_inv_def tq_accounts_def)
  moreover have "um_put a m (tq_account_nonce q) = tq_account_nonce q"
    using assms(2) by (rule AList.update_triv)
  ultimately show ?thesis by (simp add: set_account_def)
qed

lemma set_account_mem:
  assumes "tq_inv (set_account a m q)"
  shows "um_find m n = Some t \<longleftrightarrow> um_find (tq_queue q) (trx_hash t) = Some t \<and> trx_sender t = a \<and> trx_nonce t = n"
proof -
  have "acc_find (set_account a m q) a = um_find m"
    by (auto simp: acc_find_def set_account_def fun_eq_iff)
  then show ?thesis
    using assms index_ok_iff[of "acc_find (set_account a m q)" "um_find (tq_queue q)" a n t]
    by (simp add: tq_inv_def)
qed

lemma erase_first_nonce:
  assumes inv: "tq_inv (set_account a ((n, t) # m) q)" and om: "om_inv ((n, t) # m)"
  shows "tq_inv (set_account a m (snd (removeTransaction t True q)))"
    and "trx_sender t = a" and "trx_nonce t = n" and "um_find (tq_queue q) (trx_hash t) = Some t"
proof -
  let ?Q = "set_account a ((n, t) # m) q"
  have t: "um_find (tq_queue q) (trx_hash t) = Some t" "trx_sender t = a" "trx_nonce t = n"
    using set_account_mem[OF inv, of n t] by simp_all
  have same: "same_trx t ?Q"
    using t by (simp add: same_trx_def tq_get_def)
  obtain b q1 where q1: "tq_erase t ?Q = Inr (b, q1)" "tq_inv q1"
    by (rule tq_erase_inv[OF inv same])
  have "um_erase n m = m"
    using om by (auto simp: AList.delete_eq filter_id_conv)
  moreover have "um_find (tq_account_nonce ?Q) a = Some ((n, t) # m)"
    by (simp add: set_account_def)
  ultimately have "q1 = set_account a m (snd (removeTransaction t True q))"
    using q1(1) t set_account_erase[of "(n, t) # m" a n q] by (simp add: tq_erase_def)
  with q1(2) t show "tq_inv (set_account a m (snd (removeTransaction t True q)))"
    "trx_sender t = a" "trx_nonce t = n" "um_find (tq_queue q) (trx_hash t) = Some t"
    by simp_all
qed

text \<open>One account of \<open>purge\<close>: exactly the stored transactions below the nonce disappear.\<close>

lemma purge_nonces_inv:
  assumes "tq_inv (set_account a m q)" and "om_inv m"
  shows "tq_inv (set_account a (fst (purge_nonces nonce m q)) (snd (purge_nonces nonce m q)))
     \<and> tq_non_proposable (snd (purge_nonces nonce m q)) = tq_non_proposable q
     \<and> tq_max_size (snd (purge_nonces nonce m q)) = tq_max_size q
     \<and> tq_account_nonce (snd (purge_nonces nonce m q)) = tq_account_nonce q
     \<and> (\<forall>h t. um_find (tq_queue (snd (purge_nonces nonce m q))) h = Some t
          \<longleftrightarrow> um_find (tq_queue q) h = Some t \<and> (trx_sender t = a \<longrightarrow> nonce \<le> trx_nonce t))"
  using assms
proof (induction nonce m q rule: purge_nonces.induct)
  case (1 nonce q)
  have "trx_sender t \<noteq> a" if "um_find (tq_queue q) h = Some t" for h t
    using set_account_mem[OF "1.prems"(1), of "trx_nonce t" t] that "1.prems"(1)
      index_ok_hash[of "acc_find (set_account a [] q)" "um_find (tq_queue q)" h t]
    by (auto simp: tq_inv_def)
  with "1.prems" show ?case by auto
next
  case (2 nonce n t m q)
  note t = erase_first_nonce[OF "2.prems"]
  let ?q = "snd (removeTransaction t True q)"
  have stored: "um_find (tq_queue q) h = Some x \<Longrightarrow> trx_hash x = h" for h x
    using "2.prems"(1) index_ok_hash[of "acc_find (set_account a ((n, t) # m) q)" "um_find (tq_queue q)" h x]
    by (simp add: tq_inv_def)
  show ?case
  proof (cases "n < nonce")
    case True
    have m: "om_inv m" using "2.prems"(2) by simp
    have "um_find (tq_queue ?q) h = Some x \<longleftrightarrow> um_find (tq_queue q) h = Some x \<and> x \<noteq> t" for h x
      using stored[of h x] t(4) by (auto simp: queue_after_remove)
    moreover have "tq_account_nonce ?q = tq_account_nonce q"
      by (simp add: removeTransaction_def Let_def)
    ultimately show ?thesis
      using "2.IH"[OF True t(1) m] True t(2,3) by (auto simp: queue_after_remove not_le)
  next
    case False
    have "nonce \<le> trx_nonce x" if "um_find (tq_queue q) h = Some x" "trx_sender x = a" for h x
    proof -
      have "um_find ((n, t) # m) (trx_nonce x) = Some x"
        using set_account_mem[OF "2.prems"(1), of "trx_nonce x" x] that stored[OF that(1)] by simp
      then have "(trx_nonce x, x) \<in> set ((n, t) # m)" by (rule map_of_SomeD)
      with "2.prems"(2) False show ?thesis by fastforce
    qed
    with False "2.prems" show ?thesis by auto
  qed
qed

lemma purge_accounts_inv:
  assumes "tq_inv q" and "um_inv accounts"
    and "\<forall>p \<in> set accounts. um_find (tq_account_nonce q) (fst p) = Some (snd p)"
  shows "tq_inv (purge_accounts f accounts q)
     \<and> tq_non_proposable (purge_accounts f accounts q) = tq_non_proposable q
     \<and> tq_max_size (purge_accounts f accounts q) = tq_max_size q
     \<and> (\<forall>h t. um_find (tq_queue (purge_accounts f accounts q)) h = Some t
          \<longleftrightarrow> um_find (tq_queue q) h = Some t
            \<and> (trx_sender t \<in> fst ` set accounts \<longrightarrow> (\<forall>n. f (trx_sender t) = Some n \<longrightarrow> n \<le> trx_nonce t)))"
  using assms
proof (induction accounts arbitrary: q)
  case (Cons p accounts)
  obtain a m where p: "p = (a, m)" by force
  have m: "um_find (tq_account_nonce q) a = Some m" and fresh: "a \<notin> fst ` set accounts"
    using Cons.prems(2,3) p by auto
  have um: "um_inv accounts" and rest: "\<forall>p \<in> set accounts. um_find (tq_account_nonce q) (fst p) = Some (snd p)"
    using Cons.prems(2,3) by simp_all
  show ?case
  proof (cases "f a")
    case None
    then show ?thesis using Cons.IH[OF Cons.prems(1) um rest] p by auto
  next
    case (Some nonce)
    have om: "om_inv m" using Cons.prems(1) m by (simp add: tq_inv_def tq_accounts_def)
    obtain m' q1 where res: "purge_nonces nonce m q = (m', q1)" by force
    have inv: "tq_inv (set_account a m q)"
      using Cons.prems(1) set_account_same[OF Cons.prems(1) m] by simp
    note one = purge_nonces_inv[OF inv om, of nonce, unfolded res fst_conv snd_conv]
    have "um_find (tq_account_nonce (set_account a m' q1)) b = um_find (tq_account_nonce q) b" if "b \<noteq> a" for b
      using that one by (auto simp: set_account_def)
    then have rest': "\<forall>p \<in> set accounts. um_find (tq_account_nonce (set_account a m' q1)) (fst p) = Some (snd p)"
      using rest fresh by (metis image_eqI)
    have step: "purge_accounts f (p # accounts) q = purge_accounts f accounts (set_account a m' q1)"
      using Some res p by (simp add: set_account_def)
    show ?thesis
      unfolding step using Cons.IH[OF _ um rest'] one p Some fresh by auto
  qed
qed simp

lemma tq_purge_inv:
  assumes inv: "tq_inv q"
  shows "tq_inv (tq_purge f q)" and "tq_non_proposable (tq_purge f q) = tq_non_proposable q"
    and "tq_max_size (tq_purge f q) = tq_max_size q"
    and "um_find (tq_queue (tq_purge f q)) h = Some t \<longleftrightarrow>
           um_find (tq_queue q) h = Some t \<and> (\<forall>n. f (trx_sender t) = Some n \<longrightarrow> n \<le> trx_nonce t)"
proof -
  have um: "um_inv (tq_account_nonce q)"
    using inv by (simp add: tq_inv_def tq_accounts_def)
  have "\<forall>p \<in> set (tq_account_nonce q). um_find (tq_account_nonce q) (fst p) = Some (snd p)"
    using map_of_is_SomeI[OF um] by simp
  note all = purge_accounts_inv[OF inv um this, of f, folded tq_purge_def]
  have "trx_sender t \<in> fst ` set (tq_account_nonce q)" if "um_find (tq_queue q) h = Some t"
  proof -
    have "trx_hash t = h"
      using inv that index_ok_hash[of "acc_find q" "um_find (tq_queue q)" h t] by (simp add: tq_inv_def)
    then have "acc_find q (trx_sender t) (trx_nonce t) = Some t"
      using inv that index_ok_iff[of "acc_find q" "um_find (tq_queue q)" "trx_sender t" "trx_nonce t" t]
      by (simp add: tq_inv_def)
    then have "um_find (tq_account_nonce q) (trx_sender t) \<noteq> None"
      by (auto simp: acc_find_def split: option.splits)
    then show ?thesis by (simp add: map_of_eq_None_iff)
  qed
  then show "um_find (tq_queue (tq_purge f q)) h = Some t \<longleftrightarrow>
           um_find (tq_queue q) h = Some t \<and> (\<forall>n. f (trx_sender t) = Some n \<longrightarrow> n \<le> trx_nonce t)"
    using all by blast
  show "tq_inv (tq_purge f q)" "tq_non_proposable (tq_purge f q) = tq_non_proposable q"
    "tq_max_size (tq_purge f q) = tq_max_size q"
    using all by blast+
qed

section \<open>Sequences of pool operations\<close>

datatype pool_op =
  OpInsert nat transaction bool u64
| OpErase transaction
| OpFinalized u64
| OpPurge "addr_t \<Rightarrow> u256 option"
| OpMarkKnown h256

fun tq_step :: "pool_op \<Rightarrow> transaction_queue \<Rightarrow> tq_error + transaction_queue" where
  "tq_step (OpInsert now t pr n) q =
     (case tq_insert now t pr n q of Inl e \<Rightarrow> Inl e | Inr r \<Rightarrow> Inr (snd r))"
| "tq_step (OpErase t) q = (case tq_erase t q of Inl e \<Rightarrow> Inl e | Inr r \<Rightarrow> Inr (snd r))"
| "tq_step (OpFinalized b) q = Inr (tq_blockFinalized b q)"
| "tq_step (OpPurge f) q = Inr (tq_purge f q)"
| "tq_step (OpMarkKnown h) q = tq_markTransactionKnown h q"

fun tq_run :: "pool_op list \<Rightarrow> transaction_queue \<Rightarrow> tq_error + transaction_queue" where
  "tq_run [] q = Inr q"
| "tq_run (x # xs) q = (case tq_step x q of Inl e \<Rightarrow> Inl e | Inr q' \<Rightarrow> tq_run xs q')"

text \<open>The transactions an operation hands to the pool, and those the pool holds.\<close>

fun op_trxs :: "pool_op \<Rightarrow> transaction set" where
  "op_trxs (OpInsert now t pr n) = {t}"
| "op_trxs (OpErase t) = {t}"
| "op_trxs _ = {}"

fun op_signed :: "pool_op \<Rightarrow> bool" where
  "op_signed (OpInsert now t pr n) \<longleftrightarrow> pr \<longrightarrow> trx_sender_valid t"
| "op_signed _ \<longleftrightarrow> True"

definition pool_trxs :: "transaction_queue \<Rightarrow> transaction set" where
  "pool_trxs q = {t. (\<exists>h. um_find (tq_queue q) h = Some t) \<or> (\<exists>h n. um_find (tq_non_proposable q) h = Some (n, t))}"

lemma pool_trxs_frames [simp]:
  "pool_trxs (q\<lparr>tq_known := k\<rparr>) = pool_trxs q"
  "pool_trxs (q\<lparr>tq_overflow_time := x\<rparr>) = pool_trxs q"
  "pool_trxs (account_put t q) = pool_trxs q"
  by (simp_all add: pool_trxs_def)

lemma pool_trxs_add: "pool_trxs (addTransaction t pr n q) \<subseteq> insert t (pool_trxs q)"
  by (auto simp: pool_trxs_def addTransaction_def split: if_splits)

lemma pool_trxs_remove: "pool_trxs (snd (removeTransaction t pr q)) \<subseteq> pool_trxs q"
  by (auto simp: pool_trxs_def removeTransaction_def Let_def split: if_splits)

lemma pool_trxs_le:
  assumes "um_find (tq_queue q') \<subseteq>\<^sub>m um_find (tq_queue q)"
    and "um_find (tq_non_proposable q') \<subseteq>\<^sub>m um_find (tq_non_proposable q)"
  shows "pool_trxs q' \<subseteq> pool_trxs q"
proof -
  have "m k = Some v \<Longrightarrow> m \<subseteq>\<^sub>m m' \<Longrightarrow> m' k = Some v" for m m' :: "'k \<rightharpoonup> 'v" and k v
    by (metis domI map_le_def)
  note this[OF _ assms(1)] and map_leD = this[OF _ assms(2)]
  then show ?thesis unfolding pool_trxs_def by blast
qed

lemma pool_trxs_known_insert: "known_insert h q = Inr q' \<Longrightarrow> pool_trxs q' = pool_trxs q"
  by (auto simp: known_insert_def split: option.splits)

lemma pool_trxs_insert_proposable:
  assumes "tq_inv q" and "\<not> tq_contains (trx_hash t) q" and "insert_proposable t n q = Inr (Some q1)"
  shows "pool_trxs q1 \<subseteq> insert t (pool_trxs q)"
proof (rule insert_proposable_cases[OF assms])
  fix old
  let ?q = "addTransaction old False n (snd (removeTransaction old True q))"
  assume old: "um_find (tq_queue q) (trx_hash old) = Some old"
    and q1: "q1 = addTransaction t True 0 (account_put t ?q)"
  have "pool_trxs q1 \<subseteq> insert t (pool_trxs ?q)"
    unfolding q1 using pool_trxs_add[of t True 0 "account_put t ?q"] by simp
  moreover have "pool_trxs ?q \<subseteq> insert old (pool_trxs q)"
    using pool_trxs_add[of old False n "snd (removeTransaction old True q)"] pool_trxs_remove[of old True q]
    by blast
  moreover have "old \<in> pool_trxs q" using old by (auto simp: pool_trxs_def)
  ultimately show ?thesis by blast
qed (use pool_trxs_add[of t True 0 "account_put t q"] pool_trxs_add[of t False n q] in simp_all)

lemma pool_trxs_insert:
  assumes inv: "tq_inv q" and size: "tq_size q \<le> tq_max_size q" and res: "tq_insert now t pr n q = Inr (st, q')"
  shows "pool_trxs q' \<subseteq> insert t (pool_trxs q)"
proof (cases "tq_contains (trx_hash t) q \<or> \<not> pr \<or> insert_proposable t n q = Inr None")
  case True
  then show ?thesis
    using res pool_trxs_known_insert pool_trxs_add[of t False n q]
    by (fastforce simp: tq_insert_def split: if_splits sum.splits)
next
  case False
  then have new: "\<not> tq_contains (trx_hash t) q" by simp
  obtain q1 where q1: "insert_proposable t n q = Inr (Some q1)"
    using insert_proposable_defined[OF inv new, of n] False by blast
  note shape = insert_proposable_shape[OF inv new q1]
  have "tq_size q1 \<le> Suc (tq_max_size q1)" using shape(1,2) size by simp
  from trim_overflow_inv[OF insert_proposable_inv[OF inv new q1] this, of now] obtain q2 where
    q2: "trim_overflow now q1 = Inr q2" "um_find (tq_queue q2) \<subseteq>\<^sub>m um_find (tq_queue q1)"
      "um_find (tq_non_proposable q2) = um_find (tq_non_proposable q1)"
    by blast
  have "pool_trxs q2 \<subseteq> insert t (pool_trxs q)"
    using pool_trxs_le[OF q2(2)] q2(3) pool_trxs_insert_proposable[OF inv new q1] by simp
  moreover have "q' = q\<lparr>tq_overflow_time := now\<rparr> \<or> q' = q2 \<or> known_insert (trx_hash t) q2 = Inr q'"
    using res False q1 q2(1) by (simp add: tq_insert_def split: if_splits sum.splits)
  ultimately show ?thesis using pool_trxs_known_insert[of "trx_hash t" q2 q'] by auto
qed

definition pool_ok :: "transaction set \<Rightarrow> nat \<Rightarrow> transaction_queue \<Rightarrow> bool" where
  "pool_ok U mx q \<longleftrightarrow> tq_inv q \<and> tq_size q \<le> mx \<and> tq_max_size q = mx \<and> pool_trxs q \<subseteq> U"

lemma same_trx_pool:
  assumes inv: "tq_inv q" and "pool_trxs q \<subseteq> U" and inj: "inj_on trx_hash U" and "t \<in> U"
  shows "same_trx t q"
  unfolding same_trx_def
proof (intro allI impI)
  fix x
  assume x: "tq_get (trx_hash t) q = Some x"
  then have "x \<in> pool_trxs q"
    by (auto simp: tq_get_def pool_trxs_def split: option.splits)
  moreover have "trx_hash x = trx_hash t"
    using x inv index_ok_hash[of "acc_find q" "um_find (tq_queue q)" "trx_hash t" x]
    by (auto simp: tq_get_def tq_inv_def tq_pool_def split: option.splits)
  ultimately show "x = t"
    using assms by (blast dest: inj_onD)
qed

lemma pool_step_ok:
  assumes ok: "pool_ok U mx q" and sig: "op_signed x" and "op_trxs x \<subseteq> U" and inj: "inj_on trx_hash U"
  shows "\<exists>q'. tq_step x q = Inr q' \<and> pool_ok U mx q'"
proof (cases x)
  case (OpInsert now t pr n)
  have size: "tq_size q \<le> tq_max_size q" and inv: "tq_inv q" and sgn: "pr \<Longrightarrow> trx_sender_valid t"
    using ok sig OpInsert by (simp_all add: pool_ok_def)
  from tq_insert_inv[of q pr t now n] inv size sgn obtain st q' where
    q': "tq_insert now t pr n q = Inr (st, q')" "tq_inv q'" "tq_size q' \<le> tq_max_size q'"
      "tq_max_size q' = tq_max_size q"
    by blast
  have "pool_trxs q' \<subseteq> U"
    using pool_trxs_insert[OF inv size q'(1)] ok assms(3) OpInsert by (auto simp: pool_ok_def)
  with q' ok OpInsert show ?thesis by (simp add: pool_ok_def)
next
  case (OpErase t)
  have inv: "tq_inv q" using ok by (simp add: pool_ok_def)
  have same: "same_trx t q"
    using same_trx_pool[OF inv _ inj] ok assms(3) OpErase by (simp add: pool_ok_def)
  obtain b q' where q': "tq_erase t q = Inr (b, q')" "tq_inv q'"
    "um_find (tq_queue q') = (um_find (tq_queue q))(trx_hash t := None)"
    "um_find (tq_non_proposable q') = (um_find (tq_non_proposable q))(trx_hash t := None)"
    "tq_max_size q' = tq_max_size q"
    by (rule tq_erase_inv[OF inv same])
  have le: "um_find (tq_queue q') \<subseteq>\<^sub>m um_find (tq_queue q)"
    "um_find (tq_non_proposable q') \<subseteq>\<^sub>m um_find (tq_non_proposable q)"
    unfolding q'(3,4) by (auto simp: map_le_def)
  have "tq_size q' \<le> tq_size q"
    using map_le_card(1)[OF le(1) finite_dom_map_of] tq_size_card[OF inv] tq_size_card[OF q'(2)] by simp
  with pool_trxs_le[OF le] q' ok OpErase show ?thesis by (simp add: pool_ok_def) blast
next
  case (OpFinalized b)
  have inv: "tq_inv q" using ok by (simp add: pool_ok_def)
  note fin = tq_blockFinalized_inv[OF inv, of b]
  have "um_find (tq_non_proposable (tq_blockFinalized b q)) \<subseteq>\<^sub>m um_find (tq_non_proposable q)"
    by (auto simp: map_le_def fin(4) split: option.splits if_splits)
  then have "pool_trxs (tq_blockFinalized b q) \<subseteq> pool_trxs q"
    by (intro pool_trxs_le) (simp add: fin(2))
  with fin ok OpFinalized show ?thesis by (auto simp: pool_ok_def tq_size_def)
next
  case (OpPurge f)
  have inv: "tq_inv q" using ok by (simp add: pool_ok_def)
  note pur = tq_purge_inv[OF inv, of f]
  have le: "um_find (tq_queue (tq_purge f q)) \<subseteq>\<^sub>m um_find (tq_queue q)"
    unfolding map_le_def dom_def using pur(4) by (metis (mono_tags, lifting) mem_Collect_eq not_None_eq)
  have "tq_size (tq_purge f q) \<le> tq_size q"
    using map_le_card(1)[OF le finite_dom_map_of] tq_size_card[OF inv] tq_size_card[OF pur(1)] by simp
  moreover have "pool_trxs (tq_purge f q) \<subseteq> pool_trxs q"
    by (rule pool_trxs_le[OF le]) (simp add: pur(2))
  ultimately show ?thesis using pur ok OpPurge by (auto simp: pool_ok_def)
next
  case (OpMarkKnown h)
  have inv: "tq_inv q" using ok by (simp add: pool_ok_def)
  obtain known where "known_insert h q = Inr (q\<lparr>tq_known := known\<rparr>)" "tq_inv (q\<lparr>tq_known := known\<rparr>)"
    by (rule known_insert_inv[OF inv])
  with ok OpMarkKnown show ?thesis by (simp add: pool_ok_def tq_markTransactionKnown_def)
qed

lemma tq_run_ok:
  assumes "pool_ok U mx q" and "inj_on trx_hash U"
    and "\<forall>x \<in> set xs. op_signed x \<and> op_trxs x \<subseteq> U"
  shows "\<exists>q'. tq_run xs q = Inr q' \<and> pool_ok U mx q'"
  using assms
proof (induction xs arbitrary: q)
  case (Cons x xs)
  then obtain q1 where "tq_step x q = Inr q1" "pool_ok U mx q1"
    using pool_step_ok[of U mx q x] by auto
  with Cons.IH[of q1] Cons.prems show ?case by simp
qed simp


text \<open>A run with an overflow of a one-transaction pool.\<close>

definition sample_ops :: "pool_op list" where
  "sample_ops =
     [OpInsert 1 (sample_trx 1 0 5) True 0, OpInsert 2 (sample_trx 2 0 7) True 0,
      OpErase (sample_trx 1 0 5), OpFinalized 12]"


text \<open>
  C25: \<open>insert\<close> never reaches an assertion or an empty deque on a consistent pool, and the status
  it returns is the truth: \<open>Known\<close> exactly for a transaction already pooled and then nothing
  changes, \<open>Inserted\<close> and \<open>InsertedNonProposable\<close> leave it pooled, \<open>Overflow\<close> leaves it out.
  The pool stays consistent and within \<open>max_size\<close>, holding no transaction but the old ones and
  the new one.
\<close>

theorem tq_insert_spec:
  assumes "tq_inv q" and "tq_size q \<le> tq_max_size q" and "pr \<longrightarrow> trx_sender_valid t"
  shows "\<exists>st q'. tq_insert now t pr n q = Inr (st, q') \<and> tq_inv q' \<and> tq_size q' \<le> tq_max_size q'
           \<and> status_ok (trx_hash t) st q q' \<and> pool_trxs q' \<subseteq> insert t (pool_trxs q)"
proof -
  from tq_insert_inv[of q pr t now n] assms obtain st q' where
    "tq_insert now t pr n q = Inr (st, q')" "tq_inv q'" "tq_size q' \<le> tq_max_size q'"
      "status_ok (trx_hash t) st q q'"
    by blast
  with pool_trxs_insert[OF assms(1,2)] show ?thesis by blast
qed

theorem tq_insert_spec_witness:
  "\<exists>st q'. tq_insert 3 (sample_trx 2 1 4) True 0 sample_pool = Inr (st, q') \<and> tq_inv q'
     \<and> tq_size q' \<le> tq_max_size q' \<and> status_ok (trx_hash (sample_trx 2 1 4)) st sample_pool q'
     \<and> pool_trxs q' \<subseteq> insert (sample_trx 2 1 4) (pool_trxs sample_pool)"
  by (rule tq_insert_spec[OF sample_pool_inv])
     (simp_all add: sample_pool_defs tq_size_def)

text \<open>
  C26: \<open>purge\<close> keeps exactly the proposable transactions whose nonce is not below the nonce of
  their sender's account in the final chain (accounts the chain does not know keep all), touches no
  non-proposable transaction, and leaves the pool consistent.
\<close>

theorem tq_purge_spec:
  assumes "tq_inv q"
  shows "tq_inv (tq_purge f q) \<and> tq_non_proposable (tq_purge f q) = tq_non_proposable q
     \<and> (\<forall>h t. um_find (tq_queue (tq_purge f q)) h = Some t \<longleftrightarrow>
           um_find (tq_queue q) h = Some t \<and> (\<forall>n. f (trx_sender t) = Some n \<longrightarrow> n \<le> trx_nonce t))"
  using tq_purge_inv[OF assms] by blast

theorem tq_purge_spec_witness:
  "um_find (tq_queue (tq_purge (\<lambda>_. Some 1) sample_pool)) 1000 = None
   \<and> um_find (tq_queue (tq_purge (\<lambda>_. Some 1) sample_pool)) 1001 = Some (sample_trx 1 1 9)"
proof -
  note spec = tq_purge_spec[OF sample_pool_inv, of "\<lambda>_. Some 1"]
  have stored: "um_find (tq_queue sample_pool) 1000 = Some (sample_trx 1 0 5)"
    "um_find (tq_queue sample_pool) 1001 = Some (sample_trx 1 1 9)"
    by (simp_all add: sample_pool_defs)
  have "um_find (tq_queue (tq_purge (\<lambda>_. Some 1) sample_pool)) 1000 \<noteq> Some t" for t
    using spec stored(1) by (auto simp: sample_trx_def)
  moreover have "um_find (tq_queue (tq_purge (\<lambda>_. Some 1) sample_pool)) 1001 = Some (sample_trx 1 1 9)"
    using spec stored(2) by (simp add: sample_trx_def)
  ultimately show ?thesis using not_Some_eq by blast
qed

section \<open>The price that gets a transaction into a block\<close>

definition gas_from :: "u256 \<Rightarrow> (u256, u64) omap \<Rightarrow> nat" where
  "gas_from p m = sum_list (map (\<lambda>e. if p \<le> fst e then unat (snd e) else 0) m)"

lemma gas_from_Cons [simp]: "gas_from p (e # m) = (if p \<le> fst e then unat (snd e) else 0) + gas_from p m"
  by (simp add: gas_from_def)

lemma gas_from_rev [simp]: "gas_from p (rev m) = gas_from p m"
  by (simp add: gas_from_def rev_map[symmetric])

lemma gas_from_Nil [simp]: "gas_from p [] = 0"
  by (simp add: gas_from_def)

lemma gas_from_below: "\<forall>e \<in> set m. fst e < p \<Longrightarrow> gas_from p m = 0"
  by (induction m) auto

lemma gas_from_all: "\<forall>e \<in> set m. p \<le> fst e \<Longrightarrow> gas_from p m = sum_list (map (unat \<circ> snd) m)"
  by (induction m) auto

lemma min_price_loop_spec:
  fixes limit acc :: u64
  assumes "sorted_wrt (\<lambda>x y. fst y < fst x) es" and "\<forall>e \<in> set es. fst e < -1"
    and "unat acc + sum_list (map (unat \<circ> snd) es) < 2 ^ 64" and "acc < limit"
  shows "unat acc + gas_from (min_price_loop limit acc es) es < unat limit
     \<and> (min_price_loop limit acc es = 1
        \<or> unat limit \<le> unat acc + gas_from (min_price_loop limit acc es - 1) es)"
  using assms
proof (induction limit acc es rule: min_price_loop.induct)
  case (1 limit acc)
  then show ?case by (simp add: word_less_nat_alt)
next
  case (2 limit acc price gas es)
  have below: "\<forall>e \<in> set es. fst e < price" and price: "price < price + 1"
    using "2.prems"(1,2) by (auto intro: less_word_Suc)
  have sum: "unat (acc + gas) = unat acc + unat gas"
    using "2.prems"(3) by (intro unat_add_lem[THEN iffD1]) simp
  show ?case
  proof (cases "limit \<le> acc + gas")
    case True
    have "\<forall>e \<in> set es. fst e < price + 1"
      using below price by (meson less_trans)
    with True below price sum "2.prems"(4) show ?thesis
      by (simp add: gas_from_below word_less_nat_alt word_le_nat_alt not_le)
  next
    case False
    let ?r = "min_price_loop limit (acc + gas) es"
    have IH: "unat (acc + gas) + gas_from ?r es < unat limit"
      "?r = 1 \<or> unat limit \<le> unat (acc + gas) + gas_from (?r - 1) es"
      using "2.IH"[OF False] "2.prems" False sum by auto
    have "?r - 1 \<le> price" if "?r \<noteq> 1"
    proof (rule ccontr)
      assume "\<not> ?r - 1 \<le> price"
      then have "\<forall>e \<in> set es. fst e < ?r - 1" using below by fastforce
      with IH that show False by (simp add: gas_from_below)
    qed
    with IH False sum show ?thesis by auto
  qed
qed

text \<open>
  C27: \<open>getMinGasPriceForBlockInclusion(limit)\<close> is the least price of at least 1 at which a new
  transaction is included: the pooled transactions paying that much or more use less than
  \<open>limit\<close> gas, and at one less they use \<open>limit\<close> or more, unless the price is already 1.
  (Stated where the gas total fits 64 bits and no pooled price is the largest 256-bit value.)
\<close>

theorem min_gas_price_spec:
  assumes "tq_inv q" and "0 < limit" and "sum_list (map (unat \<circ> snd) (tq_gas_prices q)) < 2 ^ 64"
    and "\<forall>e \<in> set (tq_gas_prices q). fst e < -1"
  shows "gas_from (tq_getMinGasPriceForBlockInclusion limit q) (tq_gas_prices q) < unat limit
     \<and> (tq_getMinGasPriceForBlockInclusion limit q = 1
        \<or> unat limit \<le> gas_from (tq_getMinGasPriceForBlockInclusion limit q - 1) (tq_gas_prices q))"
proof -
  have "om_inv (tq_gas_prices q)"
    using assms(1) by (simp add: tq_inv_def tq_sums_def)
  then have "sorted_wrt (\<lambda>x y. fst y < fst x) (rev (tq_gas_prices q))"
    by (simp add: om_inv_def sorted_wrt_rev sorted_wrt_map)
  from min_price_loop_spec[OF this, of 0 limit] assms show ?thesis
    by (simp add: tq_getMinGasPriceForBlockInclusion_def rev_map[symmetric])
qed

theorem min_gas_price_spec_witness:
  "gas_from (tq_getMinGasPriceForBlockInclusion 40000 sample_pool) (tq_gas_prices sample_pool) < unat (40000::u64)
     \<and> (tq_getMinGasPriceForBlockInclusion 40000 sample_pool = 1
        \<or> unat (40000::u64) \<le> gas_from (tq_getMinGasPriceForBlockInclusion 40000 sample_pool - 1)
             (tq_gas_prices sample_pool))"
  by (rule min_gas_price_spec[OF sample_pool_inv]) (simp_all add: sample_pool_defs)

end
