(* ===== verification/Verified_Votes.thy ===== *)
theory Verified_Votes
  imports Prelude
begin

text \<open>
  PBFT votes (\<open>libraries/types/vote\<close>) and the store of verified votes,
  \<open>core_libs/consensus/src/vote_manager/verified_votes.cpp\<close>: votes filed by period, round, step and
  voted block with the weight of every voted block, the voters seen per step, and the blocks that
  reached 2t+1. Every method holds the store's mutex, so a method is one step. Signatures and VRF
  proofs are not part of a stored vote's model: hash, voter and weight are fields.
\<close>

section \<open>Votes\<close>

datatype PbftVoteTypes = invalid_vote | propose_vote | soft_vote | cert_vote | next_vote

record pbft_vote =
  v_hash :: h256
  v_block :: h256
  v_period :: pbft_period
  v_round :: pbft_round
  v_step :: pbft_step
  v_voter :: addr_t
  v_weight :: "u64 option"

definition step_type :: "pbft_step \<Rightarrow> PbftVoteTypes" where
  "step_type s =
     (if s = 0 then invalid_vote
      else if s = 1 then propose_vote
      else if s = 2 then soft_vote
      else if s = 3 then cert_vote
      else next_vote)"

definition v_type :: "pbft_vote \<Rightarrow> PbftVoteTypes" where
  "v_type v = step_type (v_step v)"

text \<open>The checked constructor of \<open>VrfPbftMsg\<close>: \<open>None\<close> where one of its asserts fails.\<close>

definition VrfPbftMsg ::
  "PbftVoteTypes \<Rightarrow> pbft_period \<Rightarrow> pbft_round \<Rightarrow> pbft_step \<Rightarrow> (pbft_period \<times> pbft_round \<times> pbft_step) option" where
  "VrfPbftMsg ty period round step =
     (if ty = step_type step \<and> ty \<noteq> invalid_vote then Some (period, round, step) else None)"

definition kNullBlockHash :: h256 where
  "kNullBlockHash = 0"

section \<open>The store\<close>

datatype TwoTPlusOneVotedBlockType = SoftVotedBlock | CertVotedBlock | NextVotedBlock | NextVotedNullBlock

record voted_block =
  vb_hash :: h256
  vb_step :: pbft_step

record votes_with_weight =
  vw_weight :: u64
  vw_votes :: "(h256, pbft_vote) umap"

record step_votes =
  sv_votes :: "(h256, votes_with_weight) umap"
  sv_unique_voters :: "(addr_t, pbft_vote \<times> pbft_vote option) umap"

record round_verified_votes =
  rv_two_t_plus_one :: "(TwoTPlusOneVotedBlockType, voted_block) umap"
  rv_step_votes :: "(pbft_step, step_votes) omap"
  rv_t_plus_one_step :: pbft_step

type_synonym verified_votes = "(pbft_period, (pbft_round, round_verified_votes) omap) omap"

datatype vv_error = MissingWeight | MissingVotedValue

abbreviation empty_round :: round_verified_votes where
  "empty_round \<equiv> \<lparr>rv_two_t_plus_one = [], rv_step_votes = [], rv_t_plus_one_step = 0\<rparr>"

abbreviation empty_step :: step_votes where
  "empty_step \<equiv> \<lparr>sv_votes = [], sv_unique_voters = []\<rparr>"

abbreviation empty_value :: votes_with_weight where
  "empty_value \<equiv> \<lparr>vw_weight = 0, vw_votes = []\<rparr>"

text \<open>
  \<open>size\<close>: the inner \<open>std::accumulate\<close> starts from an \<open>int\<close>, so the count of one step is cut to 32
  bits and read as signed before it is added.
\<close>

definition step_size :: "step_votes \<Rightarrow> u32" where
  "step_size sv =
     fold (\<lambda>e (value :: u32). ucast (scast value + of_nat (length (vw_votes (snd e))) :: u64)) (sv_votes sv) 0"

definition vv_size :: "verified_votes \<Rightarrow> u64" where
  "vv_size vv =
     fold (\<lambda>period size. fold (\<lambda>round size. fold (\<lambda>step size. size + scast (step_size (snd step)))
       (rv_step_votes (snd round)) size) (snd period) size) vv 0"

definition vv_votes :: "verified_votes \<Rightarrow> pbft_vote list" where
  "vv_votes vv =
     concat (map (\<lambda>period. concat (map (\<lambda>round. concat (map (\<lambda>step. concat (map (\<lambda>value.
       map snd (vw_votes (snd value))) (sv_votes (snd step)))) (rv_step_votes (snd round)))) (snd period))) vv)"

definition getPeriodVotes ::
  "verified_votes \<Rightarrow> pbft_period \<Rightarrow> (pbft_round, round_verified_votes) omap option" where
  "getPeriodVotes vv period = um_find vv period"

definition getRoundVotes ::
  "verified_votes \<Rightarrow> pbft_period \<Rightarrow> pbft_round \<Rightarrow> round_verified_votes option" where
  "getRoundVotes vv period round =
     (case um_find vv period of None \<Rightarrow> None | Some m \<Rightarrow> um_find m round)"

definition getStepVotes ::
  "verified_votes \<Rightarrow> pbft_period \<Rightarrow> pbft_round \<Rightarrow> pbft_step \<Rightarrow> step_votes option" where
  "getStepVotes vv period round step =
     (case um_find vv period of
        None \<Rightarrow> None
      | Some m \<Rightarrow>
          (case um_find m round of
             None \<Rightarrow> None
           | Some rv \<Rightarrow> um_find (rv_step_votes rv) step))"

definition getTwoTPlusOneVotedBlock ::
  "verified_votes \<Rightarrow> pbft_period \<Rightarrow> pbft_round \<Rightarrow> TwoTPlusOneVotedBlockType \<Rightarrow> voted_block option" where
  "getTwoTPlusOneVotedBlock vv period round ty =
     (case um_find vv period of
        None \<Rightarrow> None
      | Some m \<Rightarrow>
          (case um_find m round of
             None \<Rightarrow> None
           | Some rv \<Rightarrow> um_find (rv_two_t_plus_one rv) ty))"

text \<open>\<open>Inl MissingVotedValue\<close> is the \<open>assert(false)\<close>.\<close>

definition getTwoTPlusOneVotedBlockVotes ::
  "verified_votes \<Rightarrow> pbft_period \<Rightarrow> pbft_round \<Rightarrow> TwoTPlusOneVotedBlockType \<Rightarrow> vv_error + pbft_vote list" where
  "getTwoTPlusOneVotedBlockVotes vv period round ty =
     (case getTwoTPlusOneVotedBlock vv period round ty of
        None \<Rightarrow> Inr []
      | Some voted \<Rightarrow>
          (case getStepVotes vv period round (vb_step voted) of
             None \<Rightarrow> Inr []
           | Some sv \<Rightarrow>
               (case um_find (sv_votes sv) (vb_hash voted) of
                  None \<Rightarrow> Inl MissingVotedValue
                | Some vw \<Rightarrow> Inr (map snd (vw_votes vw)))))"

text \<open>Writing through the iterators found for a period and round.\<close>

definition set_round ::
  "pbft_period \<Rightarrow> pbft_round \<Rightarrow> round_verified_votes \<Rightarrow> verified_votes \<Rightarrow> verified_votes" where
  "set_round period round rv vv =
     om_put period (om_put round rv (um_get_or [] vv period)) vv"

definition setNetworkTPlusOneStep :: "pbft_vote \<Rightarrow> verified_votes \<Rightarrow> verified_votes" where
  "setNetworkTPlusOneStep v vv =
     (case getRoundVotes vv (v_period v) (v_round v) of
        None \<Rightarrow> vv
      | Some rv \<Rightarrow> set_round (v_period v) (v_round v) (rv\<lparr>rv_t_plus_one_step := v_step v\<rparr>) vv)"

definition insertTwoTPlusOneVotedBlock ::
  "TwoTPlusOneVotedBlockType \<Rightarrow> pbft_vote \<Rightarrow> verified_votes \<Rightarrow> verified_votes" where
  "insertTwoTPlusOneVotedBlock ty v vv =
     (case getRoundVotes vv (v_period v) (v_round v) of
        None \<Rightarrow> vv
      | Some rv \<Rightarrow>
          if um_find (rv_two_t_plus_one rv) ty = None then
            set_round (v_period v) (v_round v)
              (rv\<lparr>rv_two_t_plus_one :=
                   um_put ty \<lparr>vb_hash = v_block v, vb_step = v_step v\<rparr> (rv_two_t_plus_one rv)\<rparr>) vv
          else vv)"

text \<open>
  The decision of \<open>insertUniqueVoter\<close> for a voter already seen in the step: the new entry of the
  voter and the conflicting vote that is returned, if any.
\<close>

definition check_voter ::
  "pbft_vote \<Rightarrow> pbft_vote \<times> pbft_vote option \<Rightarrow> (pbft_vote \<times> pbft_vote option) \<times> pbft_vote option" where
  "check_voter v e =
     (case e of (v1, v2) \<Rightarrow>
        if v_hash v1 = v_hash v then (e, None)
        else if v_type v = next_vote \<and> v_step v mod 2 \<noteq> 0 \<and> v2 = None
             \<and> ((v_block v1 = kNullBlockHash \<and> v_block v \<noteq> kNullBlockHash)
                \<or> (v_block v1 \<noteq> kNullBlockHash \<and> v_block v = kNullBlockHash))
        then ((v1, Some v), None)
        else if v_type v = next_vote \<and> v_step v mod 2 \<noteq> 0 \<and> map_option v_hash v2 = Some (v_hash v)
        then (e, None)
        else (case v2 of
                Some w \<Rightarrow> if v_hash v \<noteq> v_hash w then (e, Some w) else (e, Some v1)
              | None \<Rightarrow> (e, Some v1)))"

definition insertUniqueVoter :: "pbft_vote \<Rightarrow> verified_votes \<Rightarrow> pbft_vote option \<times> verified_votes" where
  "insertUniqueVoter v vv =
     (case getRoundVotes vv (v_period v) (v_round v) of
        None \<Rightarrow> (None, vv)
      | Some rv \<Rightarrow>
          (case um_find (rv_step_votes rv) (v_step v) of
             None \<Rightarrow> (None, vv)
           | Some sv \<Rightarrow>
               let (e, res) = (case um_find (sv_unique_voters sv) (v_voter v) of
                                 None \<Rightarrow> ((v, None), None)
                               | Some e \<Rightarrow> check_voter v e);
                   sv' = sv\<lparr>sv_unique_voters := um_put (v_voter v) e (sv_unique_voters sv)\<rparr>;
                   rv' = rv\<lparr>rv_step_votes := om_put (v_step v) sv' (rv_step_votes rv)\<rparr>
               in (res, set_round (v_period v) (v_round v) rv' vv)))"

text \<open>\<open>insertVotedValue\<close> creates the missing levels first; dereferencing a missing weight is \<open>Inl\<close>.\<close>

definition insertVotedValue ::
  "pbft_vote \<Rightarrow> verified_votes \<Rightarrow> vv_error + votes_with_weight option \<times> verified_votes" where
  "insertVotedValue v vv =
     (let m = um_get_or [] vv (v_period v);
          rv = um_get_or empty_round m (v_round v);
          sv = um_get_or empty_step (rv_step_votes rv) (v_step v);
          vw = um_get_or empty_value (sv_votes sv) (v_block v);
          put = (\<lambda>vw. set_round (v_period v) (v_round v)
                        (rv\<lparr>rv_step_votes := om_put (v_step v)
                             (sv\<lparr>sv_votes := um_put (v_block v) vw (sv_votes sv)\<rparr>) (rv_step_votes rv)\<rparr>) vv)
      in if um_find (vw_votes vw) (v_hash v) \<noteq> None then Inr (None, put vw)
         else
           (case v_weight v of
              None \<Rightarrow> Inl MissingWeight
            | Some w \<Rightarrow>
                let vw' = vw\<lparr>vw_votes := um_put (v_hash v) v (vw_votes vw), vw_weight := vw_weight vw + w\<rparr>
                in Inr (Some vw', put vw')))"

definition cleanupVotesByPeriod :: "pbft_period \<Rightarrow> verified_votes \<Rightarrow> verified_votes" where
  "cleanupVotesByPeriod pbft_period vv = dropWhile (\<lambda>e. fst e < pbft_period) vv"

section \<open>The store's invariant\<close>

definition weight_of :: "pbft_vote \<Rightarrow> u64" where
  "weight_of v = (case v_weight v of None \<Rightarrow> 0 | Some w \<Rightarrow> w)"

definition vote_at :: "pbft_period \<Rightarrow> pbft_round \<Rightarrow> pbft_step \<Rightarrow> pbft_vote \<Rightarrow> bool" where
  "vote_at p r s v \<longleftrightarrow> v_period v = p \<and> v_round v = r \<and> v_step v = s"

text \<open>A voted block: its votes are filed under their hash, vote for it, and their weights add up.\<close>

definition value_ok :: "pbft_period \<Rightarrow> pbft_round \<Rightarrow> pbft_step \<Rightarrow> h256 \<Rightarrow> votes_with_weight \<Rightarrow> bool" where
  "value_ok p r s b vw \<longleftrightarrow> um_inv (vw_votes vw)
     \<and> vw_weight vw = sum_list (map (\<lambda>e. weight_of (snd e)) (vw_votes vw))
     \<and> (\<forall>k v. um_find (vw_votes vw) k = Some v \<longrightarrow>
          vote_at p r s v \<and> v_hash v = k \<and> v_block v = b \<and> v_weight v \<noteq> None)"

text \<open>
  A voter of a step: one vote, or the two next votes of an odd step of which exactly one is for
  the null block.
\<close>

definition voter_ok ::
  "pbft_period \<Rightarrow> pbft_round \<Rightarrow> pbft_step \<Rightarrow> addr_t \<Rightarrow> pbft_vote \<times> pbft_vote option \<Rightarrow> bool" where
  "voter_ok p r s a e \<longleftrightarrow>
     (case e of (v1, v2) \<Rightarrow>
        vote_at p r s v1 \<and> v_voter v1 = a
        \<and> (case v2 of
             None \<Rightarrow> True
           | Some w \<Rightarrow> vote_at p r s w \<and> v_voter w = a \<and> v_hash w \<noteq> v_hash v1 \<and> step_type s = next_vote
                \<and> s mod 2 \<noteq> 0 \<and> (v_block v1 = kNullBlockHash) \<noteq> (v_block w = kNullBlockHash)))"

definition step_ok :: "pbft_period \<Rightarrow> pbft_round \<Rightarrow> pbft_step \<Rightarrow> step_votes \<Rightarrow> bool" where
  "step_ok p r s sv \<longleftrightarrow> um_inv (sv_votes sv) \<and> um_inv (sv_unique_voters sv)
     \<and> (\<forall>b vw. um_find (sv_votes sv) b = Some vw \<longrightarrow> value_ok p r s b vw)
     \<and> (\<forall>a e. um_find (sv_unique_voters sv) a = Some e \<longrightarrow> voter_ok p r s a e)"

text \<open>A round: every block recorded as 2t+1 voted still has its voted value.\<close>

definition round_ok :: "pbft_period \<Rightarrow> pbft_round \<Rightarrow> round_verified_votes \<Rightarrow> bool" where
  "round_ok p r rv \<longleftrightarrow> om_inv (rv_step_votes rv) \<and> um_inv (rv_two_t_plus_one rv)
     \<and> (\<forall>s sv. um_find (rv_step_votes rv) s = Some sv \<longrightarrow> step_ok p r s sv)
     \<and> (\<forall>ty vb. um_find (rv_two_t_plus_one rv) ty = Some vb \<longrightarrow>
          (\<exists>sv vw. um_find (rv_step_votes rv) (vb_step vb) = Some sv
                 \<and> um_find (sv_votes sv) (vb_hash vb) = Some vw))"

definition vv_inv :: "verified_votes \<Rightarrow> bool" where
  "vv_inv vv \<longleftrightarrow> om_inv vv
     \<and> (\<forall>p m. um_find vv p = Some m \<longrightarrow> om_inv m \<and> (\<forall>r rv. um_find m r = Some rv \<longrightarrow> round_ok p r rv))"

lemma vv_inv_empty [simp]: "vv_inv []"
  by (simp add: vv_inv_def)

lemma round_ok_empty [simp]: "round_ok p r empty_round"
  by (simp add: round_ok_def)

lemma step_ok_empty [simp]: "step_ok p r s empty_step"
  by (simp add: step_ok_def)

lemma value_ok_empty [simp]: "value_ok p r s b empty_value"
  by (simp add: value_ok_def)

lemma vv_inv_round: "vv_inv vv \<Longrightarrow> getRoundVotes vv p r = Some rv \<Longrightarrow> round_ok p r rv"
  by (auto simp: vv_inv_def getRoundVotes_def split: option.splits)

lemma getStepVotes_round:
  "getStepVotes vv p r s =
     (case getRoundVotes vv p r of None \<Rightarrow> None | Some rv \<Rightarrow> um_find (rv_step_votes rv) s)"
  by (auto simp: getStepVotes_def getRoundVotes_def split: option.splits)

lemma getTwoTPlusOneVotedBlock_round:
  "getTwoTPlusOneVotedBlock vv p r ty =
     (case getRoundVotes vv p r of None \<Rightarrow> None | Some rv \<Rightarrow> um_find (rv_two_t_plus_one rv) ty)"
  by (auto simp: getTwoTPlusOneVotedBlock_def getRoundVotes_def split: option.splits)

lemma getRoundVotes_set_round:
  assumes "vv_inv vv"
  shows "getRoundVotes (set_round p r rv vv) p' r' =
           (if p' = p \<and> r' = r then Some rv else getRoundVotes vv p' r')"
proof -
  have "om_inv vv" and "om_inv (um_get_or [] vv p)"
    using assms by (auto simp: vv_inv_def um_get_or_def split: option.splits)
  then show ?thesis
    by (auto simp: getRoundVotes_def set_round_def um_get_or_def split: option.splits)
qed

lemma vv_inv_set_round:
  assumes inv: "vv_inv vv" and rv: "round_ok p r rv"
  shows "vv_inv (set_round p r rv vv)"
proof -
  have om: "om_inv vv" "om_inv (um_get_or [] vv p)"
    using inv by (auto simp: vv_inv_def um_get_or_def split: option.splits)
  have rest: "um_find (um_get_or [] vv p) r' = Some x \<Longrightarrow> round_ok p r' x" for r' x
    using inv by (auto simp: vv_inv_def um_get_or_def split: option.splits)
  show ?thesis
    unfolding vv_inv_def set_round_def
  proof (intro conjI allI impI)
    show "om_inv (om_put p (om_put r rv (um_get_or [] vv p)) vv)" using om by simp
    fix q m
    assume m: "um_find (om_put p (om_put r rv (um_get_or [] vv p)) vv) q = Some m"
    show "om_inv m"
      using m om inv by (auto simp: vv_inv_def split: if_splits)
    fix r' x
    assume "um_find m r' = Some x"
    with m om rest rv inv show "round_ok q r' x"
      by (auto simp: vv_inv_def split: if_splits)
  qed
qed

lemma step_ok_get:
  assumes "round_ok p r rv"
  shows "step_ok p r s (um_get_or empty_step (rv_step_votes rv) s)"
  using assms by (auto simp: round_ok_def um_get_or_def split: option.splits)

lemma value_ok_get:
  assumes "step_ok p r s sv"
  shows "value_ok p r s b (um_get_or empty_value (sv_votes sv) b)"
  using assms by (auto simp: step_ok_def um_get_or_def split: option.splits)

lemma round_ok_get:
  assumes "vv_inv vv"
  shows "round_ok p r (um_get_or empty_round (um_get_or [] vv p) r)"
  using assms by (auto simp: vv_inv_def um_get_or_def split: option.splits)

lemma round_ok_put_step:
  assumes rv: "round_ok p r rv" and sv: "step_ok p r s sv"
    and keep: "\<And>old b vw. um_find (rv_step_votes rv) s = Some old \<Longrightarrow> um_find (sv_votes old) b = Some vw \<Longrightarrow>
       um_find (sv_votes sv) b \<noteq> None"
  shows "round_ok p r (rv\<lparr>rv_step_votes := om_put s sv (rv_step_votes rv)\<rparr>)"
proof -
  have om: "om_inv (rv_step_votes rv)" using rv by (simp add: round_ok_def)
  have "\<exists>sv' vw. (if vb_step vb = s then Some sv else um_find (rv_step_votes rv) (vb_step vb)) = Some sv'
      \<and> um_find (sv_votes sv') (vb_hash vb) = Some vw"
    if vb: "um_find (rv_two_t_plus_one rv) ty = Some vb" for ty vb
  proof -
    obtain sv' vw where "um_find (rv_step_votes rv) (vb_step vb) = Some sv'"
      "um_find (sv_votes sv') (vb_hash vb) = Some vw"
      using rv vb unfolding round_ok_def by blast
    with keep show ?thesis by (cases "vb_step vb = s") auto
  qed
  with rv sv om show ?thesis
    by (auto simp: round_ok_def)
qed


section \<open>Every operation keeps the invariant\<close>

lemma setNetworkTPlusOneStep_inv: "vv_inv vv \<Longrightarrow> vv_inv (setNetworkTPlusOneStep v vv)"
  by (auto simp: setNetworkTPlusOneStep_def round_ok_def split: option.splits
      dest: vv_inv_round intro!: vv_inv_set_round)

lemma insertTwoTPlusOneVotedBlock_inv:
  assumes inv: "vv_inv vv" and sv: "getStepVotes vv (v_period v) (v_round v) (v_step v) = Some sv"
    and vw: "um_find (sv_votes sv) (v_block v) = Some vw"
  shows "vv_inv (insertTwoTPlusOneVotedBlock ty v vv)"
proof -
  obtain rv where rv: "getRoundVotes vv (v_period v) (v_round v) = Some rv"
    "um_find (rv_step_votes rv) (v_step v) = Some sv"
    using sv by (auto simp: getStepVotes_round split: option.splits)
  note ok = vv_inv_round[OF inv rv(1)]
  have "round_ok (v_period v) (v_round v)
      (rv\<lparr>rv_two_t_plus_one := um_put ty \<lparr>vb_hash = v_block v, vb_step = v_step v\<rparr> (rv_two_t_plus_one rv)\<rparr>)"
    using ok rv(2) vw by (simp add: round_ok_def)
  with inv rv show ?thesis
    by (auto simp: insertTwoTPlusOneVotedBlock_def intro: vv_inv_set_round)
qed

lemma check_voter_ok:
  assumes "voter_ok p r s a e" and "vote_at p r s v" and "v_voter v = a"
  shows "voter_ok p r s a (fst (check_voter v e))"
  using assms
  by (auto simp: voter_ok_def check_voter_def v_type_def vote_at_def split: prod.splits option.splits)

lemma insertUniqueVoter_inv:
  assumes inv: "vv_inv vv"
  shows "vv_inv (snd (insertUniqueVoter v vv))"
proof (cases "getStepVotes vv (v_period v) (v_round v) (v_step v)")
  case None
  with inv show ?thesis
    by (auto simp: insertUniqueVoter_def getStepVotes_round split: option.splits)
next
  case (Some sv)
  then obtain rv where rv: "getRoundVotes vv (v_period v) (v_round v) = Some rv"
    "um_find (rv_step_votes rv) (v_step v) = Some sv"
    by (auto simp: getStepVotes_round split: option.splits)
  define e where "e = fst (case um_find (sv_unique_voters sv) (v_voter v) of
                                 None \<Rightarrow> ((v, None), None)
                               | Some e \<Rightarrow> check_voter v e)"
  let ?sv = "sv\<lparr>sv_unique_voters := um_put (v_voter v) e (sv_unique_voters sv)\<rparr>"
  note ok = vv_inv_round[OF inv rv(1)]
  have sv: "step_ok (v_period v) (v_round v) (v_step v) sv"
    using ok rv(2) by (simp add: round_ok_def)
  have "voter_ok (v_period v) (v_round v) (v_step v) (v_voter v) e"
  proof (cases "um_find (sv_unique_voters sv) (v_voter v)")
    case None
    then show ?thesis by (simp add: e_def voter_ok_def vote_at_def)
  next
    case (Some old)
    with sv have "voter_ok (v_period v) (v_round v) (v_step v) (v_voter v) old"
      unfolding step_ok_def by blast
    from check_voter_ok[OF this] Some show ?thesis by (simp add: e_def vote_at_def)
  qed
  with sv have "step_ok (v_period v) (v_round v) (v_step v) ?sv"
    unfolding step_ok_def by auto
  from round_ok_put_step[OF ok this] rv(2)
  have "round_ok (v_period v) (v_round v) (rv\<lparr>rv_step_votes := om_put (v_step v) ?sv (rv_step_votes rv)\<rparr>)"
    by simp
  from vv_inv_set_round[OF inv this] rv show ?thesis
    by (simp add: insertUniqueVoter_def e_def Let_def split_def)
qed

lemma cleanup_find:
  fixes m :: "('k::linorder, 'v) omap"
  assumes "om_inv m"
  shows "um_find (dropWhile (\<lambda>e. fst e < k) m) x = (if x < k then None else um_find m x)"
  using assms
proof (induction m)
  case (Cons e m)
  have "\<forall>q \<in> set m. fst e < fst q" using Cons.prems by simp
  then have "um_find m x = None" if "x \<le> fst e"
    using that by (force simp: map_of_eq_None_iff)
  with Cons show ?case by auto
qed simp

lemma om_inv_dropWhile: "om_inv m \<Longrightarrow> om_inv (dropWhile P m)"
  by (induction m) auto

lemma cleanupVotesByPeriod_inv: "vv_inv vv \<Longrightarrow> vv_inv (cleanupVotesByPeriod p vv)"
  unfolding vv_inv_def cleanupVotesByPeriod_def
  by (auto simp: om_inv_dropWhile cleanup_find split: if_splits)

subsection \<open>insertVotedValue\<close>

text \<open>The value a vote belongs to.\<close>

definition value_at :: "verified_votes \<Rightarrow> pbft_vote \<Rightarrow> votes_with_weight" where
  "value_at vv v =
     (let m = um_get_or [] vv (v_period v);
          rv = um_get_or empty_round m (v_round v);
          sv = um_get_or empty_step (rv_step_votes rv) (v_step v)
      in um_get_or empty_value (sv_votes sv) (v_block v))"

definition put_value :: "pbft_vote \<Rightarrow> votes_with_weight \<Rightarrow> verified_votes \<Rightarrow> verified_votes" where
  "put_value v vw vv =
     (let rv = um_get_or empty_round (um_get_or [] vv (v_period v)) (v_round v);
          sv = um_get_or empty_step (rv_step_votes rv) (v_step v)
      in set_round (v_period v) (v_round v)
           (rv\<lparr>rv_step_votes := om_put (v_step v)
             (sv\<lparr>sv_votes := um_put (v_block v) vw (sv_votes sv)\<rparr>) (rv_step_votes rv)\<rparr>) vv)"

lemma insertVotedValue_eq:
  "insertVotedValue v vv =
     (if um_find (vw_votes (value_at vv v)) (v_hash v) \<noteq> None then Inr (None, put_value v (value_at vv v) vv)
      else
        (case v_weight v of
           None \<Rightarrow> Inl MissingWeight
         | Some w \<Rightarrow>
             let vw = value_at vv v;
                 vw' = vw\<lparr>vw_votes := um_put (v_hash v) v (vw_votes vw), vw_weight := vw_weight vw + w\<rparr>
             in Inr (Some vw', put_value v vw' vv)))"
  by (cases "v_weight v") (simp_all add: insertVotedValue_def value_at_def put_value_def Let_def)

lemma value_at_ok: "vv_inv vv \<Longrightarrow> value_ok (v_period v) (v_round v) (v_step v) (v_block v) (value_at vv v)"
  by (simp add: value_at_def Let_def value_ok_get step_ok_get round_ok_get)

lemma put_value_inv:
  assumes inv: "vv_inv vv" and vw: "value_ok (v_period v) (v_round v) (v_step v) (v_block v) vw"
  shows "vv_inv (put_value v vw vv)"
proof -
  define rv where "rv = um_get_or empty_round (um_get_or [] vv (v_period v)) (v_round v)"
  define sv where "sv = um_get_or empty_step (rv_step_votes rv) (v_step v)"
  let ?sv = "sv\<lparr>sv_votes := um_put (v_block v) vw (sv_votes sv)\<rparr>"
  have rv: "round_ok (v_period v) (v_round v) rv"
    unfolding rv_def by (rule round_ok_get[OF inv])
  then have sv: "step_ok (v_period v) (v_round v) (v_step v) sv"
    unfolding sv_def by (rule step_ok_get)
  then have "step_ok (v_period v) (v_round v) (v_step v) ?sv"
    using vw unfolding step_ok_def by auto
  from round_ok_put_step[OF rv this]
  have "round_ok (v_period v) (v_round v) (rv\<lparr>rv_step_votes := om_put (v_step v) ?sv (rv_step_votes rv)\<rparr>)"
    by (auto simp: sv_def um_get_or_def)
  from vv_inv_set_round[OF inv this] show ?thesis
    by (simp add: put_value_def rv_def sv_def Let_def)
qed

lemma add_vote_value_ok:
  assumes "value_ok p r s b vw" and "um_find (vw_votes vw) (v_hash v) = None"
    and "v_weight v = Some w" and "vote_at p r s v" and "v_block v = b"
  shows "value_ok p r s b (vw\<lparr>vw_votes := um_put (v_hash v) v (vw_votes vw), vw_weight := vw_weight vw + w\<rparr>)"
  using assms by (simp add: value_ok_def um.sum_entries_put_new weight_of_def add.commute)

lemma insertVotedValue_inv:
  assumes inv: "vv_inv vv" and res: "insertVotedValue v vv = Inr (x, vv')"
  shows "vv_inv vv'"
proof -
  note ok = value_at_ok[OF inv, of v]
  show ?thesis
    using res put_value_inv[OF inv ok] put_value_inv[OF inv add_vote_value_ok[OF ok, where v = v]]
    by (auto simp: insertVotedValue_eq Let_def vote_at_def split: if_splits option.splits)
qed

lemma om_put_triv: "om_inv m \<Longrightarrow> um_find m k = Some v \<Longrightarrow> om_put k v m = m"
proof (induction m)
  case (Cons e m)
  have "\<not> k < fst e" if "fst e \<noteq> k"
    using Cons.prems that map_of_SomeD[of m k v] by (cases e) (force split: if_splits)
  with Cons show ?case by (cases e) (auto split: if_splits)
qed simp

lemma value_at_step:
  "value_at vv v =
     (case getStepVotes vv (v_period v) (v_round v) (v_step v) of
        None \<Rightarrow> empty_value | Some sv \<Rightarrow> um_get_or empty_value (sv_votes sv) (v_block v))"
  by (auto simp: value_at_def getStepVotes_def um_get_or_def Let_def split: option.splits)

lemma getStepVotes_put_value:
  assumes inv: "vv_inv vv"
  shows "getStepVotes (put_value v vw vv) p r s =
     (if p = v_period v \<and> r = v_round v \<and> s = v_step v then
        (let sv = (case getStepVotes vv p r s of None \<Rightarrow> empty_step | Some sv \<Rightarrow> sv)
         in Some (sv\<lparr>sv_votes := um_put (v_block v) vw (sv_votes sv)\<rparr>))
      else getStepVotes vv p r s)"
proof -
  define rv where "rv = um_get_or empty_round (um_get_or [] vv (v_period v)) (v_round v)"
  have om: "om_inv (rv_step_votes rv)"
    using round_ok_get[OF inv, of "v_period v" "v_round v"] by (simp add: rv_def round_ok_def)
  have old: "um_find (rv_step_votes rv) s = getStepVotes vv (v_period v) (v_round v) s" for s
    by (auto simp: rv_def getStepVotes_def um_get_or_def split: option.splits)
  have "getStepVotes (put_value v vw vv) p r s =
      (if p = v_period v \<and> r = v_round v
       then um_find (om_put (v_step v) ((um_get_or empty_step (rv_step_votes rv) (v_step v))
              \<lparr>sv_votes := um_put (v_block v) vw (sv_votes (um_get_or empty_step (rv_step_votes rv) (v_step v)))\<rparr>)
              (rv_step_votes rv)) s
       else getStepVotes vv p r s)"
    by (simp add: put_value_def getStepVotes_round getRoundVotes_set_round[OF inv] rv_def Let_def)
  then show ?thesis
    using om by (auto simp: um_get_or_def old Let_def split: option.splits)
qed

lemma value_at_put_value:
  assumes "vv_inv vv"
  shows "value_at (put_value v vw vv) u =
     (if v_period u = v_period v \<and> v_round u = v_round v \<and> v_step u = v_step v \<and> v_block u = v_block v
      then vw else value_at vv u)"
  by (auto simp: value_at_step getStepVotes_put_value[OF assms] um_get_or_def Let_def split: option.splits)

lemma put_value_same:
  assumes inv: "vv_inv vv" and stored: "um_find (vw_votes (value_at vv v)) (v_hash v) \<noteq> None"
  shows "put_value v (value_at vv v) vv = vv"
proof -
  obtain m where m: "um_find vv (v_period v) = Some m"
    using stored by (cases "um_find vv (v_period v)") (auto simp: value_at_def um_get_or_def)
  obtain rv where rv: "um_find m (v_round v) = Some rv"
    using stored m by (cases "um_find m (v_round v)") (auto simp: value_at_def um_get_or_def)
  obtain sv where sv: "um_find (rv_step_votes rv) (v_step v) = Some sv"
    using stored m rv by (cases "um_find (rv_step_votes rv) (v_step v)") (auto simp: value_at_def um_get_or_def)
  obtain vw where vw: "um_find (sv_votes sv) (v_block v) = Some vw"
    using stored m rv sv by (cases "um_find (sv_votes sv) (v_block v)") (auto simp: value_at_def um_get_or_def)
  have om: "om_inv vv" "om_inv m" "om_inv (rv_step_votes rv)"
    using inv m rv by (auto simp: vv_inv_def round_ok_def)
  show ?thesis
    using m rv sv vw om
    by (simp add: put_value_def value_at_def um_get_or_def set_round_def update_triv om_put_triv Let_def)
qed

section \<open>Reachable stores\<close>

text \<open>What the vote manager does with the store, in any order.\<close>

inductive vv_reachable :: "verified_votes \<Rightarrow> bool" where
  start: "vv_reachable []"
| voter: "vv_reachable vv \<Longrightarrow> vv_reachable (snd (insertUniqueVoter v vv))"
| vote_in: "vv_reachable vv \<Longrightarrow> insertVotedValue v vv = Inr (x, vv') \<Longrightarrow> vv_reachable vv'"
| t_plus_one: "vv_reachable vv \<Longrightarrow> vv_reachable (setNetworkTPlusOneStep v vv)"
| two_t_plus_one: "vv_reachable vv \<Longrightarrow> getStepVotes vv (v_period v) (v_round v) (v_step v) = Some sv \<Longrightarrow>
    um_find (sv_votes sv) (v_block v) \<noteq> None \<Longrightarrow> vv_reachable (insertTwoTPlusOneVotedBlock ty v vv)"
| cleanup: "vv_reachable vv \<Longrightarrow> vv_reachable (cleanupVotesByPeriod p vv)"

lemma vv_reachable_inv: "vv_reachable vv \<Longrightarrow> vv_inv vv"
proof (induction rule: vv_reachable.induct)
  case (two_t_plus_one vv v sv ty)
  then show ?case using insertTwoTPlusOneVotedBlock_inv by blast
qed (auto intro: insertUniqueVoter_inv insertVotedValue_inv setNetworkTPlusOneStep_inv cleanupVotesByPeriod_inv)

text \<open>
  C18: in every state the vote store can reach, each voted block's weight is the (64 bit) sum of
  the weights of its votes, every vote is filed under its own period, round, step, block and
  hash, and a voter of a step has one vote, or in an odd next-voting step two of which exactly one
  is for the null block.
\<close>

theorem verified_votes_consistent:
  assumes "vv_reachable vv" and "getStepVotes vv p r s = Some sv"
  shows "(\<forall>b vw. um_find (sv_votes sv) b = Some vw \<longrightarrow> value_ok p r s b vw)
       \<and> (\<forall>a e. um_find (sv_unique_voters sv) a = Some e \<longrightarrow> voter_ok p r s a e)"
proof -
  obtain rv where "getRoundVotes vv p r = Some rv" "um_find (rv_step_votes rv) s = Some sv"
    using assms(2) by (auto simp: getStepVotes_round split: option.splits)
  with vv_inv_round[OF vv_reachable_inv[OF assms(1)]] show ?thesis
    by (auto simp: round_ok_def step_ok_def)
qed

text \<open>
  C22: fetching the votes of a 2t+1 voted block never hits the \<open>assert(false)\<close> on a reachable store,
  and every vote it returns is for that block, in the recorded step of the requested period
  and round.
\<close>

theorem two_t_plus_one_votes_found:
  assumes "vv_reachable vv"
  shows "\<exists>vs. getTwoTPlusOneVotedBlockVotes vv p r ty = Inr vs
     \<and> (\<forall>v \<in> set vs. \<exists>vb. getTwoTPlusOneVotedBlock vv p r ty = Some vb
           \<and> vote_at p r (vb_step vb) v \<and> v_block v = vb_hash vb)"
proof (cases "getTwoTPlusOneVotedBlock vv p r ty")
  case (Some vb)
  then obtain rv where rv: "getRoundVotes vv p r = Some rv" "um_find (rv_two_t_plus_one rv) ty = Some vb"
    by (auto simp: getTwoTPlusOneVotedBlock_round split: option.splits)
  have ok: "round_ok p r rv"
    by (rule vv_inv_round[OF vv_reachable_inv[OF assms] rv(1)])
  then obtain sv vw where sv: "um_find (rv_step_votes rv) (vb_step vb) = Some sv"
    "um_find (sv_votes sv) (vb_hash vb) = Some vw"
    using rv(2) unfolding round_ok_def by blast
  then have "value_ok p r (vb_step vb) (vb_hash vb) vw"
    using ok unfolding round_ok_def step_ok_def by blast
  then have "vote_at p r (vb_step vb) v \<and> v_block v = vb_hash vb" if "(k, v) \<in> set (vw_votes vw)" for k v
    using that by (auto simp: value_ok_def dest: map_of_is_SomeI)
  with Some rv sv show ?thesis
    by (auto simp: getTwoTPlusOneVotedBlockVotes_def getStepVotes_round)
qed (simp add: getTwoTPlusOneVotedBlockVotes_def)

text \<open>
  \<open>insertVotedValue\<close> counts a vote once. A vote that is already stored changes nothing and
  yields nothing; a new one is stored under its block with its weight added and the updated value
  is returned, and no other voted value changes.
\<close>

theorem insertVotedValue_counts_once:
  assumes "vv_reachable vv" and "v_weight v = Some w"
  shows "\<exists>res vv'. insertVotedValue v vv = Inr (res, vv')
     \<and> (if um_find (vw_votes (value_at vv v)) (v_hash v) \<noteq> None then res = None \<and> vv' = vv
        else res = Some (value_at vv' v)
           \<and> vw_weight (value_at vv' v) = vw_weight (value_at vv v) + w
           \<and> um_find (vw_votes (value_at vv' v)) = (um_find (vw_votes (value_at vv v)))(v_hash v \<mapsto> v))
     \<and> (\<forall>u. (v_period u, v_round u, v_step u, v_block u) \<noteq> (v_period v, v_round v, v_step v, v_block v)
          \<longrightarrow> value_at vv' u = value_at vv u)"
proof -
  note inv = vv_reachable_inv[OF assms(1)]
  show ?thesis
  proof (cases "um_find (vw_votes (value_at vv v)) (v_hash v) \<noteq> None")
    case True
    then show ?thesis using put_value_same[OF inv True] by (simp add: insertVotedValue_eq)
  next
    case False
    with assms(2) show ?thesis
      by (auto simp: insertVotedValue_eq value_at_put_value[OF inv] Let_def)
  qed
qed

section \<open>Examples\<close>

definition sample_vote :: "h256 \<Rightarrow> h256 \<Rightarrow> pbft_step \<Rightarrow> addr_t \<Rightarrow> u64 \<Rightarrow> pbft_vote" where
  "sample_vote h b s a w =
     \<lparr>v_hash = h, v_block = b, v_period = 5, v_round = 1, v_step = s, v_voter = a, v_weight = Some w\<rparr>"

definition sample_store :: verified_votes where
  "sample_store =
     insertTwoTPlusOneVotedBlock SoftVotedBlock (sample_vote 12 7 2 2 4)
       (snd (projr (insertVotedValue (sample_vote 12 7 2 2 4)
         (snd (insertUniqueVoter (sample_vote 12 7 2 2 4)
           (snd (projr (insertVotedValue (sample_vote 11 7 2 1 3) []))))))))"

lemmas sample_store_defs =
  sample_vote_def sample_store_def insertVotedValue_def insertUniqueVoter_def getRoundVotes_def
  insertTwoTPlusOneVotedBlock_def set_round_def um_get_or_def Let_def

lemma sample_store_eq:
  "sample_store =
     [(5, [(1, \<lparr>rv_two_t_plus_one = [(SoftVotedBlock, \<lparr>vb_hash = 7, vb_step = 2\<rparr>)],
                rv_step_votes =
                  [(2, \<lparr>sv_votes = [(7, \<lparr>vw_weight = 7,
                                        vw_votes = [(11, sample_vote 11 7 2 1 3), (12, sample_vote 12 7 2 2 4)]\<rparr>)],
                       sv_unique_voters = [(2, (sample_vote 12 7 2 2 4, None))]\<rparr>)],
                rv_t_plus_one_step = 0\<rparr>)])]"
  by (simp add: sample_store_defs)

lemma sample_store_reachable: "vv_reachable sample_store"
proof -
  have "vv_reachable (snd (projr (insertVotedValue (sample_vote 11 7 2 1 3) [])))"
    by (rule vote_in[OF start, of "sample_vote 11 7 2 1 3"]) (simp add: sample_store_defs)
  from voter[OF this, of "sample_vote 12 7 2 2 4"]
  have "vv_reachable (snd (projr (insertVotedValue (sample_vote 12 7 2 2 4)
         (snd (insertUniqueVoter (sample_vote 12 7 2 2 4)
           (snd (projr (insertVotedValue (sample_vote 11 7 2 1 3) []))))))))"
    by (rule vote_in[of _ "sample_vote 12 7 2 2 4"]) (simp add: sample_store_defs)
  then show ?thesis
    unfolding sample_store_def
    by (rule two_t_plus_one, simp add: getStepVotes_def sample_store_defs)
       (simp add: sample_store_defs)
qed

definition sample_step :: step_votes where
  "sample_step = the (getStepVotes sample_store 5 1 2)"

theorem verified_votes_consistent_witness:
  "value_ok 5 1 2 7 (the (um_find (sv_votes sample_step) 7))
   \<and> voter_ok 5 1 2 2 (the (um_find (sv_unique_voters sample_step) 2))"
proof -
  have step: "getStepVotes sample_store 5 1 2 = Some sample_step"
    by (simp add: sample_step_def getStepVotes_def sample_store_eq)
  have "um_find (sv_votes sample_step) 7 \<noteq> None" "um_find (sv_unique_voters sample_step) 2 \<noteq> None"
    by (simp_all add: sample_step_def getStepVotes_def sample_store_eq)
  then show ?thesis
    using verified_votes_consistent[OF sample_store_reachable step] by auto
qed

theorem two_t_plus_one_votes_found_witness:
  "getTwoTPlusOneVotedBlockVotes sample_store 5 1 SoftVotedBlock
     = Inr [sample_vote 11 7 2 1 3, sample_vote 12 7 2 2 4]
   \<and> (\<exists>vs. getTwoTPlusOneVotedBlockVotes sample_store 5 1 SoftVotedBlock = Inr vs)"
proof -
  have "\<exists>vs. getTwoTPlusOneVotedBlockVotes sample_store 5 1 SoftVotedBlock = Inr vs"
    using two_t_plus_one_votes_found[OF sample_store_reachable, of 5 1 SoftVotedBlock] by blast
  moreover have "getTwoTPlusOneVotedBlockVotes sample_store 5 1 SoftVotedBlock
     = Inr [sample_vote 11 7 2 1 3, sample_vote 12 7 2 2 4]"
    by (simp add: getTwoTPlusOneVotedBlockVotes_def getTwoTPlusOneVotedBlock_def getStepVotes_def sample_store_eq)
  ultimately show ?thesis by blast
qed

theorem insertVotedValue_counts_once_witness:
  "\<exists>res vv'. insertVotedValue (sample_vote 13 7 2 3 5) sample_store = Inr (res, vv')
     \<and> vw_weight (value_at vv' (sample_vote 13 7 2 3 5)) = 12"
proof -
  have w: "v_weight (sample_vote 13 7 2 3 5) = Some 5" by (simp add: sample_vote_def)
  have "um_find (vw_votes (value_at sample_store (sample_vote 13 7 2 3 5))) (v_hash (sample_vote 13 7 2 3 5)) = None"
    "vw_weight (value_at sample_store (sample_vote 13 7 2 3 5)) = 7"
    by (simp_all add: value_at_def sample_store_eq sample_vote_def um_get_or_def)
  then show ?thesis
    using insertVotedValue_counts_once[OF sample_store_reachable w] by (auto split: if_splits)
qed

end
