(* ===== verification/Vote_Manager.thy ===== *)
theory Vote_Manager
  imports Verified_Votes Caches
begin

text \<open>
  The vote manager, \<open>core_libs/consensus/src/vote_manager/vote_manager.cpp\<close>, over the store of
  verified votes, with the three database columns it writes (\<open>storage.cpp\<close>, own votes, 2t+1 votes
  and extra reward votes) and the list of double voting proofs handed to the slashing manager.
  What the final chain, the PBFT chain, the VRF and the signature scheme answer is the
  environment: total and per-account vote counts are calls that return, throw
  \<open>ErrFutureBlock\<close> or throw something else. Writes to a \<open>Batch\<close> are shown as applied.
\<close>

section \<open>State and environment\<close>

datatype 'a call = Ret 'a | ErrFutureBlock | ErrOther

record vote_env =
  ve_committee_size :: u32
  ve_number_of_proposers :: u32
  ve_dpos_total :: "u64 \<Rightarrow> u64 call"
  ve_dpos_votes :: "u64 \<Rightarrow> addr_t \<Rightarrow> u64 call"
  ve_chain_size :: u64
  ve_vrf_key :: "u64 \<Rightarrow> addr_t \<Rightarrow> h256 option call"
  ve_verify_vote :: "pbft_vote \<Rightarrow> bool"
  ve_verify_vrf :: "pbft_vote \<Rightarrow> h256 \<Rightarrow> bool \<Rightarrow> bool"
  ve_vrf_weight :: "pbft_vote \<Rightarrow> u64 \<Rightarrow> u64 \<Rightarrow> u64 \<Rightarrow> u64"
  ve_sortition_weight :: "pbft_period \<Rightarrow> pbft_round \<Rightarrow> pbft_step \<Rightarrow> addr_t \<Rightarrow> u64 \<Rightarrow> u64 \<Rightarrow> u64 \<Rightarrow> u64"
  ve_sign :: "h256 \<Rightarrow> pbft_period \<Rightarrow> pbft_round \<Rightarrow> pbft_step \<Rightarrow> addr_t \<Rightarrow> pbft_vote"

record vote_db =
  db_own_votes :: "(h256, pbft_vote) omap"
  db_two_t_votes :: "(TwoTPlusOneVotedBlockType, pbft_vote list) umap"
  db_extra_reward_votes :: "(h256, pbft_vote) omap"

record vote_manager =
  vm_current_period :: pbft_period
  vm_current_round :: pbft_round
  vm_votes :: verified_votes
  vm_reward_block :: h256
  vm_reward_period :: pbft_round
  vm_reward_round :: pbft_round
  vm_extra_reward_votes :: "h256 list"
  vm_own_votes :: "pbft_vote list"
  vm_two_t_cache :: "(PbftVoteTypes, pbft_period \<times> u64) umap"
  vm_validated :: "h256 expiration_cache"
  vm_db :: vote_db
  vm_proofs :: "(pbft_vote \<times> pbft_vote) list"

datatype vm_error = AssertionFailed | NoWeight | UncaughtException | EmptyDeque

section \<open>Database columns\<close>

definition saveOwnVerifiedVote_db :: "pbft_vote \<Rightarrow> vote_db \<Rightarrow> vote_db" where
  "saveOwnVerifiedVote_db v db = db\<lparr>db_own_votes := om_put (v_hash v) v (db_own_votes db)\<rparr>"

definition getOwnVerifiedVotes_db :: "vote_db \<Rightarrow> pbft_vote list" where
  "getOwnVerifiedVotes_db db = map snd (db_own_votes db)"

definition clearOwnVerifiedVotes_db :: "pbft_vote list \<Rightarrow> vote_db \<Rightarrow> vote_db" where
  "clearOwnVerifiedVotes_db vs db =
     db\<lparr>db_own_votes := fold (\<lambda>v. um_erase (v_hash v)) vs (db_own_votes db)\<rparr>"

definition replaceTwoTPlusOneVotes ::
  "TwoTPlusOneVotedBlockType \<Rightarrow> pbft_vote list \<Rightarrow> vote_db \<Rightarrow> vote_db" where
  "replaceTwoTPlusOneVotes ty vs db =
     db\<lparr>db_two_t_votes := um_put ty vs (um_erase ty (db_two_t_votes db))\<rparr>"

definition getAllTwoTPlusOneVotes :: "vote_db \<Rightarrow> pbft_vote list" where
  "getAllTwoTPlusOneVotes db =
     concat (map (um_get_or [] (db_two_t_votes db))
       [SoftVotedBlock, CertVotedBlock, NextVotedBlock, NextVotedNullBlock])"

definition removeExtraRewardVotes :: "h256 list \<Rightarrow> vote_db \<Rightarrow> vote_db" where
  "removeExtraRewardVotes hs db = db\<lparr>db_extra_reward_votes := fold um_erase hs (db_extra_reward_votes db)\<rparr>"

definition saveExtraRewardVote :: "pbft_vote \<Rightarrow> vote_db \<Rightarrow> vote_db" where
  "saveExtraRewardVote v db = db\<lparr>db_extra_reward_votes := om_put (v_hash v) v (db_extra_reward_votes db)\<rparr>"

definition getRewardVotes_db :: "vote_db \<Rightarrow> pbft_vote list" where
  "getRewardVotes_db db = map snd (db_extra_reward_votes db)"

section \<open>Thresholds\<close>

definition getPbftSortitionThreshold :: "vote_env \<Rightarrow> u64 \<Rightarrow> PbftVoteTypes \<Rightarrow> u64" where
  "getPbftSortitionThreshold env total_dpos_votes_count vote_type =
     (case vote_type of
        propose_vote \<Rightarrow> min (ucast (ve_number_of_proposers env)) total_dpos_votes_count
      | _ \<Rightarrow> min (ucast (ve_committee_size env)) total_dpos_votes_count)"

definition compute_two_t_plus_one ::
  "vote_env \<Rightarrow> pbft_period \<Rightarrow> PbftVoteTypes \<Rightarrow> vote_manager \<Rightarrow> vm_error + u64 option \<times> vote_manager" where
  "compute_two_t_plus_one env pbft_period vote_type m =
     (case ve_dpos_total env pbft_period of
        ErrFutureBlock \<Rightarrow> Inr (None, m)
      | ErrOther \<Rightarrow> Inl UncaughtException
      | Ret total_votes \<Rightarrow>
          let two_t_plus_one = getPbftSortitionThreshold env total_votes vote_type * 2 div 3 + 1 in
          Inr (Some two_t_plus_one,
               if pbft_period = ve_chain_size env
               then m\<lparr>vm_two_t_cache := um_put vote_type (pbft_period, two_t_plus_one) (vm_two_t_cache m)\<rparr>
               else m))"

definition getPbftTwoTPlusOne ::
  "vote_env \<Rightarrow> pbft_period \<Rightarrow> PbftVoteTypes \<Rightarrow> vote_manager \<Rightarrow> vm_error + u64 option \<times> vote_manager" where
  "getPbftTwoTPlusOne env pbft_period vote_type m =
     (case um_find (vm_two_t_cache m) vote_type of
        Some (cached_period, cached) \<Rightarrow>
          if pbft_period = cached_period \<and> cached \<noteq> 0 then Inr (Some cached, m)
          else compute_two_t_plus_one env pbft_period vote_type m
      | None \<Rightarrow> compute_two_t_plus_one env pbft_period vote_type m)"

section \<open>Queries\<close>

definition getNetworkTplusOneNextVotingStep :: "vote_manager \<Rightarrow> pbft_period \<Rightarrow> pbft_round \<Rightarrow> pbft_step" where
  "getNetworkTplusOneNextVotingStep m period round =
     (case getRoundVotes (vm_votes m) period round of None \<Rightarrow> 0 | Some rv \<Rightarrow> rv_t_plus_one_step rv)"

definition voteInVerifiedMap :: "vote_manager \<Rightarrow> pbft_vote \<Rightarrow> bool" where
  "voteInVerifiedMap m v =
     (case getStepVotes (vm_votes m) (v_period v) (v_round v) (v_step v) of
        None \<Rightarrow> False
      | Some sv \<Rightarrow>
          (case um_find (sv_votes sv) (v_block v) of
             None \<Rightarrow> False
           | Some vw \<Rightarrow> um_find (vw_votes vw) (v_hash v) \<noteq> None))"

definition isUniqueVote :: "vote_manager \<Rightarrow> pbft_vote \<Rightarrow> bool \<times> pbft_vote option" where
  "isUniqueVote m v =
     (case getStepVotes (vm_votes m) (v_period v) (v_round v) (v_step v) of
        None \<Rightarrow> (True, None)
      | Some sv \<Rightarrow>
          (case um_find (sv_unique_voters sv) (v_voter v) of
             None \<Rightarrow> (True, None)
           | Some (v1, v2) \<Rightarrow>
               if v_hash v1 = v_hash v then (True, None)
               else if v_type v = next_vote \<and> v_step v mod 2 \<noteq> 0
                    \<and> (case v2 of
                         None \<Rightarrow> (v_block v1 = kNullBlockHash \<and> v_block v \<noteq> kNullBlockHash)
                                 \<or> (v_block v1 \<noteq> kNullBlockHash \<and> v_block v = kNullBlockHash)
                       | Some w \<Rightarrow> v_hash w = v_hash v)
               then (True, None)
               else (case v2 of
                       Some w \<Rightarrow> (False, Some (if v_hash v \<noteq> v_hash w then w else v1))
                     | None \<Rightarrow> (False, Some v1))))"

definition getProposalVotes :: "vote_manager \<Rightarrow> pbft_period \<Rightarrow> pbft_round \<Rightarrow> pbft_vote list" where
  "getProposalVotes m period round =
     (case getStepVotes (vm_votes m) period round 1 of
        None \<Rightarrow> []
      | Some sv \<Rightarrow> concat (map (\<lambda>e. map snd (vw_votes (snd e))) (sv_votes sv)))"

fun new_round_loop :: "pbft_round \<Rightarrow> (pbft_round \<times> round_verified_votes) list \<Rightarrow> pbft_round option" where
  "new_round_loop current_pbft_round [] = None"
| "new_round_loop current_pbft_round ((round, rv) # rest) =
     (if round < current_pbft_round then None
      else if um_find (rv_two_t_plus_one rv) NextVotedBlock \<noteq> None
              \<or> um_find (rv_two_t_plus_one rv) NextVotedNullBlock \<noteq> None
      then Some (round + 1)
      else new_round_loop current_pbft_round rest)"

definition determineNewRound :: "vote_manager \<Rightarrow> pbft_period \<Rightarrow> pbft_round \<Rightarrow> pbft_round option" where
  "determineNewRound m current_pbft_period current_pbft_round =
     (case getPeriodVotes (vm_votes m) current_pbft_period of
        None \<Rightarrow> None
      | Some period_map \<Rightarrow> new_round_loop current_pbft_round (rev period_map))"

definition getTwoTPlusOneVotedBlockHash ::
  "vote_manager \<Rightarrow> pbft_period \<Rightarrow> pbft_round \<Rightarrow> TwoTPlusOneVotedBlockType \<Rightarrow> h256 option" where
  "getTwoTPlusOneVotedBlockHash m period round ty =
     map_option vb_hash (getTwoTPlusOneVotedBlock (vm_votes m) period round ty)"

definition getStepVotes_or_empty ::
  "vote_manager \<Rightarrow> pbft_period \<Rightarrow> pbft_round \<Rightarrow> pbft_step \<Rightarrow> step_votes" where
  "getStepVotes_or_empty m period round step =
     (case getStepVotes (vm_votes m) period round step of None \<Rightarrow> empty_step | Some sv \<Rightarrow> sv)"

definition voteAlreadyValidated :: "vote_manager \<Rightarrow> h256 \<Rightarrow> bool" where
  "voteAlreadyValidated m h = ec_contains h (vm_validated m)"

section \<open>Adding a vote\<close>

definition isValidRewardVote :: "vote_manager \<Rightarrow> pbft_vote \<Rightarrow> bool" where
  "isValidRewardVote m v \<longleftrightarrow>
     v_type v = cert_vote
     \<and> v_block v = vm_reward_block m
     \<and> v_period v = ucast (vm_reward_period m)
     \<and> \<not> vm_reward_round m + 100 < v_round v"

definition saveTwoTPlusOneVotesInDb ::
  "TwoTPlusOneVotedBlockType \<Rightarrow> pbft_vote \<Rightarrow> round_verified_votes \<Rightarrow> votes_with_weight \<Rightarrow> vote_manager
     \<Rightarrow> vm_error + vote_manager" where
  "saveTwoTPlusOneVotesInDb ty v rv vw m =
     (case um_find (rv_two_t_plus_one rv) ty of
        Some vb \<Rightarrow>
          if vb_hash vb \<noteq> v_block v then Inl AssertionFailed
          else if ty \<noteq> NextVotedBlock \<and> ty \<noteq> NextVotedNullBlock \<and> vb_step vb \<noteq> v_step v
          then Inl AssertionFailed
          else Inr m
      | None \<Rightarrow>
          let m1 = m\<lparr>vm_votes := insertTwoTPlusOneVotedBlock ty v (vm_votes m)\<rparr> in
          Inr (if v_type v \<noteq> cert_vote \<and> v_period v = vm_current_period m \<and> v_round v = vm_current_round m
               then m1\<lparr>vm_db := replaceTwoTPlusOneVotes ty (map snd (vw_votes vw)) (vm_db m1)\<rparr>
               else m1))"

text \<open>The part of \<open>addVerifiedVote\<close> after the 2t+1 threshold is known.\<close>

definition update_two_t ::
  "pbft_vote \<Rightarrow> u64 \<Rightarrow> votes_with_weight \<Rightarrow> vote_manager \<Rightarrow> vm_error + bool \<times> vote_manager" where
  "update_two_t v two_t_plus_one vw m =
     (case getRoundVotes (vm_votes m) (v_period v) (v_round v) of
        None \<Rightarrow> Inr (True, m)
      | Some rv \<Rightarrow>
          let t_plus_one = (two_t_plus_one - 1) div 2 + 1;
              m1 = (if v_type v = next_vote \<and> t_plus_one \<le> vw_weight vw \<and> rv_t_plus_one_step rv < v_step v
                    then m\<lparr>vm_votes := setNetworkTPlusOneStep v (vm_votes m)\<rparr> else m)
          in if vw_weight vw < two_t_plus_one then Inr (True, m1)
             else
               (case v_type v of
                  soft_vote \<Rightarrow> map_sum id (Pair True) (saveTwoTPlusOneVotesInDb SoftVotedBlock v rv vw m1)
                | cert_vote \<Rightarrow> map_sum id (Pair True) (saveTwoTPlusOneVotesInDb CertVotedBlock v rv vw m1)
                | next_vote \<Rightarrow>
                    map_sum id (Pair True)
                      (saveTwoTPlusOneVotesInDb
                         (if v_block v = kNullBlockHash then NextVotedNullBlock else NextVotedBlock) v rv vw m1)
                | _ \<Rightarrow> Inr (True, m1)))"

definition addVerifiedVote ::
  "vote_env \<Rightarrow> pbft_vote \<Rightarrow> vote_manager \<Rightarrow> vm_error + bool \<times> vote_manager" where
  "addVerifiedVote env v m =
     (case v_weight v of
        None \<Rightarrow> Inl AssertionFailed
      | Some weight \<Rightarrow>
          if weight = 0 then Inr (False, m)
          else
            (case insertUniqueVoter v (vm_votes m) of
               (Some existing, vv1) \<Rightarrow>
                 Inr (False, m\<lparr>vm_votes := vv1, vm_proofs := vm_proofs m @ [(v, existing)]\<rparr>)
             | (None, vv1) \<Rightarrow>
                 let m1 = m\<lparr>vm_votes := vv1\<rparr>;
                     is_old = v_period v < vm_current_period m1;
                     is_reward = is_old \<and> isValidRewardVote m1 v
                 in if is_old \<and> \<not> is_reward then Inr (False, m1)
                    else
                      (case insertVotedValue v vv1 of
                         Inl _ \<Rightarrow> Inl NoWeight
                       | Inr (None, vv2) \<Rightarrow> Inr (False, m1\<lparr>vm_votes := vv2\<rparr>)
                       | Inr (Some vw, vv2) \<Rightarrow>
                           let m2 = m1\<lparr>vm_votes := vv2\<rparr>;
                               m3 = (if is_reward
                                     then m2\<lparr>vm_extra_reward_votes := vm_extra_reward_votes m2 @ [v_hash v],
                                             vm_db := saveExtraRewardVote v (vm_db m2)\<rparr>
                                     else m2)
                           in (case getPbftTwoTPlusOne env (v_period v - 1) (v_type v) m3 of
                                 Inl e \<Rightarrow> Inl e
                               | Inr (None, m4) \<Rightarrow> Inr (True, m4)
                               | Inr (Some two_t_plus_one, m4) \<Rightarrow> update_two_t v two_t_plus_one vw m4))))"

section \<open>Period changes and reward votes\<close>

definition vm_cleanupVotesByPeriod :: "pbft_period \<Rightarrow> vote_manager \<Rightarrow> vote_manager" where
  "vm_cleanupVotesByPeriod p m = m\<lparr>vm_votes := cleanupVotesByPeriod p (vm_votes m)\<rparr>"

text \<open>The loop of \<open>setCurrentPbftPeriodAndRound\<close> over the 2t+1 voted blocks of the round.\<close>

fun save_bundles ::
  "round_verified_votes \<Rightarrow> (TwoTPlusOneVotedBlockType, voted_block) umap \<Rightarrow> vote_db \<Rightarrow> vm_error + vote_db" where
  "save_bundles rv [] db = Inr db"
| "save_bundles rv ((ty, vb) # rest) db =
     (if ty = CertVotedBlock then save_bundles rv rest db
      else
        (case um_find (rv_step_votes rv) (vb_step vb) of
           None \<Rightarrow> Inl AssertionFailed
         | Some sv \<Rightarrow>
             (case um_find (sv_votes sv) (vb_hash vb) of
                None \<Rightarrow> Inl AssertionFailed
              | Some vw \<Rightarrow> save_bundles rv rest (replaceTwoTPlusOneVotes ty (map snd (vw_votes vw)) db))))"

definition setCurrentPbftPeriodAndRound ::
  "pbft_period \<Rightarrow> pbft_round \<Rightarrow> vote_manager \<Rightarrow> vm_error + vote_manager" where
  "setCurrentPbftPeriodAndRound pbft_period pbft_round m =
     (let m1 = m\<lparr>vm_current_period := pbft_period, vm_current_round := pbft_round\<rparr> in
      case getRoundVotes (vm_votes m) pbft_period pbft_round of
        None \<Rightarrow> Inr m1
      | Some rv \<Rightarrow>
          (case save_bundles rv (rv_two_t_plus_one rv) (vm_db m1) of
             Inl e \<Rightarrow> Inl e
           | Inr db \<Rightarrow> Inr (m1\<lparr>vm_db := db\<rparr>)))"

definition resetRewardVotes ::
  "pbft_period \<Rightarrow> pbft_round \<Rightarrow> pbft_step \<Rightarrow> h256 \<Rightarrow> vote_manager \<Rightarrow> vm_error + vote_manager" where
  "resetRewardVotes period round step block_hash m =
     (let m1 = m\<lparr>vm_reward_block := block_hash, vm_reward_period := ucast period, vm_reward_round := round\<rparr> in
      case getRoundVotes (vm_votes m1) period round of
        None \<Rightarrow> Inl AssertionFailed
      | Some rv \<Rightarrow>
          (case um_find (rv_step_votes rv) step of
             None \<Rightarrow> Inl AssertionFailed
           | Some sv \<Rightarrow>
               (case um_find (rv_two_t_plus_one rv) CertVotedBlock of
                  None \<Rightarrow> Inl AssertionFailed
                | Some vb \<Rightarrow>
                    if vb_hash vb \<noteq> block_hash then Inl AssertionFailed
                    else
                      (case um_find (sv_votes sv) block_hash of
                         None \<Rightarrow> Inl AssertionFailed
                       | Some vw \<Rightarrow>
                           Inr (m1\<lparr>vm_db := removeExtraRewardVotes (vm_extra_reward_votes m1)
                                     (replaceTwoTPlusOneVotes CertVotedBlock (map snd (vw_votes vw)) (vm_db m1)),
                                   vm_extra_reward_votes := []\<rparr>)))))"

text \<open>The lambda \<open>getRewardVotes\<close> of \<open>checkRewardVotes\<close> and its loop.\<close>

fun find_votes_loop ::
  "(h256, pbft_vote) umap \<Rightarrow> bool \<Rightarrow> h256 list \<Rightarrow> bool \<Rightarrow> pbft_vote list \<Rightarrow> bool \<times> pbft_vote list" where
  "find_votes_loop votes copy_votes [] found_all found = (found_all, found)"
| "find_votes_loop votes copy_votes (h # hs) found_all found =
     (let found_all' = (found_all \<and> um_find votes h \<noteq> None) in
      find_votes_loop votes copy_votes hs found_all'
        (case um_find votes h of
           Some v \<Rightarrow> if found_all' \<and> copy_votes then found @ [v] else found
         | None \<Rightarrow> found))"

definition round_reward_votes ::
  "round_verified_votes \<Rightarrow> h256 list \<Rightarrow> h256 \<Rightarrow> bool \<Rightarrow> bool \<times> pbft_vote list" where
  "round_reward_votes rv vote_hashes block_hash copy_votes =
     (case um_find (rv_step_votes rv) 3 of
        None \<Rightarrow> (False, [])
      | Some sv \<Rightarrow>
          (case um_find (sv_votes sv) block_hash of
             None \<Rightarrow> (False, [])
           | Some vw \<Rightarrow>
               (case find_votes_loop (vw_votes vw) copy_votes vote_hashes True [] of
                  (True, found) \<Rightarrow> (True, found)
                | (False, _) \<Rightarrow> (False, []))))"

fun reward_rounds_loop ::
  "(pbft_round \<times> round_verified_votes) list \<Rightarrow> h256 list \<Rightarrow> h256 \<Rightarrow> bool \<Rightarrow> bool \<times> pbft_vote list" where
  "reward_rounds_loop [] hashes block_hash copy_votes = (False, [])"
| "reward_rounds_loop (e # es) hashes block_hash copy_votes =
     (case round_reward_votes (snd e) hashes block_hash copy_votes of
        (True, vs) \<Rightarrow> (True, vs)
      | (False, _) \<Rightarrow> reward_rounds_loop es hashes block_hash copy_votes)"

text \<open>\<open>block_period\<close> and \<open>hashes\<close> are the period and the reward votes of the checked PBFT block.\<close>

definition checkRewardVotes ::
  "vote_manager \<Rightarrow> pbft_period \<Rightarrow> h256 list \<Rightarrow> bool \<Rightarrow> vm_error + bool \<times> pbft_vote list" where
  "checkRewardVotes m block_period hashes copy_votes =
     (if block_period = 1 then Inr (True, [])
      else
        (case getRoundVotes (vm_votes m) (ucast (vm_reward_period m)) (vm_reward_round m) of
           None \<Rightarrow> Inl AssertionFailed
         | Some rv \<Rightarrow>
             (case round_reward_votes rv hashes (vm_reward_block m) copy_votes of
                (True, vs) \<Rightarrow> Inr (True, vs)
              | (False, _) \<Rightarrow>
                  (case getPeriodVotes (vm_votes m) (ucast (vm_reward_period m)) of
                     None \<Rightarrow> Inl AssertionFailed
                   | Some period_votes \<Rightarrow>
                       Inr (reward_rounds_loop (rev period_votes) hashes (vm_reward_block m) copy_votes)))))"

definition getRewardVotes :: "vote_manager \<Rightarrow> vm_error + pbft_vote list" where
  "getRewardVotes m =
     (case getTwoTPlusOneVotedBlockVotes (vm_votes m) (ucast (vm_reward_period m)) (vm_reward_round m) CertVotedBlock of
        Inl _ \<Rightarrow> Inl AssertionFailed
      | Inr [] \<Rightarrow> Inr []
      | Inr (v # vs) \<Rightarrow> if v_block v \<noteq> vm_reward_block m then Inl AssertionFailed else Inr (v # vs))"

section \<open>Own votes and validation\<close>

definition saveOwnVerifiedVote :: "pbft_vote \<Rightarrow> vote_manager \<Rightarrow> vote_manager" where
  "saveOwnVerifiedVote v m =
     m\<lparr>vm_own_votes := vm_own_votes m @ [v], vm_db := saveOwnVerifiedVote_db v (vm_db m)\<rparr>"

definition clearOwnVerifiedVotes :: "vote_manager \<Rightarrow> vote_manager" where
  "clearOwnVerifiedVotes m =
     m\<lparr>vm_db := clearOwnVerifiedVotes_db (vm_own_votes m) (vm_db m), vm_own_votes := []\<rparr>"

text \<open>\<open>generateVote\<close> asserts the type of the step; \<open>calculateWeight\<close> sets the weight.\<close>

definition generateVote ::
  "vote_env \<Rightarrow> h256 \<Rightarrow> PbftVoteTypes \<Rightarrow> pbft_period \<Rightarrow> pbft_round \<Rightarrow> pbft_step \<Rightarrow> addr_t
     \<Rightarrow> vm_error + pbft_vote" where
  "generateVote env blockhash ty period round step wallet =
     (case VrfPbftMsg ty period round step of
        None \<Rightarrow> Inl AssertionFailed
      | Some _ \<Rightarrow> Inr (ve_sign env blockhash period round step wallet))"

definition generateVoteWithWeight ::
  "vote_env \<Rightarrow> h256 \<Rightarrow> PbftVoteTypes \<Rightarrow> pbft_period \<Rightarrow> pbft_round \<Rightarrow> pbft_step \<Rightarrow> addr_t
     \<Rightarrow> vm_error + pbft_vote option" where
  "generateVoteWithWeight env blockhash ty period round step wallet =
     (case ve_dpos_votes env (period - 1) wallet of
        ErrFutureBlock \<Rightarrow> Inr None
      | ErrOther \<Rightarrow> Inl UncaughtException
      | Ret votes_count \<Rightarrow>
          if votes_count = 0 then Inr None
          else
            (case ve_dpos_total env (period - 1) of
               ErrFutureBlock \<Rightarrow> Inr None
             | ErrOther \<Rightarrow> Inl UncaughtException
             | Ret total_votes \<Rightarrow>
                 (case generateVote env blockhash ty period round step wallet of
                    Inl e \<Rightarrow> Inl e
                  | Inr v \<Rightarrow>
                      let w = ve_vrf_weight env v votes_count total_votes
                                (getPbftSortitionThreshold env total_votes ty)
                      in Inr (if w = 0 then None else Some (v\<lparr>v_weight := Some w\<rparr>)))))"

datatype vote_verdict =
  ValidVote | ZeroStake | NoVrfKey | InvalidVoteSignature | InvalidVrfProof | ZeroWeight | FutureVote | UnknownError

text \<open>
  \<open>validateVote\<close>: the verdict, the vote with its cached weight, and the cache of validated votes.
\<close>

definition validateVote ::
  "vote_env \<Rightarrow> pbft_vote \<Rightarrow> bool \<Rightarrow> vote_manager \<Rightarrow> vm_error + vote_verdict \<times> pbft_vote \<times> vote_manager" where
  "validateVote env v strict m =
     (case ve_dpos_votes env (v_period v - 1) (v_voter v) of
        ErrFutureBlock \<Rightarrow> Inr (FutureVote, v, m)
      | ErrOther \<Rightarrow> Inr (UnknownError, v, m)
      | Ret votes_count \<Rightarrow>
          (case ec_insert (v_hash v) (vm_validated m) of
             None \<Rightarrow> Inl EmptyDeque
           | Some (_, validated) \<Rightarrow>
               let m1 = m\<lparr>vm_validated := validated\<rparr> in
               if votes_count = 0 then Inr (ZeroStake, v, m1)
               else
                 (case ve_vrf_key env (v_period v - 1) (v_voter v) of
                    ErrFutureBlock \<Rightarrow> Inr (FutureVote, v, m1)
                  | ErrOther \<Rightarrow> Inr (UnknownError, v, m1)
                  | Ret None \<Rightarrow> Inr (NoVrfKey, v, m1)
                  | Ret (Some pk) \<Rightarrow>
                      if \<not> ve_verify_vote env v then Inr (InvalidVoteSignature, v, m1)
                      else if \<not> ve_verify_vrf env v pk strict then Inr (InvalidVrfProof, v, m1)
                      else
                        (case ve_dpos_total env (v_period v - 1) of
                           ErrFutureBlock \<Rightarrow> Inr (FutureVote, v, m1)
                         | ErrOther \<Rightarrow> Inr (UnknownError, v, m1)
                         | Ret total_votes \<Rightarrow>
                             let w = ve_vrf_weight env v votes_count total_votes
                                       (getPbftSortitionThreshold env total_votes (v_type v));
                                 v1 = v\<lparr>v_weight := Some w\<rparr>
                             in Inr (if w = 0 then ZeroWeight else ValidVote, v1, m1)))))"

definition genAndValidateVrfSortition ::
  "vote_env \<Rightarrow> pbft_period \<Rightarrow> pbft_round \<Rightarrow> addr_t \<Rightarrow> vm_error + bool" where
  "genAndValidateVrfSortition env pbft_period pbft_round wallet =
     (case ve_dpos_votes env (pbft_period - 1) wallet of
        ErrFutureBlock \<Rightarrow> Inr False
      | ErrOther \<Rightarrow> Inl UncaughtException
      | Ret votes_count \<Rightarrow>
          if votes_count = 0 then Inr False
          else
            (case ve_dpos_total env (pbft_period - 1) of
               ErrFutureBlock \<Rightarrow> Inr False
             | ErrOther \<Rightarrow> Inl UncaughtException
             | Ret total_votes \<Rightarrow>
                 Inr (ve_sortition_weight env pbft_period pbft_round 1 wallet votes_count total_votes
                        (getPbftSortitionThreshold env total_votes propose_vote) \<noteq> 0)))"

section \<open>Construction\<close>

text \<open>The lambda \<open>addVerifiedVotes\<close> of the constructor; the flag says whether reward info was set.\<close>

fun load_votes ::
  "vote_env \<Rightarrow> bool \<Rightarrow> bool \<Rightarrow> pbft_vote list \<Rightarrow> vote_manager \<Rightarrow> vm_error + vote_manager" where
  "load_votes env set_info already [] m = Inr m"
| "load_votes env set_info already (v # vs) m =
     (if \<not> fst (isUniqueVote m v) then load_votes env set_info already vs m
      else
        let sets = (set_info \<and> v_type v = cert_vote \<and> \<not> already);
            m1 = (if sets
                  then m\<lparr>vm_reward_block := v_block v, vm_reward_period := ucast (v_period v),
                         vm_reward_round := v_round v\<rparr>
                  else m)
        in if set_info \<and> v_type v = cert_vote \<and> already
              \<and> (vm_reward_block m \<noteq> v_block v \<or> ucast (vm_reward_period m) \<noteq> v_period v
                 \<or> vm_reward_round m \<noteq> v_round v)
           then Inl AssertionFailed
           else
             (case addVerifiedVote env v m1 of
                Inl e \<Rightarrow> Inl e
              | Inr (_, m2) \<Rightarrow> load_votes env set_info (already \<or> sets) vs m2))"

definition vm_empty :: "vote_db \<Rightarrow> vote_manager" where
  "vm_empty db =
     \<lparr>vm_current_period = 0, vm_current_round = 0, vm_votes = [], vm_reward_block = kNullBlockHash,
      vm_reward_period = 0, vm_reward_round = 0, vm_extra_reward_votes = [], vm_own_votes = [],
      vm_two_t_cache = [], vm_validated = ec_empty 1000000 1000, vm_db = db, vm_proofs = []\<rparr>"

definition vm_create :: "vote_env \<Rightarrow> vote_db \<Rightarrow> vm_error + vote_manager" where
  "vm_create env db =
     (case load_votes env True False (getAllTwoTPlusOneVotes db) (vm_empty db) of
        Inl e \<Rightarrow> Inl e
      | Inr m1 \<Rightarrow>
          (case load_votes env False False (getOwnVerifiedVotes_db (vm_db m1))
                  (m1\<lparr>vm_own_votes := getOwnVerifiedVotes_db (vm_db m1)\<rparr>) of
             Inl e \<Rightarrow> Inl e
           | Inr m2 \<Rightarrow>
               load_votes env False False (getRewardVotes_db (vm_db m2))
                 (m2\<lparr>vm_extra_reward_votes :=
                       vm_extra_reward_votes m2 @ map v_hash (getRewardVotes_db (vm_db m2))\<rparr>)))"

end
