(* ===== verification/Vote_Manager_Props.thy ===== *)
theory Vote_Manager_Props
  imports Vote_Manager
begin

text \<open>
  Correctness of the vote manager: the 2t+1 arithmetic and its cache, the soundness of recorded
  2t+1 voted blocks in every reachable state, the choice of a new round, the check of reward
  votes, and what the uniqueness check of votes does and does not catch.
\<close>

section \<open>Thresholds\<close>

lemma threshold_lt: "unat (getPbftSortitionThreshold env n ty) < 2 ^ 32"
proof -
  have bound: "unat (min (ucast (c :: u32) :: u64) n) < 2 ^ 32" for c
  proof -
    have "unat (ucast c :: u64) < 2 ^ 32"
      using unsigned_less[of c] by (simp add: unat_ucast_up)
    then show ?thesis
      by (metis le_less_trans min.cobounded1 word_le_nat_alt)
  qed
  show ?thesis
    using bound[of "ve_number_of_proposers env"] bound[of "ve_committee_size env"]
    unfolding getPbftSortitionThreshold_def by (cases ty) simp_all
qed

lemma two_t_arith:
  fixes x :: u64
  assumes "unat x < 2 ^ 32"
  shows "unat (x * 2 div 3 + 1) = 2 * unat x div 3 + 1"
    and "unat ((x * 2 div 3 + 1 - 1) div 2 + 1) = unat x div 3 + 1"
proof -
  have m: "unat (x * 2) = 2 * unat x"
    using assms by (simp add: unat_word_ariths)
  then have d: "unat (x * 2 div 3) = 2 * unat x div 3"
    by (simp add: unat_div_distrib)
  then show "unat (x * 2 div 3 + 1) = 2 * unat x div 3 + 1"
    using assms by (simp add: unat_word_ariths)
  have "unat (x * 2 div 3 div 2) = unat x div 3"
    using d by (simp add: unat_div_distrib div_mult2_eq[symmetric])
  then show "unat ((x * 2 div 3 + 1 - 1) div 2 + 1) = unat x div 3 + 1"
    using assms by (simp add: unat_word_ariths)
qed

text \<open>What the thresholds are for a known total vote count.\<close>

definition two_t_of :: "vote_env \<Rightarrow> u64 \<Rightarrow> PbftVoteTypes \<Rightarrow> u64" where
  "two_t_of env total_votes ty = getPbftSortitionThreshold env total_votes ty * 2 div 3 + 1"

text \<open>
  Environments of one chain: the same configuration, and a total vote count per period that,
  once it can be read, is always the same.
\<close>

definition chain_env :: "vote_env \<Rightarrow> (u64 \<Rightarrow> u64) \<Rightarrow> vote_env \<Rightarrow> bool" where
  "chain_env env0 dpos env \<longleftrightarrow>
     ve_committee_size env = ve_committee_size env0
     \<and> ve_number_of_proposers env = ve_number_of_proposers env0
     \<and> (\<forall>p n. ve_dpos_total env p = Ret n \<longrightarrow> n = dpos p)"

lemma two_t_of_chain: "chain_env env0 dpos env \<Longrightarrow> two_t_of env n ty = two_t_of env0 n ty"
  by (cases ty) (simp_all add: two_t_of_def getPbftSortitionThreshold_def chain_env_def)

definition cache_ok :: "vote_env \<Rightarrow> (u64 \<Rightarrow> u64) \<Rightarrow> vote_manager \<Rightarrow> bool" where
  "cache_ok env0 dpos m \<longleftrightarrow>
     (\<forall>ty p x. um_find (vm_two_t_cache m) ty = Some (p, x) \<longrightarrow> x = two_t_of env0 (dpos p) ty)"

lemma getPbftTwoTPlusOne_chain:
  assumes env: "chain_env env0 dpos env" and ok: "cache_ok env0 dpos m"
    and res: "getPbftTwoTPlusOne env p ty m = Inr (x, m')"
  shows "cache_ok env0 dpos m'" and "x = Some n \<Longrightarrow> n = two_t_of env0 (dpos p) ty"
    and "\<exists>c. m' = m\<lparr>vm_two_t_cache := c\<rparr>"
proof -
  have computed: "cache_ok env0 dpos m' \<and> (\<forall>n. x = Some n \<longrightarrow> n = two_t_of env0 (dpos p) ty)
      \<and> (\<exists>c. m' = m\<lparr>vm_two_t_cache := c\<rparr>)"
    if "compute_two_t_plus_one env p ty m = Inr (x, m')"
  proof (cases "ve_dpos_total env p")
    case (Ret n)
    then have "n = dpos p" using env by (simp add: chain_env_def)
    moreover have "x = Some (two_t_of env n ty)"
      "m' = m \<or> m' = m\<lparr>vm_two_t_cache := um_put ty (p, two_t_of env n ty) (vm_two_t_cache m)\<rparr>"
      using that Ret by (auto simp: compute_two_t_plus_one_def two_t_of_def Let_def split: if_splits)
    ultimately show ?thesis
      using ok two_t_of_chain[OF env]
      by (auto simp: cache_ok_def intro: exI[of _ "vm_two_t_cache m"] split: if_splits)
  qed (use that ok in \<open>auto simp: compute_two_t_plus_one_def intro: exI[of _ "vm_two_t_cache m"]\<close>)
  have cached: "x = Some c \<Longrightarrow> m' = m \<Longrightarrow> um_find (vm_two_t_cache m) ty = Some (p, c) \<Longrightarrow>
      cache_ok env0 dpos m' \<and> (\<forall>n. x = Some n \<longrightarrow> n = two_t_of env0 (dpos p) ty)
      \<and> (\<exists>c. m' = m\<lparr>vm_two_t_cache := c\<rparr>)" for c
    using ok by (auto simp: cache_ok_def intro: exI[of _ "vm_two_t_cache m"])
  have "cache_ok env0 dpos m' \<and> (\<forall>n. x = Some n \<longrightarrow> n = two_t_of env0 (dpos p) ty)
      \<and> (\<exists>c. m' = m\<lparr>vm_two_t_cache := c\<rparr>)"
    using res computed cached
    by (fastforce simp: getPbftTwoTPlusOne_def split: option.splits if_splits)
  then show "cache_ok env0 dpos m'" "x = Some n \<Longrightarrow> n = two_t_of env0 (dpos p) ty"
    "\<exists>c. m' = m\<lparr>vm_two_t_cache := c\<rparr>"
    by blast+
qed

text \<open>
  C21: the vote threshold \<open>getPbftTwoTPlusOne\<close> returns, cached or not, is two thirds of the sortition
  threshold of that period rounded down, plus one: more than two thirds of it, with no
  overflow, and the derived t+1 is its third rounded down, plus one.
\<close>

theorem two_t_plus_one_value:
  assumes "chain_env env dpos env" and "cache_ok env dpos m"
    and "getPbftTwoTPlusOne env p ty m = Inr (Some x, m')"
  shows "unat x = 2 * unat (getPbftSortitionThreshold env (dpos p) ty) div 3 + 1
       \<and> 2 * unat (getPbftSortitionThreshold env (dpos p) ty) < 3 * unat x
       \<and> unat ((x - 1) div 2 + 1) = unat (getPbftSortitionThreshold env (dpos p) ty) div 3 + 1"
proof -
  have x: "x = two_t_of env (dpos p) ty"
    by (rule getPbftTwoTPlusOne_chain(2)[OF assms refl])
  show ?thesis
    unfolding x two_t_of_def two_t_arith[OF threshold_lt]
    using div_mult_mod_eq[of "2 * unat (getPbftSortitionThreshold env (dpos p) ty)" 3]
    by (intro conjI refl) presburger
qed

definition sample_env :: vote_env where
  "sample_env =
     \<lparr>ve_committee_size = 1000, ve_number_of_proposers = 20, ve_dpos_total = (\<lambda>_. Ret 100),
      ve_dpos_votes = (\<lambda>_ _. Ret 5), ve_chain_size = 4, ve_vrf_key = (\<lambda>_ _. Ret (Some 1)),
      ve_verify_vote = (\<lambda>_. True), ve_verify_vrf = (\<lambda>_ _ _. True), ve_vrf_weight = (\<lambda>_ _ _ _. 3),
      ve_sortition_weight = (\<lambda>_ _ _ _ _ _ _. 3),
      ve_sign = (\<lambda>b p r s a. \<lparr>v_hash = b + 1, v_block = b, v_period = p, v_round = r, v_step = s,
                              v_voter = a, v_weight = None\<rparr>)\<rparr>"

definition sample_manager :: vote_manager where
  "sample_manager = vm_empty \<lparr>db_own_votes = [], db_two_t_votes = [], db_extra_reward_votes = []\<rparr>"

lemma sample_chain: "chain_env sample_env (\<lambda>_. 100) sample_env"
  by (simp add: chain_env_def sample_env_def)

lemma sample_cache: "cache_ok sample_env (\<lambda>_. 100) sample_manager"
  by (simp add: cache_ok_def sample_manager_def vm_empty_def)

theorem two_t_plus_one_value_witness:
  "\<exists>x m'. getPbftTwoTPlusOne sample_env 4 cert_vote sample_manager = Inr (Some x, m') \<and> unat x = 67"
proof -
  obtain x m' where res: "getPbftTwoTPlusOne sample_env 4 cert_vote sample_manager = Inr (Some x, m')"
    by (auto simp: getPbftTwoTPlusOne_def compute_two_t_plus_one_def sample_env_def sample_manager_def
        vm_empty_def Let_def)
  have "unat (getPbftSortitionThreshold sample_env 100 cert_vote) = 100"
    by (simp add: getPbftSortitionThreshold_def sample_env_def)
  with two_t_plus_one_value[OF sample_chain sample_cache res] res show ?thesis by auto
qed

section \<open>Reading the store after an update\<close>

definition value_of ::
  "verified_votes \<Rightarrow> pbft_period \<Rightarrow> pbft_round \<Rightarrow> pbft_step \<Rightarrow> h256 \<Rightarrow> votes_with_weight option" where
  "value_of vv p r s b =
     (case getStepVotes vv p r s of None \<Rightarrow> None | Some sv \<Rightarrow> um_find (sv_votes sv) b)"

lemma read_insertUniqueVoter [simp]:
  assumes "vv_inv vv"
  shows "value_of (snd (insertUniqueVoter v vv)) p r s b = value_of vv p r s b"
    and "getTwoTPlusOneVotedBlock (snd (insertUniqueVoter v vv)) p r ty = getTwoTPlusOneVotedBlock vv p r ty"
proof -
  have om: "om_inv (rv_step_votes rv)" if "getRoundVotes vv p r = Some rv" for p r rv
    using vv_inv_round[OF assms that] by (simp add: round_ok_def)
  show "value_of (snd (insertUniqueVoter v vv)) p r s b = value_of vv p r s b"
    using om
    by (auto simp: insertUniqueVoter_def value_of_def getStepVotes_round getRoundVotes_set_round[OF assms]
        Let_def split_def split: option.splits)
  show "getTwoTPlusOneVotedBlock (snd (insertUniqueVoter v vv)) p r ty = getTwoTPlusOneVotedBlock vv p r ty"
    by (auto simp: insertUniqueVoter_def getTwoTPlusOneVotedBlock_round getRoundVotes_set_round[OF assms]
        Let_def split_def split: option.splits)
qed

lemma read_setNetworkTPlusOneStep [simp]:
  assumes "vv_inv vv"
  shows "value_of (setNetworkTPlusOneStep v vv) p r s b = value_of vv p r s b"
    and "getTwoTPlusOneVotedBlock (setNetworkTPlusOneStep v vv) p r ty = getTwoTPlusOneVotedBlock vv p r ty"
  by (auto simp: setNetworkTPlusOneStep_def value_of_def getStepVotes_round getTwoTPlusOneVotedBlock_round
      getRoundVotes_set_round[OF assms] split: option.splits)

lemma read_insertTwoTPlusOneVotedBlock:
  assumes "vv_inv vv"
  shows "value_of (insertTwoTPlusOneVotedBlock ty v vv) p r s b = value_of vv p r s b"
    and "getTwoTPlusOneVotedBlock (insertTwoTPlusOneVotedBlock ty v vv) p r ty' = Some vb \<Longrightarrow>
      getTwoTPlusOneVotedBlock vv p r ty' = Some vb
      \<or> p = v_period v \<and> r = v_round v \<and> ty' = ty \<and> vb = \<lparr>vb_hash = v_block v, vb_step = v_step v\<rparr>"
  by (auto simp: insertTwoTPlusOneVotedBlock_def value_of_def getStepVotes_round getTwoTPlusOneVotedBlock_round
      getRoundVotes_set_round[OF assms] split: option.splits if_splits)

lemma read_put_value:
  assumes "vv_inv vv"
  shows "value_of (put_value v vw vv) p r s b =
      (if p = v_period v \<and> r = v_round v \<and> s = v_step v \<and> b = v_block v then Some vw else value_of vv p r s b)"
    and "getTwoTPlusOneVotedBlock (put_value v vw vv) p r ty = getTwoTPlusOneVotedBlock vv p r ty"
proof -
  show "value_of (put_value v vw vv) p r s b =
      (if p = v_period v \<and> r = v_round v \<and> s = v_step v \<and> b = v_block v then Some vw else value_of vv p r s b)"
    by (auto simp: value_of_def getStepVotes_put_value[OF assms] Let_def split: option.splits)
  show "getTwoTPlusOneVotedBlock (put_value v vw vv) p r ty = getTwoTPlusOneVotedBlock vv p r ty"
  proof -
    have "getTwoTPlusOneVotedBlock (put_value v vw vv) p r ty =
        (if p = v_period v \<and> r = v_round v
         then um_find (rv_two_t_plus_one (um_get_or empty_round (um_get_or [] vv p) r)) ty
         else getTwoTPlusOneVotedBlock vv p r ty)"
      by (simp add: put_value_def getTwoTPlusOneVotedBlock_round getRoundVotes_set_round[OF assms] Let_def)
    then show ?thesis
      by (auto simp: getTwoTPlusOneVotedBlock_def um_get_or_def split: option.splits)
  qed
qed

lemma read_cleanup:
  assumes "vv_inv vv"
  shows "value_of (cleanupVotesByPeriod q vv) p r s b = (if p < q then None else value_of vv p r s b)"
    and "getTwoTPlusOneVotedBlock (cleanupVotesByPeriod q vv) p r ty =
      (if p < q then None else getTwoTPlusOneVotedBlock vv p r ty)"
proof -
  have "om_inv vv" using assms by (simp add: vv_inv_def)
  then show "value_of (cleanupVotesByPeriod q vv) p r s b = (if p < q then None else value_of vv p r s b)"
    "getTwoTPlusOneVotedBlock (cleanupVotesByPeriod q vv) p r ty =
      (if p < q then None else getTwoTPlusOneVotedBlock vv p r ty)"
    by (auto simp: value_of_def getStepVotes_def getTwoTPlusOneVotedBlock_def cleanupVotesByPeriod_def
        cleanup_find split: option.splits)
qed

lemma value_of_ok:
  assumes "vv_inv vv" and "value_of vv p r s b = Some vw"
  shows "value_ok p r s b vw"
proof -
  obtain rv sv where "getRoundVotes vv p r = Some rv" "um_find (rv_step_votes rv) s = Some sv"
    "um_find (sv_votes sv) b = Some vw"
    using assms(2) by (auto simp: value_of_def getStepVotes_round split: option.splits)
  with vv_inv_round[OF assms(1)] show ?thesis
    unfolding round_ok_def step_ok_def by blast
qed

section \<open>Recorded blocks have their votes\<close>

text \<open>The weight of the distinct stored votes, without wrap-around.\<close>

definition full_weight :: "votes_with_weight \<Rightarrow> nat" where
  "full_weight vw = sum_list (map (\<lambda>e. unat (weight_of (snd e))) (vw_votes vw))"

lemma unat_sum_list_le: "unat (sum_list (map f xs) :: u64) \<le> sum_list (map (\<lambda>x. unat (f x)) xs)"
proof (induction xs)
  case (Cons x xs)
  have "unat (f x + sum_list (map f xs)) \<le> unat (f x) + unat (sum_list (map f xs))"
    by (simp add: unat_word_ariths)
  with Cons show ?case by simp
qed simp

lemma weight_le_full: "value_ok p r s b vw \<Longrightarrow> unat (vw_weight vw) \<le> full_weight vw"
  by (simp add: value_ok_def full_weight_def unat_sum_list_le)

text \<open>Which votes a recorded block of a type stands for.\<close>

fun two_t_kind :: "TwoTPlusOneVotedBlockType \<Rightarrow> voted_block \<Rightarrow> bool" where
  "two_t_kind SoftVotedBlock vb \<longleftrightarrow> step_type (vb_step vb) = soft_vote"
| "two_t_kind CertVotedBlock vb \<longleftrightarrow> step_type (vb_step vb) = cert_vote"
| "two_t_kind NextVotedBlock vb \<longleftrightarrow> step_type (vb_step vb) = next_vote \<and> vb_hash vb \<noteq> kNullBlockHash"
| "two_t_kind NextVotedNullBlock vb \<longleftrightarrow> step_type (vb_step vb) = next_vote \<and> vb_hash vb = kNullBlockHash"

definition quorum_ok :: "vote_env \<Rightarrow> (u64 \<Rightarrow> u64) \<Rightarrow> verified_votes \<Rightarrow> bool" where
  "quorum_ok env0 dpos vv \<longleftrightarrow>
     (\<forall>p r ty vb. getTwoTPlusOneVotedBlock vv p r ty = Some vb \<longrightarrow>
        two_t_kind ty vb
        \<and> (\<exists>vw. value_of vv p r (vb_step vb) (vb_hash vb) = Some vw
             \<and> unat (two_t_of env0 (dpos (p - 1)) (step_type (vb_step vb))) \<le> full_weight vw))"

lemma quorum_ok_same:
  assumes "quorum_ok env0 dpos vv"
    and "\<And>p r s b. value_of vv' p r s b = value_of vv p r s b"
    and "\<And>p r ty. getTwoTPlusOneVotedBlock vv' p r ty = getTwoTPlusOneVotedBlock vv p r ty"
  shows "quorum_ok env0 dpos vv'"
  using assms by (simp add: quorum_ok_def)

lemma quorum_ok_put_value:
  assumes inv: "vv_inv vv" and ok: "quorum_ok env0 dpos vv"
    and grows: "\<And>old. value_of vv (v_period v) (v_round v) (v_step v) (v_block v) = Some old \<Longrightarrow>
      full_weight old \<le> full_weight vw"
  shows "quorum_ok env0 dpos (put_value v vw vv)"
  unfolding quorum_ok_def
proof (intro allI impI)
  fix p r ty vb
  assume "getTwoTPlusOneVotedBlock (put_value v vw vv) p r ty = Some vb"
  then have "getTwoTPlusOneVotedBlock vv p r ty = Some vb"
    by (simp add: read_put_value[OF inv])
  then obtain old where "two_t_kind ty vb" and old: "value_of vv p r (vb_step vb) (vb_hash vb) = Some old"
    "unat (two_t_of env0 (dpos (p - 1)) (step_type (vb_step vb))) \<le> full_weight old"
    using ok unfolding quorum_ok_def by blast
  moreover have "\<exists>x. value_of (put_value v vw vv) p r (vb_step vb) (vb_hash vb) = Some x
      \<and> full_weight old \<le> full_weight x"
    using old(1) grows[of old] by (auto simp: read_put_value[OF inv])
  ultimately show "two_t_kind ty vb \<and> (\<exists>x. value_of (put_value v vw vv) p r (vb_step vb) (vb_hash vb) = Some x
      \<and> unat (two_t_of env0 (dpos (p - 1)) (step_type (vb_step vb))) \<le> full_weight x)"
    by (meson le_trans)
qed

lemma quorum_ok_record:
  assumes inv: "vv_inv vv" and ok: "quorum_ok env0 dpos vv"
    and vw: "value_of vv (v_period v) (v_round v) (v_step v) (v_block v) = Some vw"
    and weight: "unat (two_t_of env0 (dpos (v_period v - 1)) (v_type v)) \<le> full_weight vw"
    and kind: "two_t_kind ty \<lparr>vb_hash = v_block v, vb_step = v_step v\<rparr>"
  shows "quorum_ok env0 dpos (insertTwoTPlusOneVotedBlock ty v vv)"
  unfolding quorum_ok_def read_insertTwoTPlusOneVotedBlock(1)[OF inv]
proof (intro allI impI)
  fix p r ty' vb
  assume "getTwoTPlusOneVotedBlock (insertTwoTPlusOneVotedBlock ty v vv) p r ty' = Some vb"
  from read_insertTwoTPlusOneVotedBlock(2)[OF inv this]
  show "two_t_kind ty' vb \<and> (\<exists>vw. value_of vv p r (vb_step vb) (vb_hash vb) = Some vw
      \<and> unat (two_t_of env0 (dpos (p - 1)) (step_type (vb_step vb))) \<le> full_weight vw)"
  proof
    assume "getTwoTPlusOneVotedBlock vv p r ty' = Some vb"
    with ok show ?thesis unfolding quorum_ok_def by blast
  next
    assume "p = v_period v \<and> r = v_round v \<and> ty' = ty \<and> vb = \<lparr>vb_hash = v_block v, vb_step = v_step v\<rparr>"
    with vw weight kind show ?thesis by (simp add: v_type_def)
  qed
qed

definition vm_ok :: "vote_env \<Rightarrow> (u64 \<Rightarrow> u64) \<Rightarrow> vote_manager \<Rightarrow> bool" where
  "vm_ok env0 dpos m \<longleftrightarrow> vv_inv (vm_votes m) \<and> cache_ok env0 dpos m \<and> quorum_ok env0 dpos (vm_votes m)"

lemma vm_ok_votes:
  "cache_ok env0 dpos m \<Longrightarrow> vv_inv vv \<Longrightarrow> quorum_ok env0 dpos vv \<Longrightarrow> vm_ok env0 dpos (m\<lparr>vm_votes := vv\<rparr>)"
  by (simp add: vm_ok_def cache_ok_def)

lemma saveTwoTPlusOneVotesInDb_ok:
  assumes ok: "vm_ok env0 dpos m" and res: "saveTwoTPlusOneVotesInDb ty v rv vw m = Inr m'"
    and vw: "value_of (vm_votes m) (v_period v) (v_round v) (v_step v) (v_block v) = Some vw"
    and weight: "unat (two_t_of env0 (dpos (v_period v - 1)) (v_type v)) \<le> full_weight vw"
    and kind: "two_t_kind ty \<lparr>vb_hash = v_block v, vb_step = v_step v\<rparr>"
  shows "vm_ok env0 dpos m'"
proof (cases "um_find (rv_two_t_plus_one rv) ty")
  case None
  note parts = ok[unfolded vm_ok_def]
  obtain sv where "getStepVotes (vm_votes m) (v_period v) (v_round v) (v_step v) = Some sv"
    "um_find (sv_votes sv) (v_block v) = Some vw"
    using vw by (auto simp: value_of_def split: option.splits)
  then have "vv_inv (insertTwoTPlusOneVotedBlock ty v (vm_votes m))"
    using parts by (blast intro: insertTwoTPlusOneVotedBlock_inv)
  moreover have "quorum_ok env0 dpos (insertTwoTPlusOneVotedBlock ty v (vm_votes m))"
    by (rule quorum_ok_record[OF parts[THEN conjunct1] parts[THEN conjunct2, THEN conjunct2] vw weight kind])
  moreover have "vm_votes m' = insertTwoTPlusOneVotedBlock ty v (vm_votes m)"
    "vm_two_t_cache m' = vm_two_t_cache m"
    using res None by (auto simp: saveTwoTPlusOneVotesInDb_def Let_def)
  ultimately show ?thesis
    using parts by (simp add: vm_ok_def cache_ok_def)
next
  case (Some vb)
  then show ?thesis using res ok by (auto simp: saveTwoTPlusOneVotesInDb_def split: if_splits)
qed

lemma map_sum_Pair_Inr [simp]: "map_sum id (Pair c) x = Inr (b, m) \<longleftrightarrow> b = c \<and> x = Inr m"
  by (cases x) auto

lemma update_two_t_ok:
  assumes ok: "vm_ok env0 dpos m" and res: "update_two_t v n vw m = Inr (b, m')"
    and n: "n = two_t_of env0 (dpos (v_period v - 1)) (v_type v)"
    and vw: "value_of (vm_votes m) (v_period v) (v_round v) (v_step v) (v_block v) = Some vw"
  shows "vm_ok env0 dpos m'"
proof (cases "getRoundVotes (vm_votes m) (v_period v) (v_round v)")
  case None
  then show ?thesis using ok res by (simp add: update_two_t_def)
next
  case (Some rv)
  note parts = ok[unfolded vm_ok_def]
  define m1 where "m1 = (if v_type v = next_vote \<and> (n - 1) div 2 + 1 \<le> vw_weight vw \<and> rv_t_plus_one_step rv < v_step v
                    then m\<lparr>vm_votes := setNetworkTPlusOneStep v (vm_votes m)\<rparr> else m)"
  have ok1: "vm_ok env0 dpos m1"
    using parts by (auto simp: m1_def vm_ok_def cache_ok_def
        intro: setNetworkTPlusOneStep_inv quorum_ok_same)
  have vw1: "value_of (vm_votes m1) (v_period v) (v_round v) (v_step v) (v_block v) = Some vw"
    using vw parts by (simp add: m1_def)
  have "unat (vw_weight vw) \<le> full_weight vw"
  proof -
    obtain sv where "um_find (rv_step_votes rv) (v_step v) = Some sv" "um_find (sv_votes sv) (v_block v) = Some vw"
      using vw Some by (auto simp: value_of_def getStepVotes_round split: option.splits)
    moreover have "round_ok (v_period v) (v_round v) rv" using vv_inv_round[OF _ Some] parts by blast
    ultimately have "value_ok (v_period v) (v_round v) (v_step v) (v_block v) vw"
      unfolding round_ok_def step_ok_def by blast
    then show ?thesis by (rule weight_le_full)
  qed
  then have weight: "unat (two_t_of env0 (dpos (v_period v - 1)) (v_type v)) \<le> full_weight vw"
    if "\<not> vw_weight vw < n"
    using that n by (simp add: word_less_nat_alt)
  have eq: "update_two_t v n vw m =
      (if vw_weight vw < n then Inr (True, m1)
       else
         (case v_type v of
            soft_vote \<Rightarrow> map_sum id (Pair True) (saveTwoTPlusOneVotesInDb SoftVotedBlock v rv vw m1)
          | cert_vote \<Rightarrow> map_sum id (Pair True) (saveTwoTPlusOneVotesInDb CertVotedBlock v rv vw m1)
          | next_vote \<Rightarrow>
              map_sum id (Pair True)
                (saveTwoTPlusOneVotesInDb
                   (if v_block v = kNullBlockHash then NextVotedNullBlock else NextVotedBlock) v rv vw m1)
          | _ \<Rightarrow> Inr (True, m1)))"
    unfolding update_two_t_def m1_def Let_def Some option.case ..
  show ?thesis
  proof (cases "vw_weight vw < n")
    case True
    then show ?thesis using res ok1 unfolding eq by simp
  next
    case False
    note save = saveTwoTPlusOneVotesInDb_ok[OF ok1 _ vw1 weight[OF False]]
    show ?thesis
      using res False ok1 save unfolding eq
      by (cases "v_type v") (auto simp: v_type_def split: if_splits)
  qed
qed

lemma insertVotedValue_quorum:
  assumes inv: "vv_inv vv" and ok: "quorum_ok env0 dpos vv" and res: "insertVotedValue v vv = Inr (x, vv')"
  shows "quorum_ok env0 dpos vv'"
    and "x = Some vw \<Longrightarrow> value_of vv' (v_period v) (v_round v) (v_step v) (v_block v) = Some vw"
proof -
  have at: "value_of vv (v_period v) (v_round v) (v_step v) (v_block v) = Some old \<Longrightarrow> value_at vv v = old" for old
    by (auto simp: value_of_def value_at_step um_get_or_def split: option.splits)
  have um: "um_inv (vw_votes (value_at vv v))"
    using value_at_ok[OF inv, of v] by (simp add: value_ok_def)
  show "quorum_ok env0 dpos vv'"
  proof (cases "um_find (vw_votes (value_at vv v)) (v_hash v)")
    case (Some y)
    then have "vv' = vv" using res put_value_same[OF inv, of v] by (auto simp: insertVotedValue_eq)
    with ok show ?thesis by simp
  next
    case None
    then obtain w where w: "v_weight v = Some w"
      using res by (auto simp: insertVotedValue_eq split: option.splits)
    let ?vw = "(value_at vv v)\<lparr>vw_votes := um_put (v_hash v) v (vw_votes (value_at vv v)),
                 vw_weight := vw_weight (value_at vv v) + w\<rparr>"
    have "vv' = put_value v ?vw vv"
      using res None w by (simp add: insertVotedValue_eq Let_def)
    moreover have "full_weight (value_at vv v) \<le> full_weight ?vw"
      using um None by (simp add: full_weight_def um.sum_entries_put_new)
    ultimately show ?thesis
      using quorum_ok_put_value[OF inv ok, of v ?vw] at by auto
  qed
  show "value_of vv' (v_period v) (v_round v) (v_step v) (v_block v) = Some vw" if "x = Some vw"
    using res that
    by (auto simp: insertVotedValue_eq read_put_value[OF inv] Let_def split: if_splits option.splits)
qed

text \<open>The manager once \<open>addVerifiedVote\<close> has stored the vote, before it looks at the thresholds.\<close>

definition vote_stored :: "pbft_vote \<Rightarrow> verified_votes \<Rightarrow> verified_votes \<Rightarrow> vote_manager \<Rightarrow> vote_manager" where
  "vote_stored v vv1 vv2 m =
     (if v_period v < vm_current_period m \<and> isValidRewardVote (m\<lparr>vm_votes := vv1\<rparr>) v
      then m\<lparr>vm_votes := vv2, vm_extra_reward_votes := vm_extra_reward_votes m @ [v_hash v],
             vm_db := saveExtraRewardVote v (vm_db m)\<rparr>
      else m\<lparr>vm_votes := vv2\<rparr>)"

lemma addVerifiedVote_stored:
  assumes "v_weight v = Some weight" and "weight \<noteq> 0"
    and "insertUniqueVoter v (vm_votes m) = (None, vv1)"
    and "\<not> (v_period v < vm_current_period m \<and> \<not> isValidRewardVote (m\<lparr>vm_votes := vv1\<rparr>) v)"
    and "insertVotedValue v vv1 = Inr (Some vw, vv2)"
  shows "addVerifiedVote env v m =
      (case getPbftTwoTPlusOne env (v_period v - 1) (v_type v) (vote_stored v vv1 vv2 m) of
         Inl e \<Rightarrow> Inl e
       | Inr (None, m4) \<Rightarrow> Inr (True, m4)
       | Inr (Some n, m4) \<Rightarrow> update_two_t v n vw m4)"
  using assms by (auto simp: addVerifiedVote_def vote_stored_def Let_def)

lemma vote_stored_frames [simp]:
  "vm_votes (vote_stored v vv1 vv2 m) = vv2" "vm_two_t_cache (vote_stored v vv1 vv2 m) = vm_two_t_cache m"
  "vm_proofs (vote_stored v vv1 vv2 m) = vm_proofs m"
  "vm_current_period (vote_stored v vv1 vv2 m) = vm_current_period m"
  by (simp_all add: vote_stored_def)

lemma addVerifiedVote_ok:
  assumes env: "chain_env env0 dpos env" and ok: "vm_ok env0 dpos m"
    and res: "addVerifiedVote env v m = Inr (b, m')"
  shows "vm_ok env0 dpos m'"
proof -
  note parts = ok[unfolded vm_ok_def]
  obtain weight where w: "v_weight v = Some weight"
    using res by (auto simp: addVerifiedVote_def split: option.splits)
  obtain ex vv1 where u: "insertUniqueVoter v (vm_votes m) = (ex, vv1)" by force
  have inv1: "vv_inv vv1" using insertUniqueVoter_inv[of "vm_votes m" v] parts u by simp
  have q1: "quorum_ok env0 dpos vv1"
    using quorum_ok_same[of env0 dpos "vm_votes m" vv1] read_insertUniqueVoter[of "vm_votes m" v] parts u by simp
  have ok1: "vm_ok env0 dpos (m\<lparr>vm_votes := vv1\<rparr>)"
    using vm_ok_votes inv1 q1 parts by blast
  show ?thesis
  proof (cases "weight = 0 \<or> ex \<noteq> None
      \<or> (v_period v < vm_current_period m \<and> \<not> isValidRewardVote (m\<lparr>vm_votes := vv1\<rparr>) v)")
    case True
    then have "vm_votes m' = vm_votes m \<or> vm_votes m' = vv1" "vm_two_t_cache m' = vm_two_t_cache m"
      using res w u by (auto simp: addVerifiedVote_def Let_def split: option.splits if_splits)
    with parts inv1 q1 show ?thesis by (auto simp: vm_ok_def cache_ok_def)
  next
    case False
    obtain x vv2 where ins: "insertVotedValue v vv1 = Inr (x, vv2)"
      using res w u False by (auto simp: addVerifiedVote_def Let_def split: sum.splits if_splits)
    have inv2: "vv_inv vv2" by (rule insertVotedValue_inv[OF inv1 ins])
    note q2 = insertVotedValue_quorum[OF inv1 q1 ins]
    show ?thesis
    proof (cases x)
      case None
      then have "m' = m\<lparr>vm_votes := vv2\<rparr>"
        using res w u False ins by (auto simp: addVerifiedVote_def Let_def split: if_splits)
      then show ?thesis using vm_ok_votes[OF _ inv2 q2(1)] parts by simp
    next
      case (Some vw)
      let ?m3 = "vote_stored v vv1 vv2 m"
      have m3: "cache_ok env0 dpos ?m3"
        using parts by (simp add: cache_ok_def)
      have "addVerifiedVote env v m =
          (case getPbftTwoTPlusOne env (v_period v - 1) (v_type v) ?m3 of
             Inl e \<Rightarrow> Inl e
           | Inr (None, m4) \<Rightarrow> Inr (True, m4)
           | Inr (Some n, m4) \<Rightarrow> update_two_t v n vw m4)"
        using addVerifiedVote_stored[OF w, of m vv1 vw vv2 env] u False ins Some by simp
      note eq = this
      then obtain r m4 where g: "getPbftTwoTPlusOne env (v_period v - 1) (v_type v) ?m3 = Inr (r, m4)"
        using res by (auto split: sum.splits)
      note chain = getPbftTwoTPlusOne_chain[OF env m3 g]
      have m4: "vm_votes m4 = vv2" using chain(3) by auto
      have ok4: "vm_ok env0 dpos m4"
        using chain(1) m4 inv2 q2(1) by (simp add: vm_ok_def)
      show ?thesis
      proof (cases r)
        case None
        then show ?thesis using res eq g ok4 by simp
      next
        case (Some n)
        have "update_two_t v n vw m4 = Inr (b, m')" using res eq g Some by simp
        from update_two_t_ok[OF ok4 this chain(2)[OF Some]] show ?thesis
          using q2(2) \<open>x = Some vw\<close> m4 by simp
      qed
    qed
  qed
qed

lemma save_frames:
  "setCurrentPbftPeriodAndRound p r m = Inr m' \<Longrightarrow> vm_votes m' = vm_votes m \<and> vm_two_t_cache m' = vm_two_t_cache m"
  "resetRewardVotes p r s h m = Inr m' \<Longrightarrow> vm_votes m' = vm_votes m \<and> vm_two_t_cache m' = vm_two_t_cache m"
  "validateVote env v strict m = Inr (verdict, v', m') \<Longrightarrow>
     vm_votes m' = vm_votes m \<and> vm_two_t_cache m' = vm_two_t_cache m"
  by (auto simp: setCurrentPbftPeriodAndRound_def resetRewardVotes_def validateVote_def Let_def
      split: option.splits sum.splits if_splits call.splits)

text \<open>The states of a vote manager of one chain.\<close>

inductive vm_reachable :: "vote_env \<Rightarrow> (u64 \<Rightarrow> u64) \<Rightarrow> vote_manager \<Rightarrow> bool" for env0 dpos where
  vm_start: "vm_reachable env0 dpos (vm_empty db)"
| vm_add: "vm_reachable env0 dpos m \<Longrightarrow> chain_env env0 dpos env \<Longrightarrow> addVerifiedVote env v m = Inr (b, m') \<Longrightarrow>
    vm_reachable env0 dpos m'"
| vm_round: "vm_reachable env0 dpos m \<Longrightarrow> setCurrentPbftPeriodAndRound p r m = Inr m' \<Longrightarrow>
    vm_reachable env0 dpos m'"
| vm_reset: "vm_reachable env0 dpos m \<Longrightarrow> resetRewardVotes p r s h m = Inr m' \<Longrightarrow> vm_reachable env0 dpos m'"
| vm_clean: "vm_reachable env0 dpos m \<Longrightarrow> vm_reachable env0 dpos (vm_cleanupVotesByPeriod p m)"
| vm_own: "vm_reachable env0 dpos m \<Longrightarrow> vm_reachable env0 dpos (saveOwnVerifiedVote v m)"
| vm_clear: "vm_reachable env0 dpos m \<Longrightarrow> vm_reachable env0 dpos (clearOwnVerifiedVotes m)"
| vm_validate: "vm_reachable env0 dpos m \<Longrightarrow> validateVote env v strict m = Inr (verdict, v', m') \<Longrightarrow>
    vm_reachable env0 dpos m'"
| vm_two_t: "vm_reachable env0 dpos m \<Longrightarrow> chain_env env0 dpos env \<Longrightarrow>
    getPbftTwoTPlusOne env p ty m = Inr (x, m') \<Longrightarrow> vm_reachable env0 dpos m'"

lemma vm_ok_frame:
  "vm_ok env0 dpos m \<Longrightarrow> vm_votes m' = vm_votes m \<and> vm_two_t_cache m' = vm_two_t_cache m \<Longrightarrow> vm_ok env0 dpos m'"
  by (simp add: vm_ok_def cache_ok_def)

lemma vm_reachable_ok: "vm_reachable env0 dpos m \<Longrightarrow> vm_ok env0 dpos m"
proof (induction rule: vm_reachable.induct)
  case (vm_start db)
  show ?case
    by (simp add: vm_ok_def vm_empty_def cache_ok_def quorum_ok_def getTwoTPlusOneVotedBlock_def)
next
  case (vm_clean m p)
  then have "quorum_ok env0 dpos (cleanupVotesByPeriod p (vm_votes m))"
    unfolding vm_ok_def quorum_ok_def by (auto simp: read_cleanup)
  with vm_clean.IH show ?case
    by (simp add: vm_ok_def cache_ok_def vm_cleanupVotesByPeriod_def cleanupVotesByPeriod_inv)
next
  case (vm_two_t m env p ty x m')
  then have "cache_ok env0 dpos m" by (simp add: vm_ok_def)
  note chain = getPbftTwoTPlusOne_chain[OF vm_two_t.hyps(2) this vm_two_t.hyps(3)]
  then have "vm_votes m' = vm_votes m" by auto
  with chain(1) vm_two_t.IH show ?case by (simp add: vm_ok_def)
qed (auto intro: addVerifiedVote_ok vm_ok_frame dest: save_frames
     simp: saveOwnVerifiedVote_def clearOwnVerifiedVotes_def)

text \<open>
  C1: in every state a vote manager can reach, a block recorded as 2t+1 voted for a period and
  round really has its votes: distinct stored votes for exactly that block in the recorded step,
  of the step that belongs to the recorded kind, with at least 2t+1 weight for the period before.
\<close>

theorem recorded_block_has_quorum:
  assumes "vm_reachable env0 dpos m" and "getTwoTPlusOneVotedBlock (vm_votes m) p r ty = Some vb"
  shows "two_t_kind ty vb
     \<and> (\<exists>vw. value_of (vm_votes m) p r (vb_step vb) (vb_hash vb) = Some vw
          \<and> unat (two_t_of env0 (dpos (p - 1)) (step_type (vb_step vb))) \<le> full_weight vw
          \<and> value_ok p r (vb_step vb) (vb_hash vb) vw)"
proof -
  note ok = vm_reachable_ok[OF assms(1), unfolded vm_ok_def]
  then obtain vw where vw: "two_t_kind ty vb" "value_of (vm_votes m) p r (vb_step vb) (vb_hash vb) = Some vw"
    "unat (two_t_of env0 (dpos (p - 1)) (step_type (vb_step vb))) \<le> full_weight vw"
    using assms(2) unfolding quorum_ok_def by blast
  moreover have "value_ok p r (vb_step vb) (vb_hash vb) vw"
    using value_of_ok[OF ok[THEN conjunct1] vw(2)] .
  ultimately show ?thesis by blast
qed

section \<open>The next round\<close>

definition next_voted :: "round_verified_votes \<Rightarrow> bool" where
  "next_voted rv \<longleftrightarrow> um_find (rv_two_t_plus_one rv) NextVotedBlock \<noteq> None
                   \<or> um_find (rv_two_t_plus_one rv) NextVotedNullBlock \<noteq> None"

text \<open>The rounds from \<open>r\<close> on in which a block or the null block is next voted by 2t+1.\<close>

definition next_voted_rounds :: "verified_votes \<Rightarrow> pbft_period \<Rightarrow> pbft_round \<Rightarrow> pbft_round set" where
  "next_voted_rounds vv p r = {r'. r \<le> r' \<and> (\<exists>rv. getRoundVotes vv p r' = Some rv \<and> next_voted rv)}"

definition voted_from :: "pbft_round \<Rightarrow> (pbft_round \<times> round_verified_votes) list \<Rightarrow> pbft_round set" where
  "voted_from cur es = {k. cur \<le> k \<and> (\<exists>rv. (k, rv) \<in> set es \<and> next_voted rv)}"

lemma new_round_loop_spec:
  assumes "sorted_wrt (\<lambda>x y. fst y < fst x) es"
  shows "new_round_loop cur es = (if voted_from cur es = {} then None else Some (Max (voted_from cur es) + 1))"
  using assms
proof (induction cur es rule: new_round_loop.induct)
  case (2 cur k rv rest)
  have below: "\<forall>k' rv'. (k', rv') \<in> set rest \<longrightarrow> k' < k" using 2 by auto
  show ?case
  proof (cases "k < cur")
    case True
    then have "voted_from cur ((k, rv) # rest) = {}" using below by (fastforce simp: voted_from_def)
    with True show ?thesis by simp
  next
    case False
    show ?thesis
    proof (cases "next_voted rv")
      case True
      have "Max (voted_from cur ((k, rv) # rest)) = k"
      proof (rule Max_eqI)
        show "finite (voted_from cur ((k, rv) # rest))" by (simp add: voted_from_def)
        show "y \<le> k" if "y \<in> voted_from cur ((k, rv) # rest)" for y
          using that below by (fastforce simp: voted_from_def)
        show "k \<in> voted_from cur ((k, rv) # rest)" using False True by (auto simp: voted_from_def)
      qed
      moreover have "k \<in> voted_from cur ((k, rv) # rest)" using False True by (auto simp: voted_from_def)
      ultimately show ?thesis using False True by (auto simp: next_voted_def)
    next
      case nv: False
      then have "voted_from cur ((k, rv) # rest) = voted_from cur rest" by (auto simp: voted_from_def)
      moreover have "new_round_loop cur ((k, rv) # rest) = new_round_loop cur rest"
        using nv False by (simp add: next_voted_def)
      ultimately show ?thesis
        using "2.IH" False nv "2.prems" by (simp add: next_voted_def)
    qed
  qed
qed (simp add: voted_from_def)

text \<open>
  C16: \<open>determineNewRound\<close> answers with the successor of the greatest round, at or above the
  current one, in which a block or the null block is next voted by 2t+1, and with nothing exactly
  when there is no such round.
\<close>

theorem determineNewRound_spec:
  assumes "vm_reachable env0 dpos m"
  shows "determineNewRound m p r =
     (if next_voted_rounds (vm_votes m) p r = {} then None
      else Some (Max (next_voted_rounds (vm_votes m) p r) + 1))"
proof (cases "um_find (vm_votes m) p")
  case None
  then show ?thesis
    by (simp add: determineNewRound_def getPeriodVotes_def next_voted_rounds_def getRoundVotes_def)
next
  case (Some pm)
  have om: "om_inv pm"
    using vm_reachable_ok[OF assms] Some by (simp add: vm_ok_def vv_inv_def)
  then have "sorted_wrt (\<lambda>x y. fst y < fst x) (rev pm)"
    by (simp add: om_inv_def sorted_wrt_rev sorted_wrt_map)
  moreover have "(k, rv) \<in> set pm \<longleftrightarrow> getRoundVotes (vm_votes m) p k = Some rv" for k rv
    using om.mem_entries[OF om, of k rv] Some by (simp add: getRoundVotes_def)
  ultimately show ?thesis
    using new_round_loop_spec[of "rev pm" r] Some
    by (simp add: determineNewRound_def getPeriodVotes_def next_voted_rounds_def voted_from_def)
qed

section \<open>Reward votes\<close>

definition has_all :: "(h256, pbft_vote) umap \<Rightarrow> h256 list \<Rightarrow> bool" where
  "has_all votes hs \<longleftrightarrow> (\<forall>h \<in> set hs. um_find votes h \<noteq> None)"

lemma find_votes_loop_all: "fst (find_votes_loop votes copy hs b acc) \<longleftrightarrow> b \<and> has_all votes hs"
  by (induction votes copy hs b acc rule: find_votes_loop.induct)
     (auto simp: has_all_def Let_def split: option.splits)

lemma find_votes_loop_votes:
  "has_all votes hs \<Longrightarrow>
     snd (find_votes_loop votes True hs True acc) = acc @ map (\<lambda>h. the (um_find votes h)) hs"
  by (induction hs arbitrary: acc) (auto simp: has_all_def Let_def split: option.splits)

lemmas find_votes_loop_spec = find_votes_loop_all find_votes_loop_votes

lemma round_reward_votes_spec:
  assumes inv: "vv_inv vv" and rv: "getRoundVotes vv p r = Some rv"
  shows "fst (round_reward_votes rv hs b True) \<longleftrightarrow> (\<exists>vw. value_of vv p r 3 b = Some vw \<and> has_all (vw_votes vw) hs)"
    and "round_reward_votes rv hs b True = (True, vs) \<Longrightarrow>
           map v_hash vs = hs \<and> (\<forall>v \<in> set vs. vote_at p r 3 v \<and> v_block v = b)"
proof -
  have val: "value_of vv p r 3 b = (case um_find (rv_step_votes rv) 3 of None \<Rightarrow> None | Some sv \<Rightarrow> um_find (sv_votes sv) b)"
    by (simp add: value_of_def getStepVotes_round rv)
  show "fst (round_reward_votes rv hs b True) \<longleftrightarrow> (\<exists>vw. value_of vv p r 3 b = Some vw \<and> has_all (vw_votes vw) hs)"
    unfolding val round_reward_votes_def
    using find_votes_loop_spec(1)[of _ True hs True "[]"]
    by (auto split: option.splits prod.splits bool.splits) (metis fst_conv)+
  assume res: "round_reward_votes rv hs b True = (True, vs)"
  then obtain vw where vw: "value_of vv p r 3 b = Some vw"
    "find_votes_loop (vw_votes vw) True hs True [] = (True, vs)"
    by (auto simp: val round_reward_votes_def split: option.splits prod.splits bool.splits)
  then have all: "has_all (vw_votes vw) hs"
    using find_votes_loop_spec(1)[of "vw_votes vw" True hs True "[]"] by simp
  then have vs: "vs = map (\<lambda>h. the (um_find (vw_votes vw) h)) hs"
    using find_votes_loop_spec(2)[of "vw_votes vw" hs "[]"] vw(2) by simp
  have "value_ok p r 3 b vw" by (rule value_of_ok[OF inv vw(1)])
  then have "vote_at p r 3 (the (um_find (vw_votes vw) h)) \<and> v_hash (the (um_find (vw_votes vw) h)) = h
      \<and> v_block (the (um_find (vw_votes vw) h)) = b" if "h \<in> set hs" for h
    using all that unfolding has_all_def value_ok_def by fastforce
  then show "map v_hash vs = hs \<and> (\<forall>v \<in> set vs. vote_at p r 3 v \<and> v_block v = b)"
    unfolding vs by (simp add: map_idI)
qed

lemma reward_rounds_loop_cases:
  "fst (reward_rounds_loop es hs b c) \<longleftrightarrow> (\<exists>e \<in> set es. fst (round_reward_votes (snd e) hs b c))"
  "reward_rounds_loop es hs b c = (True, vs) \<Longrightarrow> \<exists>e \<in> set es. round_reward_votes (snd e) hs b c = (True, vs)"
  by (induction es hs b c rule: reward_rounds_loop.induct) (auto split: prod.splits bool.splits)

text \<open>Whether one round of the reward period holds all the hashes as cert votes for the reward block.\<close>

definition all_rewards_in_round :: "vote_manager \<Rightarrow> h256 list \<Rightarrow> pbft_round \<Rightarrow> bool" where
  "all_rewards_in_round m hs r \<longleftrightarrow>
     (\<exists>vw. value_of (vm_votes m) (ucast (vm_reward_period m)) r 3 (vm_reward_block m) = Some vw
         \<and> has_all (vw_votes vw) hs)"


section \<open>Uniqueness of votes\<close>

text \<open>
  \<open>isUniqueVote\<close>, asked before a vote is validated, and \<open>insertUniqueVoter\<close>, asked when it is
  added, take the same decision and name the same conflicting vote.
\<close>

theorem isUniqueVote_agrees:
  "isUniqueVote m v = (fst (insertUniqueVoter v (vm_votes m)) = None, fst (insertUniqueVoter v (vm_votes m)))"
  by (auto simp: isUniqueVote_def insertUniqueVoter_def check_voter_def getStepVotes_round Let_def split_def
      split: option.splits)

lemma read_steps:
  assumes "vv_inv vv"
  shows "getStepVotes (setNetworkTPlusOneStep v vv) p r s = getStepVotes vv p r s"
    and "getStepVotes (insertTwoTPlusOneVotedBlock ty v vv) p r s = getStepVotes vv p r s"
  by (auto simp: setNetworkTPlusOneStep_def insertTwoTPlusOneVotedBlock_def getStepVotes_round
      getRoundVotes_set_round[OF assms] split: option.splits)

lemma saveTwoTPlusOneVotesInDb_frames:
  assumes "vv_inv (vm_votes m)" and "saveTwoTPlusOneVotesInDb ty v rv vw m = Inr m'"
  shows "getStepVotes (vm_votes m') p r s = getStepVotes (vm_votes m) p r s
     \<and> vm_proofs m' = vm_proofs m \<and> vm_current_period m' = vm_current_period m"
  using assms read_steps[OF assms(1)]
  by (auto simp: saveTwoTPlusOneVotesInDb_def Let_def split: option.splits if_splits)

lemma update_two_t_frames:
  assumes inv: "vv_inv (vm_votes m)" and res: "update_two_t v n vw m = Inr (b, m')"
  shows "b \<and> getStepVotes (vm_votes m') p r s = getStepVotes (vm_votes m) p r s
     \<and> vm_proofs m' = vm_proofs m \<and> vm_current_period m' = vm_current_period m"
proof -
  have "vv_inv (vm_votes (m\<lparr>vm_votes := setNetworkTPlusOneStep v (vm_votes m)\<rparr>))"
    using inv by (simp add: setNetworkTPlusOneStep_inv)
  note frames = saveTwoTPlusOneVotesInDb_frames[OF this] saveTwoTPlusOneVotesInDb_frames[OF inv]
  show ?thesis
    using res
    by (auto simp: update_two_t_def Let_def read_steps[OF inv]
        split: option.splits if_splits PbftVoteTypes.splits dest!: frames)
qed

lemma insertUniqueVoter_no_step:
  "getStepVotes (vm_votes m) (v_period v) (v_round v) (v_step v) = None \<Longrightarrow>
     insertUniqueVoter v (vm_votes m) = (None, vm_votes m)"
  by (auto simp: insertUniqueVoter_def getStepVotes_round split: option.splits)

lemma getPbftTwoTPlusOne_frame:
  "getPbftTwoTPlusOne env p ty m = Inr (x, m') \<Longrightarrow> m' = m\<lparr>vm_two_t_cache := vm_two_t_cache m'\<rparr>"
  by (auto simp: getPbftTwoTPlusOne_def compute_two_t_plus_one_def Let_def
      split: option.splits if_splits call.splits)

lemma value_at_value_of:
  "value_at vv v =
     (case value_of vv (v_period v) (v_round v) (v_step v) (v_block v) of None \<Rightarrow> empty_value | Some vw \<Rightarrow> vw)"
  by (auto simp: value_at_step value_of_def um_get_or_def split: option.splits)

lemma voteInVerifiedMap_iff:
  "voteInVerifiedMap m v \<longleftrightarrow> um_find (vw_votes (value_at (vm_votes m) v)) (v_hash v) \<noteq> None"
  by (auto simp: voteInVerifiedMap_def value_at_step um_get_or_def split: option.splits)

text \<open>What is left of a vote that was not rejected: stored, no proof submitted.\<close>

lemma addVerifiedVote_accepted:
  assumes inv: "vv_inv (vm_votes m)" and w: "v_weight v = Some weight" "weight \<noteq> 0"
    and u: "insertUniqueVoter v (vm_votes m) = (None, vv1)"
    and fresh: "\<not> v_period v < vm_current_period m"
    and new: "um_find (vw_votes (value_at vv1 v)) (v_hash v) = None"
    and res: "addVerifiedVote env v m = Inr (b, m')"
  shows "b \<and> vm_proofs m' = vm_proofs m \<and> vm_current_period m' = vm_current_period m
     \<and> (\<exists>vw. um_find (vw_votes vw) = (um_find (vw_votes (value_at vv1 v)))(v_hash v \<mapsto> v)
          \<and> (\<forall>p r s. getStepVotes (vm_votes m') p r s = getStepVotes (put_value v vw vv1) p r s))"
proof -
  have inv1: "vv_inv vv1" using insertUniqueVoter_inv[OF inv, of v] u by simp
  define vw where "vw = (value_at vv1 v)\<lparr>vw_votes := um_put (v_hash v) v (vw_votes (value_at vv1 v)),
      vw_weight := vw_weight (value_at vv1 v) + weight\<rparr>"
  have ins: "insertVotedValue v vv1 = Inr (Some vw, put_value v vw vv1)"
    using new w by (simp add: insertVotedValue_eq vw_def Let_def)
  have inv2: "vv_inv (put_value v vw vv1)" by (rule insertVotedValue_inv[OF inv1 ins])
  let ?m3 = "vote_stored v vv1 (put_value v vw vv1) m"
  have "addVerifiedVote env v m =
      (case getPbftTwoTPlusOne env (v_period v - 1) (v_type v) ?m3 of
         Inl e \<Rightarrow> Inl e
       | Inr (None, m4) \<Rightarrow> Inr (True, m4)
       | Inr (Some n, m4) \<Rightarrow> update_two_t v n vw m4)"
    using addVerifiedVote_stored[OF w u _ ins] fresh by simp
  then obtain r m4 where g: "getPbftTwoTPlusOne env (v_period v - 1) (v_type v) ?m3 = Inr (r, m4)"
    and r: "(r = None \<and> b \<and> m' = m4) \<or> (\<exists>n. r = Some n \<and> update_two_t v n vw m4 = Inr (b, m'))"
    using res by (auto split: sum.splits option.splits)
  obtain c where m4: "m4 = ?m3\<lparr>vm_two_t_cache := c\<rparr>"
    using getPbftTwoTPlusOne_frame[OF g] by metis
  have "vv_inv (vm_votes m4)" using m4 inv2 by simp
  note frames = update_two_t_frames[OF this]
  have "um_find (vw_votes vw) = (um_find (vw_votes (value_at vv1 v)))(v_hash v \<mapsto> v)"
    by (simp add: vw_def)
  moreover have "b \<and> vm_proofs m' = vm_proofs m \<and> vm_current_period m' = vm_current_period m
      \<and> (\<forall>p r s. getStepVotes (vm_votes m') p r s = getStepVotes (put_value v vw vv1) p r s)"
  proof (cases r)
    case None
    with r m4 show ?thesis by simp
  next
    case (Some n)
    with r have "update_two_t v n vw m4 = Inr (b, m')" by simp
    from frames[OF this] m4 show ?thesis by simp
  qed
  ultimately show ?thesis by blast
qed

text \<open>
  C20: the first vote of a step is stored without its voter being remembered, because
  \<open>addVerifiedVote\<close> registers the voter before the step exists. A second, different vote of the
  same voter for the same step is then accepted too, whatever it votes for: both are counted,
  and no double voting proof is submitted.
\<close>

theorem first_double_vote_undetected:
  assumes reach: "vm_reachable env0 dpos m" and env: "chain_env env0 dpos env"
    and none: "getStepVotes (vm_votes m) (v_period v) (v_round v) (v_step v) = None"
    and first: "addVerifiedVote env v m = Inr (True, m1)"
    and same: "vote_at (v_period v) (v_round v) (v_step v) v'" "v_voter v' = v_voter v" "v_hash v' \<noteq> v_hash v"
    and fresh: "\<not> v_period v < vm_current_period m"
    and w: "v_weight v' = Some w" "w \<noteq> 0"
    and second: "addVerifiedVote env v' m1 = Inr (b, m2)"
  shows "b \<and> vm_proofs m2 = vm_proofs m \<and> voteInVerifiedMap m2 v \<and> voteInVerifiedMap m2 v'"
proof -
  have inv: "vv_inv (vm_votes m)" using vm_reachable_ok[OF reach] by (simp add: vm_ok_def)
  have coords: "v_period v' = v_period v" "v_round v' = v_round v" "v_step v' = v_step v"
    using same(1) by (simp_all add: vote_at_def)
  obtain weight where w1: "v_weight v = Some weight" "weight \<noteq> 0"
    using first by (auto simp: addVerifiedVote_def split: option.splits if_splits)
  note u1 = insertUniqueVoter_no_step[OF none]
  have empty: "value_at (vm_votes m) v = empty_value" using none by (simp add: value_at_step)
  then obtain vw where vw: "um_find (vw_votes vw) = [v_hash v \<mapsto> v]"
    and steps: "\<And>p r s. getStepVotes (vm_votes m1) p r s = getStepVotes (put_value v vw (vm_votes m)) p r s"
    and p1: "vm_proofs m1 = vm_proofs m" "vm_current_period m1 = vm_current_period m"
    using addVerifiedVote_accepted[OF inv w1 u1 fresh _ first] by auto
  have inv1: "vv_inv (vm_votes m1)"
    using vm_reachable_ok[OF vm_add[OF reach env first]] by (simp add: vm_ok_def)
  have step1: "getStepVotes (vm_votes m1) (v_period v) (v_round v) (v_step v) =
      Some (empty_step\<lparr>sv_votes := [(v_block v, vw)]\<rparr>)"
    by (simp add: steps getStepVotes_put_value[OF inv] none)
  define vv where "vv = snd (insertUniqueVoter v' (vm_votes m1))"
  have u2: "insertUniqueVoter v' (vm_votes m1) = (None, vv)"
    using step1 coords
    by (auto simp: vv_def insertUniqueVoter_def getStepVotes_round Let_def split: option.splits)
  have invv: "vv_inv vv" unfolding vv_def by (rule insertUniqueVoter_inv[OF inv1])
  have val: "value_of vv (v_period v) (v_round v) (v_step v) b = (if b = v_block v then Some vw else None)" for b
    by (simp add: vv_def read_insertUniqueVoter(1)[OF inv1]) (simp add: value_of_def step1)
  have new: "um_find (vw_votes (value_at vv v')) (v_hash v') = None"
    using same(3) by (simp add: value_at_value_of coords val vw)
  obtain vw' where vw': "um_find (vw_votes vw') = (um_find (vw_votes (value_at vv v')))(v_hash v' \<mapsto> v')"
    and steps2: "\<And>p r s. getStepVotes (vm_votes m2) p r s = getStepVotes (put_value v' vw' vv) p r s"
    and p2: "b" "vm_proofs m2 = vm_proofs m1"
    using addVerifiedVote_accepted[OF inv1 w u2 _ new second] fresh coords p1(2) by auto
  have at2: "value_at (vm_votes m2) x = value_at (put_value v' vw' vv) x" for x
    by (simp add: value_at_step steps2)
  have "voteInVerifiedMap m2 v'"
    by (simp add: voteInVerifiedMap_iff at2 value_at_put_value[OF invv] vw')
  moreover have "voteInVerifiedMap m2 v"
    using coords same(3) unfolding voteInVerifiedMap_iff at2 value_at_put_value[OF invv]
    by (auto simp: vw' value_at_value_of val vw)
  ultimately show ?thesis using p1(1) p2 by simp
qed


section \<open>When adding a vote fails\<close>

lemma two_t_kind_step:
  assumes "two_t_kind ty vb" and "two_t_kind ty \<lparr>vb_hash = h, vb_step = s\<rparr>"
    and "ty \<noteq> NextVotedBlock" and "ty \<noteq> NextVotedNullBlock"
  shows "vb_step vb = s"
  using assms by (cases ty) (auto simp: step_type_def split: if_splits)

lemma saveTwoTPlusOneVotesInDb_fails:
  assumes q: "quorum_ok env0 dpos (vm_votes m)"
    and rv: "um_find (rv_two_t_plus_one rv) ty = getTwoTPlusOneVotedBlock (vm_votes m) (v_period v) (v_round v) ty"
    and kind: "two_t_kind ty \<lparr>vb_hash = v_block v, vb_step = v_step v\<rparr>"
    and res: "saveTwoTPlusOneVotesInDb ty v rv vw m = Inl e"
  shows "e = AssertionFailed
     \<and> (\<exists>vb. getTwoTPlusOneVotedBlock (vm_votes m) (v_period v) (v_round v) ty = Some vb \<and> vb_hash vb \<noteq> v_block v)"
proof -
  obtain vb where vb: "um_find (rv_two_t_plus_one rv) ty = Some vb"
    using res by (auto simp: saveTwoTPlusOneVotesInDb_def Let_def split: option.splits)
  then have "two_t_kind ty vb" using q rv unfolding quorum_ok_def by metis
  with kind two_t_kind_step[OF _ kind] res vb rv show ?thesis
    by (auto simp: saveTwoTPlusOneVotesInDb_def split: if_splits)
qed

lemma update_two_t_fails:
  assumes inv: "vv_inv (vm_votes m)" and q: "quorum_ok env0 dpos (vm_votes m)"
    and res: "update_two_t v n vw m = Inl e"
  shows "e = AssertionFailed
     \<and> (\<exists>ty vb. getTwoTPlusOneVotedBlock (vm_votes m) (v_period v) (v_round v) ty = Some vb
          \<and> two_t_kind ty \<lparr>vb_hash = v_block v, vb_step = v_step v\<rparr> \<and> vb_hash vb \<noteq> v_block v)"
proof -
  obtain rv where rv: "getRoundVotes (vm_votes m) (v_period v) (v_round v) = Some rv"
    using res by (auto simp: update_two_t_def split: option.splits)
  define m1 where "m1 = (if v_type v = next_vote \<and> (n - 1) div 2 + 1 \<le> vw_weight vw \<and> rv_t_plus_one_step rv < v_step v
                    then m\<lparr>vm_votes := setNetworkTPlusOneStep v (vm_votes m)\<rparr> else m)"
  have q1: "quorum_ok env0 dpos (vm_votes m1)"
    using q read_setNetworkTPlusOneStep[OF inv] by (auto simp: m1_def intro: quorum_ok_same)
  have tt: "getTwoTPlusOneVotedBlock (vm_votes m1) p r ty = getTwoTPlusOneVotedBlock (vm_votes m) p r ty" for p r ty
    using read_setNetworkTPlusOneStep(2)[OF inv] by (simp add: m1_def)
  have rv1: "um_find (rv_two_t_plus_one rv) ty =
      getTwoTPlusOneVotedBlock (vm_votes m1) (v_period v) (v_round v) ty" for ty
    unfolding tt by (simp add: getTwoTPlusOneVotedBlock_round rv)
  obtain ty where ty: "saveTwoTPlusOneVotesInDb ty v rv vw m1 = Inl e"
    "two_t_kind ty \<lparr>vb_hash = v_block v, vb_step = v_step v\<rparr>"
    using res rv unfolding update_two_t_def rv option.case Let_def m1_def[symmetric]
    by (cases "v_type v") (auto simp: v_type_def map_sum_def split: if_splits sum.splits)
  from saveTwoTPlusOneVotesInDb_fails[OF q1 rv1 ty(2,1)] ty(2) tt show ?thesis by auto
qed



section \<open>Examples\<close>

text \<open>A manager with a cert vote and a next vote of 70 out of 100, and the reward votes reset to it.\<close>

definition sample_m1 :: vote_manager where
  "sample_m1 = snd (projr (addVerifiedVote sample_env (sample_vote 11 7 3 1 70) sample_manager))"

definition sample_m2 :: vote_manager where
  "sample_m2 = snd (projr (addVerifiedVote sample_env (sample_vote 21 8 4 1 70) sample_m1))"

definition sample_m3 :: vote_manager where
  "sample_m3 = projr (resetRewardVotes 5 1 3 7 sample_m2)"

lemmas sample_eval =
  addVerifiedVote_def insertUniqueVoter_def insertVotedValue_def set_round_def um_get_or_def getRoundVotes_def
  getPbftTwoTPlusOne_def compute_two_t_plus_one_def getPbftSortitionThreshold_def update_two_t_def
  saveTwoTPlusOneVotesInDb_def insertTwoTPlusOneVotedBlock_def setNetworkTPlusOneStep_def v_type_def step_type_def
  sample_env_def sample_manager_def vm_empty_def sample_vote_def Let_def isValidRewardVote_def kNullBlockHash_def
  replaceTwoTPlusOneVotes_def

lemma sample_m1_votes:
  "vm_votes sample_m1 =
     [(5, [(1, \<lparr>rv_two_t_plus_one = [(CertVotedBlock, \<lparr>vb_hash = 7, vb_step = 3\<rparr>)],
                rv_step_votes = [(3, \<lparr>sv_votes = [(7, \<lparr>vw_weight = 70, vw_votes = [(11, sample_vote 11 7 3 1 70)]\<rparr>)],
                                     sv_unique_voters = []\<rparr>)],
                rv_t_plus_one_step = 0\<rparr>)])]"
  "addVerifiedVote sample_env (sample_vote 11 7 3 1 70) sample_manager = Inr (True, sample_m1)"
  by (simp_all add: sample_m1_def sample_eval)

lemma sample_manager_reachable: "vm_reachable sample_env (\<lambda>_. 100) sample_manager"
  unfolding sample_manager_def by (rule vm_start)

lemma sample_m1_reachable: "vm_reachable sample_env (\<lambda>_. 100) sample_m1"
  by (rule vm_add[OF sample_manager_reachable sample_chain sample_m1_votes(2)])

lemma sample_m2_add: "addVerifiedVote sample_env (sample_vote 21 8 4 1 70) sample_m1 = Inr (True, sample_m2)"
  by (simp add: sample_m2_def sample_m1_def sample_eval)

lemma sample_m2_reachable: "vm_reachable sample_env (\<lambda>_. 100) sample_m2"
  by (rule vm_add[OF sample_m1_reachable sample_chain sample_m2_add])

lemma sample_m3_reset: "resetRewardVotes 5 1 3 7 sample_m2 = Inr sample_m3"
  by (simp add: sample_m3_def resetRewardVotes_def sample_m2_def sample_m1_def sample_eval)

lemma sample_m3_reachable: "vm_reachable sample_env (\<lambda>_. 100) sample_m3"
  by (rule vm_reset[OF sample_m2_reachable sample_m3_reset])

theorem recorded_block_has_quorum_witness:
  "\<exists>vw. value_of (vm_votes sample_m1) 5 1 3 7 = Some vw \<and> 67 \<le> full_weight vw \<and> value_ok 5 1 3 7 vw"
proof -
  have tt: "getTwoTPlusOneVotedBlock (vm_votes sample_m1) 5 1 CertVotedBlock = Some \<lparr>vb_hash = 7, vb_step = 3\<rparr>"
    by (simp add: getTwoTPlusOneVotedBlock_def sample_m1_votes)
  have "unat (two_t_of sample_env 100 cert_vote) = 67"
    by (simp add: two_t_of_def getPbftSortitionThreshold_def sample_env_def)
  with recorded_block_has_quorum[OF sample_m1_reachable tt] show ?thesis
    by (auto simp: step_type_def)
qed

theorem determineNewRound_spec_witness:
  "determineNewRound sample_m2 5 1 = Some 2 \<and> Max (next_voted_rounds (vm_votes sample_m2) 5 1) = 1"
proof -
  have val: "determineNewRound sample_m2 5 1 = Some 2"
    by (simp add: determineNewRound_def getPeriodVotes_def sample_m2_def sample_m1_def sample_eval)
  have "Max (next_voted_rounds (vm_votes sample_m2) 5 1) + 1 = 1 + 1"
    using determineNewRound_spec[OF sample_m2_reachable, of 5 1] val by (simp split: if_splits)
  then have "Max (next_voted_rounds (vm_votes sample_m2) 5 1) = 1" by (rule add_right_imp_eq)
  with val show ?thesis by simp
qed


theorem first_double_vote_undetected_witness:
  "\<exists>m1 m2. addVerifiedVote sample_env (sample_vote 11 7 2 1 10) sample_manager = Inr (True, m1)
     \<and> addVerifiedVote sample_env (sample_vote 12 8 2 1 10) m1 = Inr (True, m2)
     \<and> vm_proofs m2 = [] \<and> voteInVerifiedMap m2 (sample_vote 11 7 2 1 10)
     \<and> voteInVerifiedMap m2 (sample_vote 12 8 2 1 10)"
proof -
  obtain m1 where m1: "addVerifiedVote sample_env (sample_vote 11 7 2 1 10) sample_manager = Inr (True, m1)"
    by (simp add: sample_eval)
  obtain m2 where m2: "addVerifiedVote sample_env (sample_vote 12 8 2 1 10) m1 = Inr (True, m2)"
    using m1 by (auto simp: sample_eval)
  have "getStepVotes (vm_votes sample_manager) 5 1 2 = None" "vm_proofs sample_manager = []"
    "vm_current_period sample_manager = 0"
    by (simp_all add: getStepVotes_def sample_manager_def vm_empty_def)
  with first_double_vote_undetected[OF sample_manager_reachable sample_chain _ m1 _ _ _ _ _ _ m2] m1 m2
  show ?thesis by (auto simp: sample_vote_def vote_at_def)
qed


end
