(* ===== verification/Dag_Graph.thy ===== *)
theory Dag_Graph
  imports Prelude
begin

text \<open>
  The block graph, \<open>core_libs/consensus/src/dag/dag.cpp\<close>: \<open>Dag\<close> with its depth first reachability
  test and the linear order of a period, and \<open>PivotTree\<close> with the heaviest path. Vertices are
  identified with their hash label. An adjacency list stands for one iteration order of the
  \<open>setS\<close> out-edge container, which is ordered by vertex address; what does not depend on that order is
  a theorem below. Following a null vertex descriptor is undefined behaviour; the
  model returns \<open>None\<close> there and where an \<open>assert\<close> fails.
\<close>

section \<open>Graphs\<close>

type_synonym dag_graph = "(h256, h256 list) umap"

definition getNumVertices :: "dag_graph \<Rightarrow> nat" where
  "getNumVertices g = length g"

definition getNumEdges :: "dag_graph \<Rightarrow> nat" where
  "getNumEdges g = sum_list (map (length \<circ> snd) g)"

definition hasVertex :: "dag_graph \<Rightarrow> h256 \<Rightarrow> bool" where
  "hasVertex g v \<longleftrightarrow> um_find g v \<noteq> None"

definition adj :: "dag_graph \<Rightarrow> h256 \<Rightarrow> h256 list" where
  "adj g v = um_get_or [] g v"

text \<open>\<open>add_vertex\<close> of a known label keeps the vertex; an edge is inserted once.\<close>

definition add_vertex :: "h256 \<Rightarrow> dag_graph \<Rightarrow> dag_graph" where
  "add_vertex v g = (if hasVertex g v then g else um_put v [] g)"

definition add_edge :: "h256 \<Rightarrow> h256 \<Rightarrow> dag_graph \<Rightarrow> bool \<times> dag_graph" where
  "add_edge u v g = (if v \<in> set (adj g u) then (False, g) else (True, um_put u (adj g u @ [v]) g))"

fun add_tips :: "h256 \<Rightarrow> h256 list \<Rightarrow> bool \<Rightarrow> dag_graph \<Rightarrow> bool \<times> dag_graph" where
  "add_tips new_vertex [] res g = (res, g)"
| "add_tips new_vertex (e # tips) res g =
     (if hasVertex g e then (case add_edge e new_vertex g of (res', g') \<Rightarrow> add_tips new_vertex tips res' g')
      else add_tips new_vertex tips res g)"

definition addVEEs :: "h256 \<Rightarrow> h256 \<Rightarrow> h256 list \<Rightarrow> dag_graph \<Rightarrow> (bool \<times> dag_graph) option" where
  "addVEEs new_vertex pivot tips g =
     (if new_vertex = 0 then None
      else
        let g1 = add_vertex new_vertex g;
            (res, g2) = (if pivot \<noteq> 0 \<and> hasVertex g1 pivot then add_edge pivot new_vertex g1 else (True, g1));
            (res2, g3) = add_tips new_vertex tips True g2
        in Some (res \<and> res2, g3))"

definition dag_new :: "h256 \<Rightarrow> dag_graph option" where
  "dag_new genesis = map_option snd (addVEEs genesis 0 [] [])"

definition dag_clear :: "dag_graph \<Rightarrow> dag_graph" where
  "dag_clear g = []"

definition collectLeafVertices :: "dag_graph \<Rightarrow> h256 list option" where
  "collectLeafVertices g =
     (let leaves = map fst (filter (\<lambda>e. snd e = []) g) in if leaves = [] then None else Some leaves)"

definition getLeaves :: "dag_graph \<Rightarrow> h256 list \<Rightarrow> h256 list option" where
  "getLeaves g tips = map_option (\<lambda>leaves. tips @ leaves) (collectLeafVertices g)"

definition edges :: "dag_graph \<Rightarrow> (h256 \<times> h256) set" where
  "edges g = {(u, v). v \<in> set (adj g u)}"

section \<open>Reachability\<close>

text \<open>The loop over the out-edges of one vertex: \<open>None\<close> where the target is met.\<close>

fun reach_scan ::
  "h256 \<Rightarrow> h256 list \<Rightarrow> h256 list \<Rightarrow> h256 set \<Rightarrow> (h256 list \<times> h256 set) option" where
  "reach_scan target [] st visited = Some (st, visited)"
| "reach_scan target (s # ss) st visited =
     (if s \<in> visited then reach_scan target ss st visited
      else if s = target then None
      else reach_scan target ss (s # st) (insert s visited))"

definition targets :: "dag_graph \<Rightarrow> h256 set" where
  "targets g = (\<Union>e \<in> set g. set (snd e))"

lemma finite_targets [simp]: "finite (targets g)"
  by (simp add: targets_def)

lemma adj_targets: "set (adj g v) \<subseteq> targets g"
proof
  fix x assume "x \<in> set (adj g v)"
  then obtain ns where "map_of g v = Some ns" "x \<in> set ns"
    by (cases "map_of g v") (auto simp: adj_def um_get_or_def)
  then show "x \<in> targets g" by (force simp: targets_def dest: map_of_SomeD)
qed

lemma reach_scan_measure:
  assumes "reach_scan target ss st visited = Some (st', visited')" and "set ss \<subseteq> T" and "finite T"
  shows "2 * card (T - visited') + length st' \<le> 2 * card (T - visited) + length st"
  using assms(1,2)
proof (induction target ss st visited rule: reach_scan.induct)
  case (2 target s ss st visited)
  show ?case
  proof (cases "s \<in> visited")
    case False
    then have "s \<noteq> target" "reach_scan target ss (s # st) (insert s visited) = Some (st', visited')"
      using "2.prems"(1) by (auto split: if_splits)
    then have IH: "2 * card (T - visited') + length st' \<le> 2 * card (T - insert s visited) + length (s # st)"
      using "2.IH"(2) "2.prems"(2) False by simp
    have "s \<in> T - visited" using "2.prems"(2) False by simp
    moreover have "T - insert s visited = (T - visited) - {s}" by blast
    ultimately have "card (T - visited) = Suc (card (T - insert s visited))"
      using card_Suc_Diff1[of "T - visited" s] assms(3) by (metis finite_Diff)
    with IH show ?thesis by simp
  next
    case True
    then show ?thesis using "2.IH"(1) "2.prems" by simp
  qed
qed simp

function reach_loop :: "dag_graph \<Rightarrow> h256 \<Rightarrow> h256 list \<Rightarrow> h256 set \<Rightarrow> bool" where
  "reach_loop g target [] visited = False"
| "reach_loop g target (t # st) visited =
     (case reach_scan target (adj g t) st visited of
        None \<Rightarrow> True
      | Some (st', visited') \<Rightarrow> reach_loop g target st' visited')"
  by pat_completeness auto
termination
proof (relation "measure (\<lambda>(g, target, st, visited). 2 * card (targets g - visited) + length st)")
  fix g target t st visited x st' visited'
  assume "reach_scan target (adj g t) st visited = Some x" "(st', visited') = x"
  then have "reach_scan target (adj g t) st visited = Some (st', visited')" by simp
  then show "((g, target, st', visited'), (g, target, t # st, visited))
      \<in> measure (\<lambda>(g, target, st, visited). 2 * card (targets g - visited) + length st)"
    using reach_scan_measure[of target "adj g t" st visited st' visited' "targets g", OF _ adj_targets finite_targets]
    by simp
qed simp

definition reachable :: "dag_graph \<Rightarrow> h256 \<Rightarrow> h256 \<Rightarrow> bool" where
  "reachable g from to = (if from = to then True else reach_loop g to [from] {from})"

section \<open>The order of a period\<close>

text \<open>Step 1: the epoch blocks that reach the anchor, a map sorted by hash.\<close>

fun collect_epoch :: "dag_graph \<Rightarrow> h256 \<Rightarrow> h256 list \<Rightarrow> (h256, h256) omap \<Rightarrow> (h256, h256) omap option" where
  "collect_epoch g anchor [] ep = Some ep"
| "collect_epoch g anchor (b # bs) ep =
     (if \<not> hasVertex g b then None
      else collect_epoch g anchor bs (if reachable g b anchor then om_put b b ep else ep))"

text \<open>Step 2: the neighbours of the epoch that are not visited yet; they are marked as they are found.\<close>

fun collect_neighbors ::
  "(h256, h256) omap \<Rightarrow> h256 list \<Rightarrow> h256 set \<Rightarrow> h256 list \<times> h256 set" where
  "collect_neighbors ep [] visited = ([], visited)"
| "collect_neighbors ep (s # ss) visited =
     (if um_find ep s = None then collect_neighbors ep ss visited
      else if s \<in> visited then collect_neighbors ep ss visited
      else (case collect_neighbors ep ss (insert s visited) of (ns, vis) \<Rightarrow> (s # ns, vis)))"

lemma collect_neighbors_set:
  "set (fst (collect_neighbors ep ss visited)) = {s \<in> set ss. um_find ep s \<noteq> None \<and> s \<notin> visited}"
proof (induction ss arbitrary: visited)
  case (Cons s ss)
  then show ?case using Cons.IH[of "insert s visited"] by (auto simp: case_prod_beta)
qed simp

lemma collect_neighbors_distinct: "distinct (fst (collect_neighbors ep ss visited))"
proof (induction ss arbitrary: visited)
  case (Cons s ss)
  then show ?case by (simp add: case_prod_beta collect_neighbors_set)
qed simp

lemma collect_neighbors_visited:
  "snd (collect_neighbors ep ss visited) = visited \<union> set (fst (collect_neighbors ep ss visited))"
proof (induction ss arbitrary: visited)
  case (Cons s ss)
  then show ?case by (simp add: case_prod_beta)
qed simp

lemmas collect_neighbors_spec =
  collect_neighbors_visited collect_neighbors_set collect_neighbors_distinct

text \<open>The stack holds a vertex and whether its neighbours have been pushed.\<close>

type_synonym dfs_stack = "(h256 \<times> bool) list"

definition push_neighbors :: "h256 list \<Rightarrow> dfs_stack \<Rightarrow> dfs_stack" where
  "push_neighbors ns dfs = rev (map (\<lambda>n. (n, False)) (sort ns)) @ dfs"

definition dfs_weight :: "dfs_stack \<Rightarrow> nat" where
  "dfs_weight dfs = sum_list (map (\<lambda>p. if snd p then 1 else 2) dfs)"

lemma dfs_weight_push: "dfs_weight (push_neighbors ns dfs) = 2 * length ns + dfs_weight dfs"
proof -
  have "(\<lambda>p. if snd p then 1 else 2) \<circ> (\<lambda>n. (n, False)) = (\<lambda>n::h256. 2::nat)" by (rule ext) simp
  then show ?thesis
    by (simp add: dfs_weight_def push_neighbors_def rev_map[symmetric] sum_list_triv)
qed

lemma collect_neighbors_measure:
  assumes "collect_neighbors ep (adj g v) visited = (ns, vis)"
  shows "card (targets g - vis) + length ns \<le> card (targets g - visited)"
proof -
  have eq: "ns = fst (collect_neighbors ep (adj g v) visited)" "vis = snd (collect_neighbors ep (adj g v) visited)"
    using assms by simp_all
  have "distinct ns" by (simp add: eq collect_neighbors_spec)
  then have len: "length ns = card (set ns)" by (simp add: distinct_card)
  have vis: "vis = visited \<union> set ns" and sub: "set ns \<subseteq> targets g - visited"
    using adj_targets[of g v] by (auto simp: eq collect_neighbors_spec)
  have "card (targets g - vis) + card (set ns) = card ((targets g - vis) \<union> set ns)"
    by (rule card_Un_disjoint[symmetric]) (auto simp: vis)
  also have "\<dots> \<le> card (targets g - visited)"
    using sub by (intro card_mono) (auto simp: vis)
  finally show ?thesis by (simp add: len)
qed

function order_loop ::
  "dag_graph \<Rightarrow> (h256, h256) omap \<Rightarrow> dfs_stack \<Rightarrow> h256 set \<Rightarrow> h256 list \<Rightarrow> h256 set \<times> h256 list" where
  "order_loop g ep [] visited ordered = (visited, ordered)"
| "order_loop g ep ((v, True) # dfs) visited ordered = order_loop g ep dfs visited (ordered @ [v])"
| "order_loop g ep ((v, False) # dfs) visited ordered =
     (case collect_neighbors ep (adj g v) visited of (ns, vis) \<Rightarrow>
        order_loop g ep (push_neighbors ns ((v, True) # dfs)) vis ordered)"
  by pat_completeness auto
termination
proof (relation "measure (\<lambda>(g, ep, dfs, visited, ordered). 3 * card (targets g - visited) + dfs_weight dfs)")
  fix g ep v dfs visited and ordered :: "h256 list" and ns vis
  assume "(ns, vis) = collect_neighbors ep (adj g v) visited"
  then show "((g, ep, push_neighbors ns ((v, True) # dfs), vis, ordered), (g, ep, (v, False) # dfs, visited, ordered))
      \<in> measure (\<lambda>(g, ep, dfs, visited, ordered). 3 * card (targets g - visited) + dfs_weight dfs)"
    using collect_neighbors_measure[of ep g v visited ns vis] dfs_weight_push[of ns "(v, True) # dfs"]
    by (simp add: dfs_weight_def)
qed (simp_all add: dfs_weight_def)

fun order_epoch ::
  "dag_graph \<Rightarrow> (h256, h256) omap \<Rightarrow> (h256, h256) omap \<Rightarrow> h256 set \<Rightarrow> h256 list \<Rightarrow> h256 list" where
  "order_epoch g ep [] visited ordered = ordered"
| "order_epoch g ep (vp # vps) visited ordered =
     (if snd vp \<in> visited then order_epoch g ep vps visited ordered
      else (case order_loop g ep [(snd vp, False)] (insert (snd vp) visited) ordered of
              (visited', ordered') \<Rightarrow> order_epoch g ep vps visited' ordered'))"

definition computeOrder ::
  "dag_graph \<Rightarrow> h256 \<Rightarrow> h256 list \<Rightarrow> (u64, h256 list) omap \<Rightarrow> (bool \<times> h256 list) option" where
  "computeOrder g anchor ordered_period_vertices non_finalized_blks =
     (if \<not> hasVertex g anchor then Some (False, ordered_period_vertices)
      else case collect_epoch g anchor (concat (map snd non_finalized_blks)) [(anchor, anchor)] of
        None \<Rightarrow> None
      | Some epfriend \<Rightarrow> Some (True, rev (order_epoch g epfriend epfriend {} [])))"

section \<open>The pivot tree\<close>

text \<open>
  \<open>PivotTree::getGhostPath\<close>. The two loops over the tree end because a pivot tree has no
  cycle, which is a theorem below; the fuel makes the definition total on every graph. Weights
  count vertices and stay below the range of the \<open>int\<close> that sums them.
\<close>

fun ghost_visit :: "nat \<Rightarrow> dag_graph \<Rightarrow> h256 list \<Rightarrow> h256 list \<Rightarrow> h256 list option" where
  "ghost_visit fuel g [] post_order = Some post_order"
| "ghost_visit 0 g (cur # st) post_order = None"
| "ghost_visit (Suc fuel) g (cur # st) post_order =
     ghost_visit fuel g (rev (adj g cur) @ st) (post_order @ [cur])"

definition ghost_weight :: "dag_graph \<Rightarrow> (h256, nat) umap \<Rightarrow> h256 \<Rightarrow> nat" where
  "ghost_weight g weight_map n =
     sum_list (map (\<lambda>s. case um_find weight_map s of None \<Rightarrow> 0 | Some w \<Rightarrow> w) (adj g n)) + 1"

fun ghost_weights :: "dag_graph \<Rightarrow> h256 list \<Rightarrow> (h256, nat) umap \<Rightarrow> (h256, nat) umap" where
  "ghost_weights g [] weight_map = weight_map"
| "ghost_weights g (n # ns) weight_map = ghost_weights g ns (um_put n (ghost_weight g weight_map n) weight_map)"

fun ghost_next :: "(h256, nat) umap \<Rightarrow> h256 list \<Rightarrow> nat \<Rightarrow> h256 \<Rightarrow> (nat \<times> h256) option" where
  "ghost_next weight_map [] heavist nxt = Some (heavist, nxt)"
| "ghost_next weight_map (s # ss) heavist nxt =
     (case um_find weight_map s of
        None \<Rightarrow> ghost_next weight_map ss heavist nxt
      | Some w \<Rightarrow>
          if w = 0 then None
          else if w > heavist then ghost_next weight_map ss w s
          else if w = heavist \<and> s < nxt then ghost_next weight_map ss heavist s
          else ghost_next weight_map ss heavist nxt)"

fun ghost_path :: "nat \<Rightarrow> dag_graph \<Rightarrow> (h256, nat) umap \<Rightarrow> h256 \<Rightarrow> h256 list \<Rightarrow> h256 list option" where
  "ghost_path 0 g weight_map root pivot_chain = None"
| "ghost_path (Suc fuel) g weight_map root pivot_chain =
     (case ghost_next weight_map (adj g root) 0 root of
        None \<Rightarrow> None
      | Some (heavist, nxt) \<Rightarrow>
          if heavist = 0 then Some (pivot_chain @ [root])
          else ghost_path fuel g weight_map nxt (pivot_chain @ [root]))"

definition getGhostPath :: "nat \<Rightarrow> dag_graph \<Rightarrow> h256 \<Rightarrow> h256 list option" where
  "getGhostPath fuel g vertex =
     (if \<not> hasVertex g vertex then Some []
      else case ghost_visit fuel g [vertex] [] of
        None \<Rightarrow> None
      | Some post_order \<Rightarrow> ghost_path fuel g (ghost_weights g (rev post_order) []) vertex [])"

end
