(* ===== verification/Dag_Graph_Props.thy ===== *)
theory Dag_Graph_Props
  imports Dag_Graph
begin

text \<open>
  The theorems on the block graph: the depth first search decides reachability, the order of a period
  lists exactly the epoch of its anchor and is the same on every node, adding a fresh block keeps the
  graph acyclic, and the ghost path follows the heaviest subtree.
\<close>

section \<open>Reachability\<close>

lemma mem_edges [simp]: "(u, v) \<in> edges g \<longleftrightarrow> v \<in> set (adj g u)"
  by (simp add: edges_def)

lemma reach_scan_None: "reach_scan target ss st visited = None \<Longrightarrow> target \<in> set ss"
  by (induction target ss st visited rule: reach_scan.induct) (auto split: if_splits)

lemma reach_scan_Some:
  assumes "reach_scan target ss st visited = Some (st', visited')"
  shows "set st' = set st \<union> (set ss - visited)" and "visited' = visited \<union> set ss"
    and "target \<in> visited' \<Longrightarrow> target \<in> visited"
  using assms by (induction target ss st visited rule: reach_scan.induct) (auto split: if_splits)

lemma reach_loop_sound: "reach_loop g target st visited \<Longrightarrow> \<exists>s \<in> set st. (s, target) \<in> (edges g)\<^sup>*"
proof (induction g target st visited rule: reach_loop.induct)
  case (2 g target t st visited)
  show ?case
  proof (cases "reach_scan target (adj g t) st visited")
    case None
    then have "(t, target) \<in> edges g" by (simp add: reach_scan_None)
    then show ?thesis by auto
  next
    case (Some p)
    then obtain st' visited' where p: "reach_scan target (adj g t) st visited = Some (st', visited')"
      by (cases p) auto
    then have "reach_loop g target st' visited'" using "2.prems" by simp
    then obtain s where s: "s \<in> set st'" "(s, target) \<in> (edges g)\<^sup>*" using "2.IH" p by blast
    show ?thesis
    proof (cases "s \<in> set st")
      case False
      then have "(t, s) \<in> edges g" using s(1) reach_scan_Some(1)[OF p] by simp
      then have "(t, target) \<in> (edges g)\<^sup>*" using s(2) by (rule converse_rtrancl_into_rtrancl)
      then show ?thesis by simp
    qed (use s in auto)
  qed
qed simp

lemma reach_loop_complete:
  assumes "\<not> reach_loop g target st visited" and "set st \<subseteq> visited" and "target \<notin> visited"
    and "\<forall>x \<in> visited - set st. set (adj g x) \<subseteq> visited"
  shows "\<exists>V. visited \<subseteq> V \<and> target \<notin> V \<and> (\<forall>x \<in> V. set (adj g x) \<subseteq> V)"
  using assms
proof (induction g target st visited rule: reach_loop.induct)
  case (2 g target t st visited)
  then obtain st' visited' where p: "reach_scan target (adj g t) st visited = Some (st', visited')"
    by (cases "reach_scan target (adj g t) st visited") auto
  note sc = reach_scan_Some[OF p]
  have "\<exists>V. visited' \<subseteq> V \<and> target \<notin> V \<and> (\<forall>x \<in> V. set (adj g x) \<subseteq> V)"
  proof (rule "2.IH"[OF p refl])
    show "\<not> reach_loop g target st' visited'" using "2.prems"(1) p by simp
    show "set st' \<subseteq> visited'" "target \<notin> visited'" using "2.prems"(2,3) sc by auto
    show "\<forall>x \<in> visited' - set st'. set (adj g x) \<subseteq> visited'"
    proof
      fix x assume "x \<in> visited' - set st'"
      then have "x \<in> visited" "x \<notin> set st" using sc by auto
      then show "set (adj g x) \<subseteq> visited'" using "2.prems"(4) sc(2) by (cases "x = t") auto
    qed
  qed
  then show ?case using sc(2) by blast
qed auto

lemma closed_rtrancl:
  assumes "(u, v) \<in> (edges g)\<^sup>*" and "u \<in> V" and "\<forall>x \<in> V. set (adj g x) \<subseteq> V"
  shows "v \<in> V"
  using assms by (induction rule: rtrancl_induct) auto

lemma reachable_rtrancl: "reachable g from to \<longleftrightarrow> (from, to) \<in> (edges g)\<^sup>*"
proof (cases "from = to")
  case False
  have "reach_loop g to [from] {from} \<longleftrightarrow> (from, to) \<in> (edges g)\<^sup>*"
  proof
    assume "(from, to) \<in> (edges g)\<^sup>*"
    then show "reach_loop g to [from] {from}"
      using reach_loop_complete[of g to "[from]" "{from}"] closed_rtrancl False by fastforce
  qed (use reach_loop_sound in fastforce)
  then show ?thesis using False by (simp add: reachable_def)
qed (simp add: reachable_def)

section \<open>The order of a period\<close>

definition dfs_inv :: "(h256, h256) omap \<Rightarrow> dfs_stack \<Rightarrow> h256 set \<Rightarrow> h256 list \<Rightarrow> bool" where
  "dfs_inv ep dfs visited ordered \<longleftrightarrow>
     distinct (map fst dfs @ ordered) \<and> visited = set (map fst dfs @ ordered) \<and> visited \<subseteq> fst ` set ep"

lemma um_find_mem: "um_find ep s \<noteq> None \<longleftrightarrow> s \<in> fst ` set ep"
  by (simp add: map_of_eq_None_iff)

lemma dfs_inv_push:
  assumes "dfs_inv ep ((v, False) # dfs) visited ordered"
    and "collect_neighbors ep ss visited = (ns, vis)"
  shows "dfs_inv ep (push_neighbors ns ((v, True) # dfs)) vis ordered"
proof -
  note cn = collect_neighbors_spec[of ep ss visited, unfolded assms(2) fst_conv snd_conv um_find_mem]
  have "map fst (push_neighbors ns ((v, True) # dfs)) = rev (sort ns) @ v # map fst dfs"
    by (simp add: push_neighbors_def comp_def rev_map[symmetric])
  then show ?thesis using assms(1) cn by (auto simp: dfs_inv_def)
qed

lemma order_loop_inv:
  assumes "order_loop g ep dfs visited ordered = (visited', ordered')" and "dfs_inv ep dfs visited ordered"
  shows "dfs_inv ep [] visited' ordered' \<and> visited \<subseteq> visited'"
  using assms
proof (induction g ep dfs visited ordered rule: order_loop.induct)
  case (2 g ep v dfs visited ordered)
  have "dfs_inv ep dfs visited (ordered @ [v])"
    using "2.prems"(2) by (auto simp: dfs_inv_def)
  with 2 show ?case by simp
next
  case (3 g ep v dfs visited ordered)
  obtain ns vis where cn: "collect_neighbors ep (adj g v) visited = (ns, vis)" by fastforce
  then have "visited \<subseteq> vis" using collect_neighbors_visited[of ep "adj g v" visited] by auto
  with 3 cn dfs_inv_push[OF "3.prems"(2) cn] show ?case by fastforce
qed simp

lemma order_epoch_inv:
  assumes "dfs_inv ep [] visited ordered" and "snd ` set vps \<subseteq> fst ` set ep"
  shows "distinct (order_epoch g ep vps visited ordered)
    \<and> set (order_epoch g ep vps visited ordered) \<supseteq> visited \<union> snd ` set vps
    \<and> set (order_epoch g ep vps visited ordered) \<subseteq> fst ` set ep"
  using assms
proof (induction g ep vps visited ordered rule: order_epoch.induct)
  case (2 g ep vp vps visited ordered)
  show ?case
  proof (cases "snd vp \<in> visited")
    case False
    obtain visited' ordered' where
      ol: "order_loop g ep [(snd vp, False)] (insert (snd vp) visited) ordered = (visited', ordered')"
      by fastforce
    have "dfs_inv ep [(snd vp, False)] (insert (snd vp) visited) ordered"
      using 2 False by (auto simp: dfs_inv_def)
    then have "dfs_inv ep [] visited' ordered'" "insert (snd vp) visited \<subseteq> visited'"
      using order_loop_inv[OF ol] by auto
    then show ?thesis using "2.IH"(2)[OF False ol[symmetric]] "2.prems"(2) False ol by auto
  qed (use 2 in auto)
qed (auto simp: dfs_inv_def)

lemma collect_epoch_spec:
  assumes "collect_epoch g anchor bs ep = Some ep'" and "om_inv ep" and "\<forall>p \<in> set ep. snd p = fst p"
  shows "om_inv ep' \<and> (\<forall>p \<in> set ep'. snd p = fst p)
    \<and> fst ` set ep' = fst ` set ep \<union> {b \<in> set bs. (b, anchor) \<in> (edges g)\<^sup>*}"
  using assms
proof (induction g anchor bs ep rule: collect_epoch.induct)
  case (2 g anchor b bs ep)
  have "\<forall>p \<in> set (om_put b b ep). snd p = fst p"
    using om.set_entries_put[OF "2.prems"(2), of b b] "2.prems"(3) by auto
  with 2 show ?case by (auto simp: reachable_rtrancl split: if_splits)
qed simp

lemma collect_epoch_defined:
  "(\<forall>b \<in> set bs. hasVertex g b) \<Longrightarrow> \<exists>ep'. collect_epoch g anchor bs ep = Some ep'"
  by (induction g anchor bs ep rule: collect_epoch.induct) auto

lemma computeOrder_result:
  assumes "computeOrder g anchor prior blks = Some (True, order)" and "hasVertex g anchor"
  shows "distinct order
    \<and> set order = insert anchor {b \<in> set (concat (map snd blks)). (b, anchor) \<in> (edges g)\<^sup>*}"
proof -
  obtain ep where ep: "collect_epoch g anchor (concat (map snd blks)) [(anchor, anchor)] = Some ep"
    and order: "order = rev (order_epoch g ep ep {} [])"
    using assms by (auto simp: computeOrder_def split: option.splits)
  note spec = collect_epoch_spec[OF ep, simplified]
  have "snd ` set ep = fst ` set ep" using spec by (auto simp: image_iff)
  then show ?thesis
    using order_epoch_inv[of ep "{}" "[]" ep g] spec by (auto simp: order dfs_inv_def)
qed

subsection \<open>Independence of the iteration orders\<close>

lemma push_neighbors_cong:
  assumes "set ns = set ns'" and "distinct ns" and "distinct ns'"
  shows "push_neighbors ns dfs = push_neighbors ns' dfs"
proof -
  have "sort ns = sort ns'"
    by (rule sorted_distinct_set_unique) (simp_all add: assms)
  then show ?thesis by (simp add: push_neighbors_def)
qed

lemma edges_adj: "edges g = edges g' \<Longrightarrow> set (adj g v) = set (adj g' v)"
  using mem_edges by blast

lemma order_loop_cong:
  assumes "edges g = edges g'"
  shows "order_loop g ep dfs visited ordered = order_loop g' ep dfs visited ordered"
  using assms
proof (induction g ep dfs visited ordered rule: order_loop.induct)
  case (3 g ep v dfs visited ordered)
  let ?c = "collect_neighbors ep (adj g v) visited" and ?c' = "collect_neighbors ep (adj g' v) visited"
  have eq: "set (fst ?c) = set (fst ?c')"
    by (simp add: collect_neighbors_set edges_adj[OF "3.prems"])
  then have "push_neighbors (fst ?c) ((v, True) # dfs) = push_neighbors (fst ?c') ((v, True) # dfs)"
    by (rule push_neighbors_cong) (rule collect_neighbors_distinct)+
  moreover have "snd ?c = snd ?c'" using eq by (simp add: collect_neighbors_visited)
  ultimately show ?case using "3.IH"[OF prod.collapse "3.prems"] by (simp add: case_prod_beta)
qed simp_all

lemma order_epoch_cong:
  "edges g = edges g' \<Longrightarrow> order_epoch g ep vps visited ordered = order_epoch g' ep vps visited ordered"
  by (induction vps arbitrary: visited ordered) (simp_all add: order_loop_cong[of g g'] del: order_loop.simps split: prod.splits)

lemma diagonal_map_unique:
  fixes m m' :: "(h256, h256) omap"
  assumes "om_inv m" "om_inv m'" "fst ` set m = fst ` set m'"
    and "\<forall>p \<in> set m. snd p = fst p" "\<forall>p \<in> set m'. snd p = fst p"
  shows "m = m'"
proof -
  have keys: "map fst m = map fst m'"
    by (rule strict_sorted_equal) (use assms in \<open>simp_all add: om_inv_def\<close>)
  have diag: "n = map (\<lambda>k. (k, k)) (map fst n)" if "\<forall>p \<in> set n. snd p = fst p" for n :: "(h256, h256) omap"
    using that by (induction n) auto
  show ?thesis using diag[OF assms(4)] diag[OF assms(5)] keys by simp
qed

lemma collect_epoch_cong:
  assumes "edges g = edges g'" and "hasVertex g = hasVertex g'" and "set bs = set bs'"
  shows "collect_epoch g anchor bs [(anchor, anchor)] = collect_epoch g' anchor bs' [(anchor, anchor)]"
proof (cases "\<forall>b \<in> set bs. hasVertex g b")
  case True
  obtain ep where ep: "collect_epoch g anchor bs [(anchor, anchor)] = Some ep"
    using collect_epoch_defined[OF True] by blast
  obtain ep' where ep': "collect_epoch g' anchor bs' [(anchor, anchor)] = Some ep'"
    using collect_epoch_defined[of bs' g' anchor "[(anchor, anchor)]"] True assms by auto
  have "ep = ep'"
    using collect_epoch_spec[OF ep] collect_epoch_spec[OF ep'] assms
    by (intro diagonal_map_unique) simp_all
  then show ?thesis using ep ep' by simp
next
  case False
  have undef: "collect_epoch h anchor cs ep = None" if "\<exists>b \<in> set cs. \<not> hasVertex h b" for h cs ep
    using that by (induction h anchor cs ep rule: collect_epoch.induct) auto
  show ?thesis using undef[of bs g] undef[of bs' g'] False assms by auto
qed

section \<open>Growing the graph\<close>

text \<open>
  What the callers keep: labels are unique, an out-edge container has no duplicate, every edge joins two
  vertices, and there is no cycle.
\<close>

definition dag_wf :: "dag_graph \<Rightarrow> bool" where
  "dag_wf g \<longleftrightarrow> um_inv g \<and> (\<forall>v. distinct (adj g v)) \<and> (\<forall>u v. v \<in> set (adj g u) \<longrightarrow> hasVertex g v)"

lemma hasVertex_put [simp]: "hasVertex (um_put u ns g) v \<longleftrightarrow> v = u \<or> hasVertex g v"
  by (simp add: hasVertex_def)

lemma adj_put [simp]: "adj (um_put u ns g) v = (if v = u then ns else adj g v)"
  by (simp add: adj_def um_get_or_def)

lemma adj_no_vertex: "\<not> hasVertex g v \<Longrightarrow> adj g v = []"
  by (simp add: adj_def um_get_or_def hasVertex_def)

lemma dag_wf_put:
  assumes "dag_wf g" and "distinct ns" and "\<forall>v \<in> set ns. v = u \<or> hasVertex g v"
  shows "dag_wf (um_put u ns g)"
  using assms by (auto simp: dag_wf_def)

lemma add_vertex_spec:
  shows "adj (add_vertex v g) = adj g"
    and "hasVertex (add_vertex v g) w \<longleftrightarrow> w = v \<or> hasVertex g w"
    and "dag_wf g \<Longrightarrow> dag_wf (add_vertex v g)"
  by (auto simp: add_vertex_def fun_eq_iff adj_no_vertex intro: dag_wf_put)

lemma add_edge_spec:
  assumes "add_edge u v g = (res, g')" and "hasVertex g u" and "hasVertex g v"
  shows "edges g' = insert (u, v) (edges g)" and "hasVertex g' = hasVertex g"
    and "res \<longleftrightarrow> (u, v) \<notin> edges g" and "dag_wf g \<Longrightarrow> dag_wf g'"
proof -
  show "edges g' = insert (u, v) (edges g)" "res \<longleftrightarrow> (u, v) \<notin> edges g"
    using assms(1) by (auto simp: add_edge_def edges_def split: if_splits)
  show "hasVertex g' = hasVertex g"
    using assms by (auto simp: add_edge_def fun_eq_iff split: if_splits)
  show "dag_wf g'" if "dag_wf g"
  proof (cases "v \<in> set (adj g u)")
    case False
    have "dag_wf (um_put u (adj g u @ [v]) g)"
      by (rule dag_wf_put) (use that assms(3) False in \<open>auto simp: dag_wf_def\<close>)
    then show ?thesis using assms(1) False by (simp add: add_edge_def)
  qed (use that assms(1) in \<open>simp add: add_edge_def\<close>)
qed

lemma add_tips_spec:
  assumes "add_tips v tips res g = (res', g')" and "hasVertex g v"
  shows "edges g' = edges g \<union> {(e, v) |e. e \<in> set tips \<and> hasVertex g e} \<and> hasVertex g' = hasVertex g
    \<and> (dag_wf g \<longrightarrow> dag_wf g')"
  using assms
proof (induction v tips res g rule: add_tips.induct)
  case (2 v e tips res g)
  show ?case
  proof (cases "hasVertex g e")
    case True
    obtain r1 g1 where ae: "add_edge e v g = (r1, g1)" by fastforce
    note sp = add_edge_spec[OF ae True "2.prems"(2)]
    show ?thesis using "2.IH"(1)[OF True ae[symmetric]] "2.prems" ae True sp by auto
  qed (use 2 in auto)
qed auto

text \<open>The known vertices among the pivot and the tips of a block.\<close>

definition parents :: "h256 \<Rightarrow> h256 list \<Rightarrow> (h256 \<Rightarrow> bool) \<Rightarrow> h256 set" where
  "parents pivot tips known = {e. (e \<in> set tips \<or> e = pivot \<and> pivot \<noteq> 0) \<and> known e}"

lemma addVEEs_spec:
  assumes "addVEEs new_vertex pivot tips g = Some (res, g')"
  shows "edges g' = edges g \<union> parents pivot tips (hasVertex (add_vertex new_vertex g)) \<times> {new_vertex}"
    and "hasVertex g' = (\<lambda>w. w = new_vertex \<or> hasVertex g w)" and "dag_wf g \<Longrightarrow> dag_wf g'"
proof -
  define g1 where "g1 = add_vertex new_vertex g"
  define p where "p = (if pivot \<noteq> 0 \<and> hasVertex g1 pivot then add_edge pivot new_vertex g1 else (True, g1))"
  obtain r2 g2 where g2: "p = (r2, g2)" by fastforce
  obtain r3 where g3: "add_tips new_vertex tips True g2 = (r3, g')"
    using assms g2 by (auto simp: addVEEs_def g1_def p_def Let_def split: if_splits prod.splits)
  note av = add_vertex_spec[where v = new_vertex and g = g, folded g1_def]
  have new: "hasVertex g1 new_vertex" by (simp add: av)
  have e1: "edges g1 = edges g" by (simp add: edges_def av(1))
  have e2: "edges g2 = edges g \<union> (if pivot \<noteq> 0 \<and> hasVertex g1 pivot then {(pivot, new_vertex)} else {})
      \<and> hasVertex g2 = hasVertex g1 \<and> (dag_wf g1 \<longrightarrow> dag_wf g2)"
  proof (cases "pivot \<noteq> 0 \<and> hasVertex g1 pivot")
    case True
    then have "add_edge pivot new_vertex g1 = (r2, g2)" using g2 by (simp add: p_def)
    from add_edge_spec[OF this _ new] True e1 show ?thesis by simp
  next
    case False
    then have "g2 = g1" using g2 unfolding p_def by (simp only: if_False prod.inject)
    with False e1 show ?thesis by auto
  qed
  note tp = add_tips_spec[OF g3]
  have "hasVertex g2 new_vertex" using e2 new by simp
  note tp = tp[OF this]
  show "hasVertex g' = (\<lambda>w. w = new_vertex \<or> hasVertex g w)" "dag_wf g \<Longrightarrow> dag_wf g'"
    using tp e2 av by auto
  show "edges g' = edges g \<union> parents pivot tips (hasVertex (add_vertex new_vertex g)) \<times> {new_vertex}"
    using tp e2 unfolding g1_def[symmetric] by (auto simp: parents_def)
qed

text \<open>A block that is new and does not refer to itself.\<close>

definition fresh_block :: "h256 \<Rightarrow> h256 \<Rightarrow> h256 list \<Rightarrow> dag_graph \<Rightarrow> bool" where
  "fresh_block b pivot tips g \<longleftrightarrow> b \<noteq> 0 \<and> \<not> hasVertex g b \<and> b \<noteq> pivot \<and> b \<notin> set tips"

lemma acyclic_sink:
  assumes "acyclic R" and "\<And>z. (x, z) \<notin> R" and "x \<notin> S"
  shows "acyclic (R \<union> S \<times> {x})"
proof -
  have "(a, b) \<in> R\<^sup>+ \<or> (b = x \<and> a \<noteq> x)" if "(a, b) \<in> (R \<union> S \<times> {x})\<^sup>+" for a b
    using that
  proof (induction rule: trancl_induct)
    case (base y)
    then show ?case using assms(3) by auto
  next
    case (step y z)
    show ?case
    proof (cases "y = x")
      case True
      then show ?thesis using step.hyps(2) assms(2,3) by auto
    next
      case False
      then have ay: "(a, y) \<in> R\<^sup>+" using step.IH by simp
      then have "a \<noteq> x" using assms(2) by (meson tranclD)
      then show ?thesis using step.hyps(2) ay by (auto intro: trancl_into_trancl)
    qed
  qed
  then show ?thesis using assms(1) unfolding acyclic_def by blast
qed

lemma fresh_block_edges:
  assumes "addVEEs b pivot tips g = Some (res, g')" and "fresh_block b pivot tips g"
  shows "edges g' = edges g \<union> parents pivot tips (hasVertex g) \<times> {b}"
    and "b \<notin> parents pivot tips (hasVertex g)" and "(b, z) \<notin> edges g"
proof -
  have "parents pivot tips (hasVertex (add_vertex b g)) = parents pivot tips (hasVertex g)"
    using assms(2) by (auto simp: parents_def add_vertex_spec(2) fresh_block_def)
  then show "edges g' = edges g \<union> parents pivot tips (hasVertex g) \<times> {b}"
    using addVEEs_spec(1)[OF assms(1)] by simp
  show "b \<notin> parents pivot tips (hasVertex g)" "(b, z) \<notin> edges g"
    using assms(2) by (simp_all add: parents_def fresh_block_def adj_no_vertex)
qed

lemma addVEEs_acyclic:
  assumes "addVEEs b pivot tips g = Some (res, g')" and "fresh_block b pivot tips g" and "acyclic (edges g)"
  shows "acyclic (edges g')"
  unfolding fresh_block_edges(1)[OF assms(1,2)]
  by (rule acyclic_sink[OF assms(3)]) (rule fresh_block_edges(3,2)[OF assms(1,2)])+

text \<open>A pivot tree: every vertex has one incoming edge at most.\<close>

definition pivot_tree :: "dag_graph \<Rightarrow> bool" where
  "pivot_tree g \<longleftrightarrow> dag_wf g \<and> acyclic (edges g) \<and> single_valued ((edges g)\<inverse>)"

lemma pivot_tree_add:
  assumes "addVEEs b pivot [] g = Some (res, g')" and "fresh_block b pivot [] g" and "pivot_tree g"
  shows "pivot_tree g'"
proof -
  have wf: "dag_wf g" using assms(3) by (simp add: pivot_tree_def)
  have "(u, b) \<notin> edges g" for u
    using wf assms(2) by (auto simp: dag_wf_def fresh_block_def)
  then have "single_valued ((edges g')\<inverse>)"
    using assms(3) fresh_block_edges(1)[OF assms(1,2)]
    by (auto simp: pivot_tree_def single_valued_def parents_def)
  then show ?thesis
    using assms addVEEs_acyclic[OF assms(1,2)] addVEEs_spec(3)[OF assms(1) wf] by (simp add: pivot_tree_def)
qed

section \<open>The heaviest path\<close>

definition subtree :: "dag_graph \<Rightarrow> h256 \<Rightarrow> h256 set" where
  "subtree g n = {v. (n, v) \<in> (edges g)\<^sup>*}"

lemma subtree_unfold: "subtree g n = insert n (\<Union>c \<in> set (adj g n). subtree g c)"
  by (auto simp: subtree_def elim: converse_rtranclE intro: converse_rtrancl_into_rtrancl)

lemma finite_subtree [simp]: "finite (subtree g n)"
proof (rule finite_subset)
  show "subtree g n \<subseteq> insert n (targets g)"
  proof
    fix v assume "v \<in> subtree g n"
    then have "(n, v) \<in> (edges g)\<^sup>*" by (simp add: subtree_def)
    then show "v \<in> insert n (targets g)"
      by (cases rule: rtranclE) (use adj_targets in auto)
  qed
qed simp

lemma child_not_above:
  assumes "acyclic (edges g)" and "c \<in> set (adj g n)"
  shows "n \<notin> subtree g c"
proof
  assume "n \<in> subtree g c"
  then have "(n, n) \<in> (edges g)\<^sup>+"
    using assms(2) by (auto simp: subtree_def intro: rtrancl_into_trancl2)
  then show False using assms(1) by (simp add: acyclic_def)
qed

lemma parent_of_descendant:
  assumes "single_valued ((edges g)\<inverse>)" and "c' \<in> set (adj g n)" and "(c, c') \<in> (edges g)\<^sup>*" and "c \<noteq> c'"
  shows "(c, n) \<in> (edges g)\<^sup>*"
proof -
  obtain p where "(c, p) \<in> (edges g)\<^sup>*" "(p, c') \<in> edges g"
    using assms(3,4) by (auto elim: rtranclE)
  moreover have "p = n" using assms(1,2) calculation(2) by (auto simp: single_valued_def)
  ultimately show ?thesis by simp
qed

lemma subtrees_disjoint:
  assumes "pivot_tree g" and "c \<in> set (adj g n)" and "c' \<in> set (adj g n)" and "c \<noteq> c'"
  shows "subtree g c \<inter> subtree g c' = {}"
proof (rule ccontr)
  assume "subtree g c \<inter> subtree g c' \<noteq> {}"
  then obtain v where "(v, c) \<in> ((edges g)\<inverse>)\<^sup>*" "(v, c') \<in> ((edges g)\<inverse>)\<^sup>*"
    by (auto simp: subtree_def rtrancl_converse)
  then have "(c, c') \<in> (edges g)\<^sup>* \<or> (c', c) \<in> (edges g)\<^sup>*"
    using single_valued_confluent[of "(edges g)\<inverse>" v c c'] assms(1)
    by (auto simp: pivot_tree_def rtrancl_converse)
  then have "n \<in> subtree g c \<or> n \<in> subtree g c'"
    using parent_of_descendant[of g c' n c] parent_of_descendant[of g c n c'] assms
    by (auto simp: pivot_tree_def subtree_def)
  then show False using child_not_above assms(1-3) by (auto simp: pivot_tree_def)
qed

lemma card_subtree:
  assumes "pivot_tree g"
  shows "card (subtree g n) = sum_list (map (\<lambda>c. card (subtree g c)) (adj g n)) + 1"
proof -
  have "card (\<Union>c \<in> set (adj g n). subtree g c) = (\<Sum>c \<in> set (adj g n). card (subtree g c))"
    by (rule card_UN_disjoint) (use subtrees_disjoint[OF assms] in auto)
  moreover have "n \<notin> (\<Union>c \<in> set (adj g n). subtree g c)"
    using child_not_above assms by (auto simp: pivot_tree_def)
  moreover have "distinct (adj g n)" using assms by (simp add: pivot_tree_def dag_wf_def)
  ultimately show ?thesis
    by (subst subtree_unfold) (simp add: sum_list_distinct_conv_sum_set)
qed

subsection \<open>The traversal\<close>

text \<open>
  Every vertex on the stack but the root was pushed by its only parent, which has been popped; the children
  of a popped vertex were popped later or are on the stack.
\<close>

definition visit_inv :: "dag_graph \<Rightarrow> h256 \<Rightarrow> h256 list \<Rightarrow> h256 list \<Rightarrow> bool" where
  "visit_inv g root st po \<longleftrightarrow>
     distinct (po @ st) \<and> set (po @ st) \<subseteq> subtree g root
     \<and> (\<forall>w \<in> set (po @ st). w = root \<or> (\<exists>p \<in> set po. w \<in> set (adj g p)))
     \<and> (\<forall>a x b. po = a @ x # b \<longrightarrow> set (adj g x) \<subseteq> set b \<union> set st)"

lemma visit_inv_children:
  "visit_inv g root st po \<Longrightarrow> po = a @ x # b \<Longrightarrow> set (adj g x) \<subseteq> set b \<union> set st"
  unfolding visit_inv_def by blast

lemma visit_inv_step:
  assumes "pivot_tree g" and "visit_inv g root (cur # st) po"
  shows "visit_inv g root (rev (adj g cur) @ st) (po @ [cur])"
proof -
  note inv = assms(2)[unfolded visit_inv_def]
  have cur: "cur \<in> subtree g root" "cur \<notin> set po" using inv by auto
  have new: "c \<notin> set (po @ cur # st)" if "c \<in> set (adj g cur)" for c
  proof
    assume "c \<in> set (po @ cur # st)"
    then consider "c = root" | p where "p \<in> set po" "c \<in> set (adj g p)" using inv by blast
    then show False
    proof cases
      case 1
      then show False using child_not_above[of g c cur] cur that assms(1)
        by (auto simp: pivot_tree_def)
    next
      case 2
      then have "p = cur" using that assms(1) by (auto simp: pivot_tree_def single_valued_def)
      then show False using 2 cur by simp
    qed
  qed
  have later: "set (adj g x) \<subseteq> set b \<union> set (rev (adj g cur) @ st)" if "po @ [cur] = a @ x # b" for a x b
  proof (cases b rule: rev_cases)
    case (snoc b' y)
    then have "po = a @ x # b'" "y = cur" using that by auto
    then have "set (adj g x) \<subseteq> set b' \<union> set (cur # st)" using inv by blast
    then show ?thesis using snoc \<open>y = cur\<close> by auto
  qed (use that in auto)
  have "distinct (adj g cur)" using assms(1) by (simp add: pivot_tree_def dag_wf_def)
  moreover have "set (adj g cur) \<subseteq> subtree g root"
    using cur by (auto simp: subtree_def intro: rtrancl_into_rtrancl)
  ultimately show ?thesis
    unfolding visit_inv_def using inv new later by auto
qed

lemma ghost_visit_spec:
  assumes "pivot_tree g" and "visit_inv g root st po" and "card (subtree g root) \<le> fuel + length po"
  shows "\<exists>po'. ghost_visit fuel g st po = Some po' \<and> visit_inv g root [] po' \<and> set (po @ st) \<subseteq> set po'"
  using assms
proof (induction fuel g st po rule: ghost_visit.induct)
  case (2 g cur st po)
  then have "length (po @ cur # st) \<le> card (subtree g root)"
    unfolding visit_inv_def by (metis distinct_card card_mono finite_subtree)
  with 2 show ?case by simp
next
  case (3 fuel g cur st po)
  have "visit_inv g root (rev (adj g cur) @ st) (po @ [cur])"
    using "3.prems" by (intro visit_inv_step)
  then show ?case using "3.IH" "3.prems" by fastforce
qed auto

lemma ghost_weights_spec:
  assumes "pivot_tree g" and "\<And>a x b. xs = a @ x # b \<Longrightarrow> set (adj g x) \<subseteq> set a \<union> dom (map_of m)"
    and "\<And>k w. map_of m k = Some w \<Longrightarrow> w = card (subtree g k)"
  shows "map_of (ghost_weights g xs m) k
    = (if k \<in> set xs \<union> dom (map_of m) then Some (card (subtree g k)) else None)"
  using assms(2,3)
proof (induction xs arbitrary: m)
  case Nil
  then show ?case by (cases "map_of m k") auto
next
  case (Cons x xs)
  have "set (adj g x) \<subseteq> dom (map_of m)" using Cons.prems(1)[of "[]" x xs] by simp
  then have "map (\<lambda>s. case map_of m s of None \<Rightarrow> 0 | Some w \<Rightarrow> w) (adj g x) = map (\<lambda>c. card (subtree g c)) (adj g x)"
    using Cons.prems(2) by (auto simp: dom_def)
  then have w: "ghost_weight g m x = card (subtree g x)"
    unfolding ghost_weight_def card_subtree[OF assms(1), of x] by (simp only:)
  have "map_of (ghost_weights g xs (um_put x (ghost_weight g m x) m)) k
    = (if k \<in> set xs \<union> dom (map_of (um_put x (ghost_weight g m x) m)) then Some (card (subtree g k)) else None)"
  proof (rule Cons.IH)
    fix a y b assume "xs = a @ y # b"
    then show "set (adj g y) \<subseteq> set a \<union> dom (map_of (um_put x (ghost_weight g m x) m))"
      using Cons.prems(1)[of "x # a" y b] by auto
  next
    fix k v assume "map_of (um_put x (ghost_weight g m x) m) k = Some v"
    then show "v = card (subtree g k)" using Cons.prems(2) w by (auto split: if_splits)
  qed
  then show ?case by simp
qed

lemma ghost_next_spec:
  assumes "\<forall>s \<in> set ss. map_of wm s = Some (f s) \<and> 0 < f s"
  shows "\<exists>h' n'. ghost_next wm ss h n = Some (h', n') \<and> (n' = n \<and> h' = h \<or> n' \<in> set ss \<and> h' = f n')
    \<and> (\<forall>s \<in> set ss. f s < h' \<or> f s = h' \<and> n' \<le> s) \<and> (h < h' \<or> h = h' \<and> n' \<le> n)"
  using assms
proof (induction ss arbitrary: h n)
  case (Cons s ss)
  define h0 where "h0 = (if h < f s then f s else h)"
  define n0 where "n0 = (if h < f s \<or> f s = h \<and> s < n then s else n)"
  have step: "ghost_next wm (s # ss) h n = ghost_next wm ss h0 n0"
    using Cons.prems by (auto simp: h0_def n0_def)
  obtain h' n' where IH: "ghost_next wm ss h0 n0 = Some (h', n')"
    "n' = n0 \<and> h' = h0 \<or> n' \<in> set ss \<and> h' = f n'"
    "\<forall>s \<in> set ss. f s < h' \<or> f s = h' \<and> n' \<le> s" "h0 < h' \<or> h0 = h' \<and> n' \<le> n0"
    using Cons.IH[of h0 n0] Cons.prems by auto
  have "f s < h0 \<or> f s = h0 \<and> n0 \<le> s" "h < h0 \<or> h = h0 \<and> n0 \<le> n"
    "n0 = n \<and> h0 = h \<or> n0 = s \<and> h0 = f s" by (auto simp: h0_def n0_def)
  then have "f s < h' \<or> f s = h' \<and> n' \<le> s" "h < h' \<or> h = h' \<and> n' \<le> n"
    "n' = n \<and> h' = h \<or> n' \<in> set (s # ss) \<and> h' = f n'"
    using IH(2,4) by auto
  then show ?case using IH(1,3) step by simp
qed simp

definition heaviest_child :: "dag_graph \<Rightarrow> h256 \<Rightarrow> h256 \<Rightarrow> bool" where
  "heaviest_child g n c \<longleftrightarrow> c \<in> set (adj g n)
     \<and> (\<forall>s \<in> set (adj g n). card (subtree g s) < card (subtree g c) \<or> card (subtree g s) = card (subtree g c) \<and> c \<le> s)"

fun ghost_chain :: "dag_graph \<Rightarrow> h256 list \<Rightarrow> bool" where
  "ghost_chain g [] \<longleftrightarrow> False"
| "ghost_chain g [x] \<longleftrightarrow> adj g x = []"
| "ghost_chain g (x # y # ys) \<longleftrightarrow> heaviest_child g x y \<and> ghost_chain g (y # ys)"

lemma ghost_path_spec:
  assumes "pivot_tree g" and "\<And>k. k \<in> subtree g root \<Longrightarrow> map_of wm k = Some (card (subtree g k))"
    and "card (subtree g root) \<le> fuel"
  shows "\<exists>p. ghost_path fuel g wm root chain = Some (chain @ root # p) \<and> ghost_chain g (root # p)"
  using assms(2,3)
proof (induction fuel arbitrary: root chain)
  case 0
  then show ?case by (subst (asm) subtree_unfold) simp
next
  case (Suc fuel)
  have sub: "subtree g c \<subset> subtree g root" if "c \<in> set (adj g root)" for c
    using subtree_unfold[of g root] child_not_above[OF _ that] that assms(1) by (auto simp: pivot_tree_def)
  have pos: "\<forall>s \<in> set (adj g root). map_of wm s = Some (card (subtree g s)) \<and> 0 < card (subtree g s)"
  proof
    fix s assume "s \<in> set (adj g root)"
    moreover have "s \<in> subtree g s" by (simp add: subtree_def)
    ultimately show "map_of wm s = Some (card (subtree g s)) \<and> 0 < card (subtree g s)"
      using Suc.prems(1)[of s] sub[of s] by (auto simp: card_gt_0_iff)
  qed
  from ghost_next_spec[OF pos, of 0 root] obtain h n where
    gn: "ghost_next wm (adj g root) 0 root = Some (h, n)"
    and src: "n = root \<and> h = 0 \<or> n \<in> set (adj g root) \<and> h = card (subtree g n)"
    and best: "\<forall>s \<in> set (adj g root). card (subtree g s) < h \<or> card (subtree g s) = h \<and> n \<le> s"
    by blast
  show ?case
  proof (cases "h = 0")
    case True
    then have "adj g root = []"
      using best pos by (cases "adj g root") auto
    then show ?thesis using gn True by simp
  next
    case False
    then have n: "n \<in> set (adj g root)" "h = card (subtree g n)" using src by auto
    then have "card (subtree g n) \<le> fuel"
      using psubset_card_mono[OF finite_subtree sub] Suc.prems(2) by fastforce
    then obtain p where "ghost_path fuel g wm n (chain @ [root]) = Some ((chain @ [root]) @ n # p)"
      "ghost_chain g (n # p)" using Suc.IH[of n "chain @ [root]"] Suc.prems(1) sub[OF n(1)] by blast
    then show ?thesis using gn False n best by (auto simp: heaviest_child_def)
  qed
qed

lemma ghost_post_order:
  assumes "visit_inv g root [] po" and "root \<in> set po"
  shows "set po = subtree g root"
proof
  show "subtree g root \<subseteq> set po"
  proof
    fix v assume "v \<in> subtree g root"
    then have "(root, v) \<in> (edges g)\<^sup>*" by (simp add: subtree_def)
    then show "v \<in> set po"
    proof (induction rule: rtrancl_induct)
      case (step y z)
      then obtain a b where po: "po = a @ y # b" by (meson split_list)
      show ?case using visit_inv_children[OF assms(1) po] po step.hyps(2) by auto
    qed (rule assms(2))
  qed
qed (use assms(1) in \<open>simp add: visit_inv_def\<close>)

lemma getGhostPath_spec:
  assumes "pivot_tree g" and "hasVertex g v" and "card (subtree g v) \<le> fuel"
  shows "\<exists>p. getGhostPath fuel g v = Some (v # p) \<and> ghost_chain g (v # p)"
proof -
  have "visit_inv g v [v] []" by (simp add: visit_inv_def subtree_def)
  from ghost_visit_spec[OF assms(1) this] assms(3) obtain po where
    po: "ghost_visit fuel g [v] [] = Some po" "visit_inv g v [] po" "v \<in> set po" by auto
  have wm: "map_of (ghost_weights g (rev po) []) k = Some (card (subtree g k))" if "k \<in> subtree g v" for k
  proof -
    have children: "set (adj g x) \<subseteq> set a \<union> dom (map_of [])" if "rev po = a @ x # b" for a x b
    proof -
      have "po = rev b @ x # rev a" using arg_cong[OF that, of rev] by simp
      then show ?thesis using visit_inv_children[OF po(2)] by fastforce
    qed
    have "map_of (ghost_weights g (rev po) []) k
        = (if k \<in> set (rev po) \<union> dom (map_of ([] :: (h256, nat) umap)) then Some (card (subtree g k)) else None)"
      by (rule ghost_weights_spec[OF assms(1)]) (use children in simp_all)
    then show ?thesis using that ghost_post_order[OF po(2,3)] by simp
  qed
  show ?thesis
    using ghost_path_spec[OF assms(1) wm assms(3), of "[]"] po(1) assms(2) by (simp add: getGhostPath_def)
qed

section \<open>Properties\<close>

text \<open>C32: The depth first search of Dag::reachable, which marks a vertex when it pushes it, returns and
  answers true exactly when there is a path of edges from the one block to the other.\<close>

theorem reachable_correct: "reachable g from to \<longleftrightarrow> (from, to) \<in> (edges g)\<^sup>*"
  by (rule reachable_rtrancl)

text \<open>C29: If the anchor and every non-finalized block are in the graph, Dag::computeOrder succeeds; the order
  lists, without repetition, exactly the anchor and the non-finalized blocks with a path to it.\<close>

theorem computeOrder_epoch:
  assumes "hasVertex g anchor" and "\<forall>b \<in> set (concat (map snd blks)). hasVertex g b"
  shows "\<exists>order. computeOrder g anchor prior blks = Some (True, order) \<and> distinct order
    \<and> set order = insert anchor {b \<in> set (concat (map snd blks)). (b, anchor) \<in> (edges g)\<^sup>*}"
proof -
  obtain order where "computeOrder g anchor prior blks = Some (True, order)"
    using assms collect_epoch_defined[OF assms(2), of anchor "[(anchor, anchor)]"]
    by (auto simp: computeOrder_def)
  then show ?thesis using computeOrder_result assms(1) by blast
qed

definition sample_dag :: dag_graph where
  "sample_dag = [(1, [2, 3]), (3, [2]), (2, [4]), (4, [])]"

theorem computeOrder_epoch_witness:
  "hasVertex sample_dag 4 \<and> (\<exists>order. computeOrder sample_dag 4 [] [(1, [1, 3]), (2, [2])] = Some (True, order)
     \<and> distinct order \<and> set order = {1, 2, 3, 4})"
proof -
  have E: "(1, 2) \<in> edges sample_dag" "(3, 2) \<in> edges sample_dag" "(2, 4) \<in> edges sample_dag"
    by (simp_all add: sample_dag_def adj_def um_get_or_def)
  have "(1, 4) \<in> (edges sample_dag)\<^sup>*" "(3, 4) \<in> (edges sample_dag)\<^sup>*" "(2, 4) \<in> (edges sample_dag)\<^sup>*"
    using E by (meson r_into_rtrancl rtrancl_trans)+
  then show ?thesis
    using computeOrder_epoch[of sample_dag 4 "[(1, [1, 3]), (2, [2])]" "[]"]
    by (auto simp: sample_dag_def hasVertex_def)
qed

text \<open>C30: The order does not depend on any container's iteration order: two nodes whose graphs have
  the same vertices and the same edges, and whose sets of non-finalized blocks are equal, compute the same
  order for an anchor, whatever the order in which out-edges, levels and unordered sets are walked.\<close>

theorem computeOrder_deterministic:
  assumes "hasVertex g = hasVertex g'" and "edges g = edges g'"
    and "set (concat (map snd blks)) = set (concat (map snd blks'))"
  shows "computeOrder g anchor prior blks = computeOrder g' anchor prior blks'"
  using collect_epoch_cong[OF assms(2,1,3), of anchor] order_epoch_cong[OF assms(2)] assms(1)
  by (simp add: computeOrder_def split: option.splits)

theorem computeOrder_deterministic_witness:
  "computeOrder sample_dag 4 [] [(1, [1, 3]), (2, [2])]
   = computeOrder [(4, []), (2, [4]), (3, [2]), (1, [3, 2])] 4 [] [(1, [3, 1]), (2, [2])]"
proof (rule computeOrder_deterministic)
  show "hasVertex sample_dag = hasVertex [(4, []), (2, [4]), (3, [2]), (1, [3, 2])]"
    by (auto simp: fun_eq_iff hasVertex_def sample_dag_def)
  show "edges sample_dag = edges [(4, []), (2, [4]), (3, [2]), (1, [3, 2])]"
    by (auto simp: edges_def adj_def um_get_or_def sample_dag_def split: if_splits)
qed auto

text \<open>C34: The order is not topological, although the comment in the loop says so: vertices are marked when
  they are pushed, so with edges from block 1 to 2 and 3 and from 3 to 2, block 2 is ordered before its
  parent 3.\<close>

theorem computeOrder_not_topological:
  "computeOrder sample_dag 4 [] [(1, [1, 3]), (2, [2])] = Some (True, [1, 2, 4, 3]) \<and> (3, 2) \<in> edges sample_dag"
proof -
  have eval: "adj sample_dag 1 = [2, 3]" "adj sample_dag 3 = [2]" "adj sample_dag 2 = [4]" "adj sample_dag 4 = []"
    by (simp_all add: sample_dag_def adj_def um_get_or_def)
  have "hasVertex sample_dag 1" "hasVertex sample_dag 2" "hasVertex sample_dag 3" "hasVertex sample_dag 4"
    by (simp_all add: sample_dag_def hasVertex_def)
  then show ?thesis
    by (simp add: computeOrder_def reachable_def eval push_neighbors_def insert_commute)
qed

text \<open>C33: Adding a block that is new and does not refer to itself keeps the graph well formed and acyclic, makes
  exactly that vertex known, and adds exactly the edges from those of its pivot and tips that are known.\<close>

theorem addVEEs_fresh:
  assumes "addVEEs b pivot tips g = Some (res, g')" and "fresh_block b pivot tips g"
    and "dag_wf g" and "acyclic (edges g)"
  shows "dag_wf g' \<and> acyclic (edges g') \<and> (\<forall>w. hasVertex g' w \<longleftrightarrow> w = b \<or> hasVertex g w)
    \<and> edges g' = edges g \<union> parents pivot tips (hasVertex g) \<times> {b}"
  using addVEEs_spec(2,3)[OF assms(1)] addVEEs_acyclic[OF assms(1,2,4)] fresh_block_edges(1)[OF assms(1,2)] assms(3)
  by simp

theorem addVEEs_fresh_witness:
  "dag_wf [(1, [2]), (2, [])] \<and> acyclic (edges [(1, [2]), (2, [])])
   \<and> edges [(1, [2, 3]), (2, [3]), (3, [])] = edges [(1, [2]), (2, [])] \<union> {1, 2} \<times> {3}
   \<and> acyclic (edges [(1, [2, 3]), (2, [3]), (3, [])])"
proof -
  have e: "edges [(1, [2]), (2, [])] = {(1, 2)}"
    by (auto simp: edges_def adj_def um_get_or_def split: if_splits)
  have wf: "dag_wf [(1, [2]), (2, [])]"
    by (auto simp: dag_wf_def adj_def um_get_or_def hasVertex_def)
  have ac: "acyclic (edges [(1, [2]), (2, [])])"
    unfolding e acyclic_insert by (simp add: acyclic_def)
  have fr: "fresh_block 3 1 [2] [(1, [2]), (2, [])]" by (simp add: fresh_block_def hasVertex_def)
  have add: "addVEEs 3 1 [2] [(1, [2]), (2, [])] = Some (True, [(1, [2, 3]), (2, [3]), (3, [])])"
    by (simp add: addVEEs_def add_vertex_def hasVertex_def add_edge_def adj_def um_get_or_def)
  have par: "parents 1 [2] (hasVertex [(1, [2]), (2, [])]) = {1, 2}"
    by (auto simp: parents_def hasVertex_def)
  show ?thesis using addVEEs_fresh[OF add fr wf ac, unfolded par] wf ac by blast
qed

text \<open>C31: On a pivot tree, PivotTree::getGhostPath ends, within as many iterations of each loop as the tree has
  vertices; the path starts at the given block, at every block it continues to the child with the most blocks in
  its subtree, the smallest hash on a tie, and it ends at a leaf.\<close>

theorem getGhostPath_heaviest:
  assumes "pivot_tree g" and "hasVertex g v" and "getNumVertices g \<le> fuel"
  shows "\<exists>p. getGhostPath fuel g v = Some (v # p) \<and> ghost_chain g (v # p)"
proof (rule getGhostPath_spec[OF assms(1,2)])
  have "subtree g v \<subseteq> {w. hasVertex g w}"
  proof
    fix w assume "w \<in> subtree g v"
    then have "(v, w) \<in> (edges g)\<^sup>*" by (simp add: subtree_def)
    then show "w \<in> {w. hasVertex g w}"
      by (cases rule: rtranclE) (use assms(1,2) in \<open>auto simp: pivot_tree_def dag_wf_def\<close>)
  qed
  also have "{w. hasVertex g w} = set (map fst g)"
    by (simp only: hasVertex_def um_find_mem Collect_mem_eq set_map)
  finally have "card (subtree g v) \<le> length (map fst g)"
    by (meson card_length card_mono finite_set le_trans)
  then show "card (subtree g v) \<le> fuel" using assms(3) by (simp add: getNumVertices_def)
qed

theorem getGhostPath_heaviest_witness:
  "pivot_tree [(1, [2]), (2, [])] \<and> getGhostPath 2 [(1, [2]), (2, [])] 1 = Some [1, 2]
   \<and> ghost_chain [(1, [2]), (2, [])] [1, 2]"
proof -
  have e: "edges [(1, [2]), (2, [])] = {(1, 2)}"
    by (auto simp: edges_def adj_def um_get_or_def split: if_splits)
  have "acyclic (edges [(1, [2]), (2, [])])" unfolding e acyclic_insert by (simp add: acyclic_def)
  then have pt: "pivot_tree [(1, [2]), (2, [])]"
    by (auto simp: pivot_tree_def e single_valued_def dag_wf_def adj_def um_get_or_def hasVertex_def)
  moreover have "getGhostPath 2 [(1, [2]), (2, [])] 1 = Some [1, 2]"
    by (simp add: getGhostPath_def hasVertex_def adj_def um_get_or_def ghost_weight_def numeral_2_eq_2)
  ultimately show ?thesis
    using getGhostPath_heaviest[OF pt, of 1 2] by (simp add: hasVertex_def getNumVertices_def)
qed

end
