(* ===== verification/Rlp.thy ===== *)
theory Rlp
  imports Prelude
begin

text \<open>
  Recursive length prefix encoding, \<open>aleth/libdevcore/RLP.cpp\<close> and \<open>RLP.h\<close>: the reader \<open>RLP\<close>, a view of bytes,
  and the writer \<open>RLPStream\<close>. Exceptions are values; a view is its bytes, with the index cache of \<open>operator[]\<close>
  kept apart. Sizes are natural numbers: the length of a view in memory is below \<open>2 ^ 64\<close>, and the one sum that
  could overflow is guarded by the code.
\<close>

type_synonym bytes = "byte list"

datatype rlp_error = BadRLP | BadCast | OversizeRLP | UndersizeRLP | RLPException | InvalidEncodingSize
  | AssertionFailed

type_synonym 'a rlp_result = "rlp_error + 'a"

text \<open>The rest of a function body behind a call that may throw.\<close>

definition rlp_bind :: "'a rlp_result \<Rightarrow> ('a \<Rightarrow> 'b rlp_result) \<Rightarrow> 'b rlp_result" where
  "rlp_bind x f = (case x of Inl e \<Rightarrow> Inl e | Inr v \<Rightarrow> f v)"

lemma rlp_bind_simps [simp]: "rlp_bind (Inl e) f = Inl e" "rlp_bind (Inr v) f = f v"
  by (simp_all add: rlp_bind_def)

section \<open>Big endian numbers\<close>

fun bytesRequired :: "nat \<Rightarrow> nat" where
  "bytesRequired i = (if i = 0 then 0 else Suc (bytesRequired (i div 256)))"

declare bytesRequired.simps [simp del]

text \<open>The \<open>br\<close> bytes that \<open>pushInt\<close> and \<open>toBigEndian\<close> write.\<close>

fun be_bytes :: "nat \<Rightarrow> nat \<Rightarrow> bytes" where
  "be_bytes 0 i = []"
| "be_bytes (Suc br) i = be_bytes br (i div 256) @ [of_nat (i mod 256)]"

definition be_value :: "bytes \<Rightarrow> nat" where
  "be_value bs = foldl (\<lambda>ret b. ret * 256 + unat b) 0 bs"

definition fromBigEndian :: "bytes \<Rightarrow> 'a::len word" where
  "fromBigEndian bs = foldl (\<lambda>ret b. ret * 256 + ucast b) 0 bs"

section \<open>The reader\<close>

record strictness =
  AllowNonCanon :: bool
  ThrowOnFail :: bool
  FailIfTooBig :: bool
  FailIfTooSmall :: bool

definition Strict :: strictness where
  "Strict = \<lparr>AllowNonCanon = False, ThrowOnFail = True, FailIfTooBig = True, FailIfTooSmall = False\<rparr>"

definition VeryStrict :: strictness where
  "VeryStrict = \<lparr>AllowNonCanon = False, ThrowOnFail = True, FailIfTooBig = True, FailIfTooSmall = True\<rparr>"

definition LaissezFaire :: strictness where
  "LaissezFaire = \<lparr>AllowNonCanon = True, ThrowOnFail = False, FailIfTooBig = False, FailIfTooSmall = False\<rparr>"

definition cropped :: "bytes \<Rightarrow> nat \<Rightarrow> nat \<Rightarrow> bytes" where
  "cropped d begin cnt = (if begin + cnt \<le> length d then take cnt (drop begin d) else [])"

definition isNull :: "bytes \<Rightarrow> bool" where
  "isNull d \<longleftrightarrow> d = []"

definition isEmpty :: "bytes \<Rightarrow> bool" where
  "isEmpty d \<longleftrightarrow> d \<noteq> [] \<and> (hd d = 0x80 \<or> hd d = 0xc0)"

definition isData :: "bytes \<Rightarrow> bool" where
  "isData d \<longleftrightarrow> d \<noteq> [] \<and> hd d < 0xc0"

definition isList :: "bytes \<Rightarrow> bool" where
  "isList d \<longleftrightarrow> d \<noteq> [] \<and> hd d \<ge> 0xc0"

definition isSingleByte :: "bytes \<Rightarrow> bool" where
  "isSingleByte d \<longleftrightarrow> d \<noteq> [] \<and> hd d < 0x80"

definition requireGood :: "bytes \<Rightarrow> unit rlp_result" where
  "requireGood d =
     (if d = [] then Inl BadRLP
      else if hd d \<noteq> 0x81 then Inr ()
      else if length d < 2 then Inl BadRLP
      else if d ! 1 < 0x80 then Inl BadRLP
      else Inr ())"

definition isInt :: "bytes \<Rightarrow> bool rlp_result" where
  "isInt d =
     (if d = [] then Inr False
      else case requireGood d of Inl e \<Rightarrow> Inl e | Inr _ \<Rightarrow>
        let n = unat (hd d) in
        if n < 0x80 then Inr (n \<noteq> 0)
        else if n = 0x80 then Inr True
        else if n \<le> 0xb7 then (if length d \<le> 1 then Inl BadRLP else Inr (d ! 1 \<noteq> 0))
        else if n < 0xc0 then
          (if length d \<le> 1 + n - 0xb7 then Inl BadRLP else Inr (d ! (1 + n - 0xb7) \<noteq> 0))
        else Inr False)"

text \<open>The two long forms of \<open>length\<close>; both limits are 56.\<close>

definition rlp_long_length :: "nat \<Rightarrow> bytes \<Rightarrow> nat rlp_result" where
  "rlp_long_length length_size d =
     (if length d \<le> length_size then Inl BadRLP
      else if length d > 1 \<and> d ! 1 = 0 then Inl BadRLP
      else if length_size > 8 then Inl UndersizeRLP
      else
        let ret = be_value (take length_size (drop 1 d)) in
        if ret < 56 then Inl BadRLP
        else if ret \<ge> 2 ^ 64 - 1 - 0x100 then Inl UndersizeRLP
        else Inr ret)"

definition rlp_length :: "bytes \<Rightarrow> nat rlp_result" where
  "rlp_length d =
     (if d = [] then Inr 0
      else case requireGood d of Inl e \<Rightarrow> Inl e | Inr _ \<Rightarrow>
        let n = unat (hd d) in
        if n < 0x80 then Inr 1
        else if n \<le> 0xb7 then Inr (n - 0x80)
        else if n < 0xc0 then rlp_long_length (n - 0xb7) d
        else if n \<le> 0xf7 then Inr (n - 0xc0)
        else rlp_long_length (n - 0xf7) d)"

definition lengthSize :: "bytes \<Rightarrow> nat" where
  "lengthSize d =
     (if isData d \<and> hd d > 0xb7 then unat (hd d) - 0xb7
      else if isList d \<and> hd d > 0xf7 then unat (hd d) - 0xf7
      else 0)"

definition payloadOffset :: "bytes \<Rightarrow> nat" where
  "payloadOffset d = (if isSingleByte d then 0 else 1 + lengthSize d)"

definition payload :: "bytes \<Rightarrow> bytes rlp_result" where
  "payload d =
     (case rlp_length d of Inl e \<Rightarrow> Inl e
      | Inr l \<Rightarrow> if l > length d then Inl BadRLP else Inr (cropped d (payloadOffset d) l))"

definition actualSize :: "bytes \<Rightarrow> nat rlp_result" where
  "actualSize d =
     (if isNull d then Inr 0
      else if isSingleByte d then Inr 1
      else if isData d \<or> isList d then
        (case rlp_length d of Inl e \<Rightarrow> Inl e | Inr l \<Rightarrow> Inr (payloadOffset d + l))
      else Inr 0)"

text \<open>The constructor: the view, or the empty view where a check fails without throwing.\<close>

definition RLP :: "bytes \<Rightarrow> strictness \<Rightarrow> bytes rlp_result" where
  "RLP d s =
     (case (if FailIfTooBig s then
              (case actualSize d of Inl e \<Rightarrow> Inl e
               | Inr a \<Rightarrow> if a < length d then (if ThrowOnFail s then Inl OversizeRLP else Inr []) else Inr d)
            else Inr d) of
        Inl e \<Rightarrow> Inl e
      | Inr m \<Rightarrow>
          if FailIfTooSmall s then
            (case actualSize m of Inl e \<Rightarrow> Inl e
             | Inr a \<Rightarrow> if a > length d then (if ThrowOnFail s then Inl UndersizeRLP else Inr []) else Inr m)
          else Inr m)"

definition throw_if_small :: strictness where
  "throw_if_small = \<lparr>AllowNonCanon = False, ThrowOnFail = True, FailIfTooBig = False, FailIfTooSmall = True\<rparr>"

definition sizeAsEncoded :: "bytes \<Rightarrow> nat rlp_result" where
  "sizeAsEncoded d = (case RLP d throw_if_small of Inl e \<Rightarrow> Inl e | Inr m \<Rightarrow> actualSize m)"

lemma sizeAsEncoded_pos:
  assumes "sizeAsEncoded d = Inr n" and "d \<noteq> []"
  shows "0 < n" and "n \<le> length d"
proof -
  from assms show "0 < n"
    by (auto simp: sizeAsEncoded_def RLP_def throw_if_small_def actualSize_def isNull_def payloadOffset_def
        isData_def isList_def not_le split: sum.splits if_splits)
  from assms show "n \<le> length d"
    by (auto simp: sizeAsEncoded_def RLP_def throw_if_small_def split: sum.splits if_splits)
qed

function count_items :: "bytes \<Rightarrow> nat rlp_result" where
  "count_items d =
     (if d = [] then Inr 0
      else case sizeAsEncoded d of Inl e \<Rightarrow> Inl e
        | Inr n \<Rightarrow> (case count_items (drop n d) of Inl e \<Rightarrow> Inl e | Inr i \<Rightarrow> Inr (Suc i)))"
  by pat_completeness auto
termination
  by (relation "measure length") (auto dest: sizeAsEncoded_pos)

declare count_items.simps [simp del]

definition items :: "bytes \<Rightarrow> nat rlp_result" where
  "items d = (if isList d then (case payload d of Inl e \<Rightarrow> Inl e | Inr p \<Rightarrow> count_items p) else Inr 0)"

definition itemCount :: "bytes \<Rightarrow> nat rlp_result" where
  "itemCount d = (if isList d then items d else Inr 0)"

subsection \<open>Indexing\<close>

text \<open>
  \<open>operator[]\<close> remembers where the last item it returned ends, so that ascending accesses do not start
  over. A fresh view has the greatest index, which forces a restart.
\<close>

record rlp_cache =
  m_lastIndex :: nat
  m_lastEnd :: nat
  m_lastItem :: bytes

definition cache_init :: rlp_cache where
  "cache_init = \<lparr>m_lastIndex = 2 ^ 64 - 1, m_lastEnd = 0, m_lastItem = []\<rparr>"

definition index_restart :: "bytes \<Rightarrow> rlp_cache rlp_result" where
  "index_restart d =
     (case payload d of Inl e \<Rightarrow> Inl e
      | Inr p \<Rightarrow> (case sizeAsEncoded p of Inl e \<Rightarrow> Inl e
        | Inr n \<Rightarrow> Inr \<lparr>m_lastIndex = 0, m_lastEnd = n, m_lastItem = cropped p 0 n\<rparr>))"

fun index_advance :: "nat \<Rightarrow> bytes \<Rightarrow> rlp_cache \<Rightarrow> rlp_cache rlp_result" where
  "index_advance 0 d c = Inr c"
| "index_advance (Suc k) d c =
     (if m_lastItem c = [] then Inr c
      else case payload d of Inl e \<Rightarrow> Inl e
        | Inr p \<Rightarrow> (case sizeAsEncoded (drop (m_lastEnd c) p) of Inl e \<Rightarrow> Inl e
          | Inr n \<Rightarrow>
              let item = cropped (drop (m_lastEnd c) p) 0 n in
              index_advance k d
                \<lparr>m_lastIndex = m_lastIndex c + 1, m_lastEnd = m_lastEnd c + length item, m_lastItem = item\<rparr>))"

definition rlp_index :: "bytes \<Rightarrow> nat \<Rightarrow> rlp_cache \<Rightarrow> (bytes \<times> rlp_cache) rlp_result" where
  "rlp_index d i c =
     (case (if i < m_lastIndex c then index_restart d else Inr c) of Inl e \<Rightarrow> Inl e
      | Inr c1 \<Rightarrow>
          (case index_advance (i - m_lastIndex c1) d c1 of Inl e \<Rightarrow> Inl e
           | Inr c2 \<Rightarrow>
               (case RLP (m_lastItem c2) throw_if_small of Inl e \<Rightarrow> Inl e | Inr r \<Rightarrow> Inr (r, c2))))"

subsection \<open>Iterating\<close>

text \<open>The current item and what remains of the payload behind it; both empty at the end.\<close>

type_synonym rlp_iterator = "bytes \<times> bytes"

definition iter_begin :: "bytes \<Rightarrow> rlp_iterator rlp_result" where
  "iter_begin d =
     (if isList d then
        (case payload d of Inl e \<Rightarrow> Inl e
         | Inr pl \<Rightarrow> (case sizeAsEncoded pl of Inl e \<Rightarrow> Inl e
           | Inr n \<Rightarrow> Inr (cropped pl 0 n, drop (length (cropped pl 0 n)) pl)))
      else Inr ([], []))"

definition iter_next :: "rlp_iterator \<Rightarrow> rlp_iterator rlp_result" where
  "iter_next it =
     (case it of (cur, remaining) \<Rightarrow>
        if remaining \<noteq> [] then
          (case sizeAsEncoded remaining of Inl e \<Rightarrow> Inl e
           | Inr n \<Rightarrow> Inr (cropped remaining 0 n, drop (length (cropped remaining 0 n)) remaining))
        else Inr ([], []))"

definition iter_end :: rlp_iterator where
  "iter_end = ([], [])"

definition iter_deref :: "rlp_iterator \<Rightarrow> bytes rlp_result" where
  "iter_deref it = RLP (fst it) VeryStrict"

subsection \<open>Conversions\<close>

definition toBytes :: "strictness \<Rightarrow> bytes \<Rightarrow> bytes rlp_result" where
  "toBytes flags d =
     (if \<not> isData d then (if ThrowOnFail flags then Inl BadCast else Inr [])
      else payload d)"

definition toInt :: "strictness \<Rightarrow> bytes \<Rightarrow> 'a::len word rlp_result" where
  "toInt flags d =
     (case requireGood d of Inl e \<Rightarrow> Inl e | Inr _ \<Rightarrow>
      case isInt d of Inl e \<Rightarrow> Inl e | Inr is_int \<Rightarrow>
        if (\<not> is_int \<and> \<not> AllowNonCanon flags) \<or> isList d \<or> isNull d
        then (if ThrowOnFail flags then Inl BadCast else Inr 0)
        else case payload d of Inl e \<Rightarrow> Inl e | Inr p \<Rightarrow>
          if length p > LENGTH('a) div 8 \<and> FailIfTooBig flags
          then (if ThrowOnFail flags then Inl BadCast else Inr 0)
          else Inr (fromBigEndian p))"

definition toHash :: "strictness \<Rightarrow> bytes \<Rightarrow> 'a::len word rlp_result" where
  "toHash flags d =
     (case requireGood d of Inl e \<Rightarrow> Inl e | Inr _ \<Rightarrow>
      case payload d of Inl e \<Rightarrow> Inl e | Inr p \<Rightarrow>
        if \<not> isData d \<or> (length p > LENGTH('a) div 8 \<and> FailIfTooBig flags)
           \<or> (length p < LENGTH('a) div 8 \<and> FailIfTooSmall flags)
        then (if ThrowOnFail flags then Inl BadCast else Inr 0)
        else Inr (fromBigEndian (take (LENGTH('a) div 8) p)))"

section \<open>The writer\<close>

text \<open>The head of the stack is the innermost open list: the items it still misses and where it starts.\<close>

record rlp_stream =
  m_out :: bytes
  m_listStack :: "(nat \<times> nat) list"

definition stream_new :: rlp_stream where
  "stream_new = \<lparr>m_out = [], m_listStack = []\<rparr>"

definition stream_clear :: "rlp_stream \<Rightarrow> rlp_stream" where
  "stream_clear r = r\<lparr>m_out := [], m_listStack := []\<rparr>"

definition stream_out :: "rlp_stream \<Rightarrow> bytes rlp_result" where
  "stream_out r = (if m_listStack r \<noteq> [] then Inl RLPException else Inr (m_out r))"

text \<open>The bytes in front of a list of \<open>s\<close> payload bytes once it is complete.\<close>

definition list_prefix :: "nat \<Rightarrow> bytes rlp_result" where
  "list_prefix s =
     (if s < 56 then Inr [of_nat (0xc0 + s)]
      else if 0xf7 + bytesRequired s \<le> 0xff then
        Inr (of_nat (0xf7 + bytesRequired s) # be_bytes (bytesRequired s) s)
      else Inl RLPException)"

fun close_lists :: "nat \<Rightarrow> bytes \<Rightarrow> (nat \<times> nat) list \<Rightarrow> (bytes \<times> (nat \<times> nat) list) rlp_result" where
  "close_lists n out [] = Inr (out, [])"
| "close_lists n out ((missing, p) # st) =
     (if missing < n then Inl RLPException
      else if missing - n \<noteq> 0 then Inr (out, (missing - n, p) # st)
      else case list_prefix (length out - p) of Inl e \<Rightarrow> Inl e
        | Inr pre \<Rightarrow> close_lists 1 (take p out @ pre @ drop p out) st)"

definition noteAppended :: "nat \<Rightarrow> rlp_stream \<Rightarrow> rlp_stream rlp_result" where
  "noteAppended cnt r =
     (if cnt = 0 then Inr r
      else case close_lists cnt (m_out r) (m_listStack r) of Inl e \<Rightarrow> Inl e
        | Inr (out, st) \<Rightarrow> Inr (r\<lparr>m_out := out, m_listStack := st\<rparr>))"

definition appendRaw :: "bytes \<Rightarrow> nat \<Rightarrow> rlp_stream \<Rightarrow> rlp_stream rlp_result" where
  "appendRaw s cnt r = noteAppended cnt (r\<lparr>m_out := m_out r @ s\<rparr>)"

definition pushInt :: "nat \<Rightarrow> nat \<Rightarrow> rlp_stream \<Rightarrow> rlp_stream" where
  "pushInt i br r = r\<lparr>m_out := m_out r @ be_bytes br i\<rparr>"

definition pushCount :: "nat \<Rightarrow> nat \<Rightarrow> rlp_stream \<Rightarrow> rlp_stream rlp_result" where
  "pushCount cnt base r =
     (let br = bytesRequired cnt in
      if br + base > 0xff then Inl RLPException
      else Inr (pushInt cnt br (r\<lparr>m_out := m_out r @ [of_nat (br + base)]\<rparr>)))"

definition appendListRaw :: "bytes \<Rightarrow> rlp_stream \<Rightarrow> rlp_stream rlp_result" where
  "appendListRaw d r =
     (case (if length d < 56 then Inr (r\<lparr>m_out := m_out r @ [of_nat (length d + 0xc0)]\<rparr>)
            else pushCount (length d) 0xf7 r) of
        Inl e \<Rightarrow> Inl e | Inr r' \<Rightarrow> appendRaw d 1 r')"

definition appendList :: "nat \<Rightarrow> rlp_stream \<Rightarrow> rlp_stream rlp_result" where
  "appendList n r =
     (if n \<noteq> 0 then Inr (r\<lparr>m_listStack := (n, length (m_out r)) # m_listStack r\<rparr>) else appendListRaw [] r)"

definition append_bytes :: "bytes \<Rightarrow> bool \<Rightarrow> rlp_stream \<Rightarrow> rlp_stream rlp_result" where
  "append_bytes s compact r =
     (let d = (if compact then dropWhile (\<lambda>b. b = 0) s else s) in
      if length d = 1 \<and> hd d < 0x80 then noteAppended 1 (r\<lparr>m_out := m_out r @ d\<rparr>)
      else case (if length d < 56 then Inr (r\<lparr>m_out := m_out r @ [of_nat (length d + 0x80)]\<rparr>)
                 else pushCount (length d) 0xb7 r) of
        Inl e \<Rightarrow> Inl e
      | Inr r1 \<Rightarrow> (case appendRaw d 0 r1 of Inl e \<Rightarrow> Inl e | Inr r2 \<Rightarrow> noteAppended 1 r2))"

definition append_int :: "nat \<Rightarrow> rlp_stream \<Rightarrow> rlp_stream rlp_result" where
  "append_int i r =
     (if i = 0 then noteAppended 1 (r\<lparr>m_out := m_out r @ [0x80]\<rparr>)
      else if i < 0x80 then noteAppended 1 (r\<lparr>m_out := m_out r @ [of_nat i]\<rparr>)
      else
        let br = bytesRequired i in
        (if br < 56 then noteAppended 1 (pushInt i br (r\<lparr>m_out := m_out r @ [of_nat (br + 0x80)]\<rparr>))
         else
           let brbr = bytesRequired br in
           if 0xb7 + brbr > 0xff then Inl RLPException
           else noteAppended 1 (pushInt i br (pushInt br brbr (r\<lparr>m_out := m_out r @ [of_nat (0xb7 + brbr)]\<rparr>)))))"

definition append_hash :: "'a::len word \<Rightarrow> rlp_stream \<Rightarrow> rlp_stream rlp_result" where
  "append_hash h r = append_bytes (be_bytes (LENGTH('a) div 8) (unat h)) False r"

end
