(* ===== verification/Rlp_Props.thy ===== *)
theory Rlp_Props
  imports Rlp
begin

text \<open>
  The theorems on the encoding: the writer produces the recursive encoding of a tree of items, and the reader
  gives back every part of the tree.
\<close>

section \<open>Big endian numbers\<close>

lemma unat_byte [simp]: "unat (of_nat n :: byte) = n mod 256"
  by (simp add: unsigned_of_nat take_bit_nat_def)

lemma length_be_bytes [simp]: "length (be_bytes br i) = br"
  by (induction br arbitrary: i) simp_all

lemma be_value_Nil [simp]: "be_value [] = 0"
  by (simp add: be_value_def)

lemma be_value_snoc [simp]: "be_value (bs @ [b]) = be_value bs * 256 + unat b"
  by (simp add: be_value_def)

lemma be_value_be_bytes: "i < 256 ^ br \<Longrightarrow> be_value (be_bytes br i) = i"
  by (induction br arbitrary: i) (simp_all add: less_mult_imp_div_less)

lemma fromBigEndian_value: "fromBigEndian bs = (of_nat (be_value bs) :: 'a::len word)"
proof (induction bs rule: rev_induct)
  case (snoc b bs)
  then show ?case by (simp add: fromBigEndian_def be_value_def)
qed (simp add: fromBigEndian_def)

lemma bytesRequired_0 [simp]: "bytesRequired 0 = 0"
  by (simp add: bytesRequired.simps)

lemma bytesRequired_pos: "0 < i \<Longrightarrow> bytesRequired i = Suc (bytesRequired (i div 256))"
  by (subst bytesRequired.simps) simp

lemma bytesRequired_bound: "i < 256 ^ bytesRequired i"
proof (induction i rule: bytesRequired.induct)
  case (1 i)
  then show ?case by (cases "i = 0") (auto simp: bytesRequired_pos div_less_iff_less_mult mult.commute)
qed

lemma bytesRequired_le: "i < 256 ^ k \<Longrightarrow> bytesRequired i \<le> k"
proof (induction k arbitrary: i)
  case (Suc k)
  then show ?case by (cases "i = 0") (simp_all add: bytesRequired_pos less_mult_imp_div_less mult.commute)
qed simp

lemma hd_be_bytes:
  assumes "0 < i"
  shows "be_bytes (bytesRequired i) i \<noteq> []" and "hd (be_bytes (bytesRequired i) i) \<noteq> 0"
proof -
  show "be_bytes (bytesRequired i) i \<noteq> []" using assms by (simp add: bytesRequired_pos)
  show "hd (be_bytes (bytesRequired i) i) \<noteq> 0" using assms
  proof (induction i rule: bytesRequired.induct)
    case (1 i)
    show ?case
    proof (cases "i div 256 = 0")
      case True
      then have "0 < i" "i < 256" using "1.prems" by auto
      moreover have "(of_nat i :: byte) \<noteq> 0"
        using calculation by (metis mod_less unat_0 unat_byte less_not_refl)
      ultimately show ?thesis by (simp add: bytesRequired_pos)
    next
      case False
      then have "be_bytes (bytesRequired (i div 256)) (i div 256) \<noteq> []" by (simp add: bytesRequired_pos)
      then show ?thesis using 1 False by (simp add: bytesRequired_pos[of i])
    qed
  qed
qed

section \<open>The recursive encoding\<close>

datatype rlp_item = Data bytes | Items "rlp_item list"

text \<open>Both kinds of item have a one byte prefix below 56 payload bytes and a length in front of more.\<close>

definition size_prefix :: "nat \<Rightarrow> nat \<Rightarrow> bytes" where
  "size_prefix base s =
     (if s < 56 then [of_nat (base + s)] else of_nat (base + 55 + bytesRequired s) # be_bytes (bytesRequired s) s)"

fun encode :: "rlp_item \<Rightarrow> bytes" where
  "encode (Data bs) = (if length bs = 1 \<and> hd bs < 0x80 then bs else size_prefix 0x80 (length bs) @ bs)"
| "encode (Items ts) = (let body = concat (map encode ts) in size_prefix 0xc0 (length body) @ body)"

text \<open>The reader accepts payloads up to this size.\<close>

abbreviation max_payload :: nat where
  "max_payload \<equiv> 2 ^ 64 - 1 - 0x100"

lemma bytesRequired_payload:
  assumes "56 \<le> s" and "s < max_payload"
  shows "0 < bytesRequired s" and "bytesRequired s \<le> 8"
proof -
  show "0 < bytesRequired s" using assms(1) by (simp add: bytesRequired_pos)
  have "s < 256 ^ 8" using assms(2) by simp
  then show "bytesRequired s \<le> 8" by (rule bytesRequired_le)
qed

lemma long_length_prefix:
  assumes "56 \<le> s" and "s < max_payload"
  shows "rlp_long_length (bytesRequired s) (b # be_bytes (bytesRequired s) s @ rest) = Inr s"
proof -
  have "be_bytes (bytesRequired s) s \<noteq> []" "hd (be_bytes (bytesRequired s) s) \<noteq> 0"
    using hd_be_bytes[of s] assms(1) by auto
  then have "(be_bytes (bytesRequired s) s @ rest) ! 0 \<noteq> 0" by (cases "be_bytes (bytesRequired s) s") simp_all
  then show ?thesis
    using bytesRequired_payload[OF assms] assms
    by (simp add: rlp_long_length_def be_value_be_bytes bytesRequired_bound)
qed

lemmas byte_compare = word_less_nat_alt word_le_nat_alt word_unat_eq_iff

lemmas reader_defs = rlp_length_def requireGood_def payloadOffset_def lengthSize_def isSingleByte_def isData_def isList_def

lemma prefix_long:
  assumes "56 \<le> s" and "s < max_payload" and "base \<in> {0x80, 0xc0}"
  shows "rlp_length (size_prefix base s @ rest) = Inr s"
    and "payloadOffset (size_prefix base s @ rest) = length (size_prefix base s)"
    and "isData (size_prefix base s @ rest) \<longleftrightarrow> base = 0x80"
    and "isList (size_prefix base s @ rest) \<longleftrightarrow> base = 0xc0"
    and "\<not> isSingleByte (size_prefix base s @ rest)"
proof -
  define k where "k = bytesRequired s"
  have k: "0 < k" "k \<le> 8" using bytesRequired_payload[OF assms(1,2)] by (simp_all add: k_def)
  define b where "b = (of_nat (base + 55 + k) :: byte)"
  have p: "size_prefix base s @ rest = b # be_bytes k s @ rest" "length (size_prefix base s) = 1 + k"
    using assms(1) by (simp_all add: size_prefix_def k_def b_def)
  have "base + 55 + k < 256" using k assms(3) by auto
  then have u: "unat b = base + 55 + k" unfolding b_def by (simp only: unat_byte mod_less)
  note long = long_length_prefix[OF assms(1,2), folded k_def]
  show "rlp_length (size_prefix base s @ rest) = Inr s"
    unfolding p using long u k assms(3) by (auto simp: reader_defs byte_compare)
  show "payloadOffset (size_prefix base s @ rest) = length (size_prefix base s)"
    unfolding p using u k assms(3) by (auto simp: reader_defs byte_compare)
  show "isData (size_prefix base s @ rest) \<longleftrightarrow> base = 0x80" "isList (size_prefix base s @ rest) \<longleftrightarrow> base = 0xc0"
    "\<not> isSingleByte (size_prefix base s @ rest)"
    unfolding p using u k assms(3) by (auto simp: reader_defs byte_compare)
qed

lemma prefix_short:
  assumes "s < 56" and "base \<in> {0x80, 0xc0}"
    and "base = 0x80 \<and> s = 1 \<longrightarrow> rest \<noteq> [] \<and> \<not> hd rest < 0x80"
  shows "rlp_length (size_prefix base s @ rest) = Inr s"
    and "payloadOffset (size_prefix base s @ rest) = length (size_prefix base s)"
    and "isData (size_prefix base s @ rest) \<longleftrightarrow> base = 0x80"
    and "isList (size_prefix base s @ rest) \<longleftrightarrow> base = 0xc0"
    and "\<not> isSingleByte (size_prefix base s @ rest)"
proof -
  define b where "b = (of_nat (base + s) :: byte)"
  have p: "size_prefix base s @ rest = b # rest" "length (size_prefix base s) = 1"
    using assms(1) by (simp_all add: size_prefix_def b_def)
  have "base + s < 256" using assms(1,2) by auto
  then have u: "unat b = base + s" unfolding b_def by (simp only: unat_byte mod_less)
  have nth: "rest \<noteq> [] \<Longrightarrow> (b # rest) ! 1 = hd rest" by (simp add: hd_conv_nth)
  show "rlp_length (size_prefix base s @ rest) = Inr s"
    unfolding p using u nth assms by (auto simp: reader_defs byte_compare Suc_le_eq)
  show "payloadOffset (size_prefix base s @ rest) = length (size_prefix base s)"
    unfolding p using u assms(1,2) by (auto simp: reader_defs byte_compare)
  show "isData (size_prefix base s @ rest) \<longleftrightarrow> base = 0x80" "isList (size_prefix base s @ rest) \<longleftrightarrow> base = 0xc0"
    "\<not> isSingleByte (size_prefix base s @ rest)"
    unfolding p using u assms(1,2) by (auto simp: reader_defs byte_compare)
qed

section \<open>Reading an encoded item\<close>

fun body :: "rlp_item \<Rightarrow> bytes" where
  "body (Data bs) = bs"
| "body (Items ts) = concat (map encode ts)"

fun is_items :: "rlp_item \<Rightarrow> bool" where
  "is_items (Data bs) \<longleftrightarrow> False"
| "is_items (Items ts) \<longleftrightarrow> True"

definition fits :: "rlp_item \<Rightarrow> bool" where
  "fits t \<longleftrightarrow> length (encode t) < max_payload"

text \<open>A single byte below 128 is its own encoding; every other item is a prefix and its body.\<close>

lemma encode_cases:
  obtains (single) b where "t = Data [b]" "encode t = [b]" "b < 0x80"
  | (prefixed) base where "base \<in> {0x80, 0xc0}" "encode t = size_prefix base (length (body t)) @ body t"
      "base = 0xc0 \<longleftrightarrow> is_items t" "base = 0x80 \<and> length (body t) = 1 \<longrightarrow> body t \<noteq> [] \<and> \<not> hd (body t) < 0x80"
proof (cases t)
  case (Data bs)
  show ?thesis
  proof (cases "length bs = 1 \<and> hd bs < 0x80")
    case True
    then show ?thesis using Data single by (cases bs) auto
  next
    case False
    then show ?thesis using Data prefixed[of "0x80"] by (cases bs) auto
  qed
next
  case (Items ts)
  then show ?thesis using prefixed[of "0xc0"] by (simp add: Let_def)
qed

lemma size_prefix_nonempty: "size_prefix base s \<noteq> []"
  by (simp add: size_prefix_def)

lemma encode_nonempty [simp]: "encode t \<noteq> []"
  by (cases t rule: encode_cases) (simp_all add: size_prefix_nonempty)

lemma encode_read:
  assumes "fits t"
  shows "rlp_length (encode t @ rest) = Inr (length (body t))"
    and "payload (encode t @ rest) = Inr (body t)"
    and "actualSize (encode t @ rest) = Inr (length (encode t))"
    and "isList (encode t @ rest) \<longleftrightarrow> is_items t" and "isData (encode t @ rest) \<longleftrightarrow> \<not> is_items t"
proof -
  have "rlp_length (encode t @ rest) = Inr (length (body t))
    \<and> encode t = take (payloadOffset (encode t @ rest)) (encode t) @ body t
    \<and> payloadOffset (encode t @ rest) + length (body t) = length (encode t)
    \<and> (isSingleByte (encode t @ rest) \<longrightarrow> length (encode t) = 1)
    \<and> (isList (encode t @ rest) \<longleftrightarrow> is_items t) \<and> (isData (encode t @ rest) \<longleftrightarrow> \<not> is_items t)"
  proof (cases t rule: encode_cases)
    case (single b)
    then show ?thesis by (auto simp: reader_defs byte_compare)
  next
    case (prefixed base)
    have len: "length (body t) < max_payload"
      using assms prefixed(2) by (simp add: fits_def)
    have eq: "encode t @ rest = size_prefix base (length (body t)) @ body t @ rest"
      using prefixed(2) by simp
    show ?thesis
    proof (cases "length (body t) < 56")
      case True
      have "base = 0x80 \<and> length (body t) = 1 \<longrightarrow> body t @ rest \<noteq> [] \<and> \<not> hd (body t @ rest) < 0x80"
        using prefixed(4) by simp
      from prefix_short[OF True prefixed(1) this] show ?thesis
        unfolding eq using prefixed(1-3) by auto
    next
      case False
      then have "56 \<le> length (body t)" by simp
      from prefix_long[OF this len prefixed(1), of "body t @ rest"] show ?thesis
        unfolding eq using prefixed(1-3) by auto
    qed
  qed
  then have r: "rlp_length (encode t @ rest) = Inr (length (body t))"
    "encode t = take (payloadOffset (encode t @ rest)) (encode t) @ body t"
    "payloadOffset (encode t @ rest) + length (body t) = length (encode t)"
    "isSingleByte (encode t @ rest) \<longrightarrow> length (encode t) = 1"
    "isList (encode t @ rest) \<longleftrightarrow> is_items t" "isData (encode t @ rest) \<longleftrightarrow> \<not> is_items t" by blast+
  show "rlp_length (encode t @ rest) = Inr (length (body t))" "isList (encode t @ rest) \<longleftrightarrow> is_items t"
    "isData (encode t @ rest) \<longleftrightarrow> \<not> is_items t" using r by blast+
  have "drop (payloadOffset (encode t @ rest)) (encode t) = body t"
    by (metis r(2) append_eq_conv_conj append_take_drop_id same_append_eq)
  then have "cropped (encode t @ rest) (payloadOffset (encode t @ rest)) (length (body t)) = body t"
    using r(3) by (simp add: cropped_def)
  then show "payload (encode t @ rest) = Inr (body t)"
    using r(1,3) by (simp add: payload_def)
  show "actualSize (encode t @ rest) = Inr (length (encode t))"
    using r(1,3-6) by (auto simp: actualSize_def isNull_def)
qed

lemma sizeAsEncoded_encode: "fits t \<Longrightarrow> sizeAsEncoded (encode t @ rest) = Inr (length (encode t))"
  by (simp add: sizeAsEncoded_def RLP_def throw_if_small_def encode_read(3))

lemma RLP_encode: "fits t \<Longrightarrow> RLP (encode t) s = Inr (encode t)"
  using encode_read(3)[of t "[]"] by (simp add: RLP_def)

lemma encode_read_exact:
  assumes "fits t"
  shows "payload (encode t) = Inr (body t)" and "isList (encode t) \<longleftrightarrow> is_items t"
    and "isData (encode t) \<longleftrightarrow> \<not> is_items t"
  using encode_read[OF assms, of "[]"] by simp_all

lemma length_body: "length (body t) \<le> length (encode t)"
  by (cases t rule: encode_cases) simp_all

lemma fits_items:
  assumes "fits (Items ts)" and "t \<in> set ts"
  shows "fits t"
proof -
  have "length (encode t) \<le> length (concat (map encode ts))"
    using assms(2) by (induction ts) auto
  also have "\<dots> \<le> length (encode (Items ts))" using length_body[of "Items ts"] by simp
  finally show ?thesis using assms(1) by (simp add: fits_def)
qed

lemma count_items_encode:
  "(\<And>t. t \<in> set ts \<Longrightarrow> fits t) \<Longrightarrow> count_items (concat (map encode ts)) = Inr (length ts)"
proof (induction ts)
  case (Cons t ts)
  then show ?case by (subst count_items.simps) (simp add: sizeAsEncoded_encode)
qed (simp add: count_items.simps)

lemma itemCount_encode: "fits (Items ts) \<Longrightarrow> itemCount (encode (Items ts)) = Inr (length ts)"
  using encode_read_exact[of "Items ts"] count_items_encode fits_items
  by (simp add: itemCount_def items_def del: encode.simps)

section \<open>Indexing and iterating\<close>

text \<open>The reference: the encoding of the item, nothing behind the last one.\<close>

definition item_at :: "rlp_item list \<Rightarrow> nat \<Rightarrow> bytes" where
  "item_at ts i = (if i < length ts then encode (ts ! i) else [])"

definition items_end :: "rlp_item list \<Rightarrow> nat \<Rightarrow> nat" where
  "items_end ts i = length (concat (map encode (take (Suc i) ts)))"

text \<open>The cache of a view points behind the item it holds.\<close>

definition cache_at :: "rlp_item list \<Rightarrow> rlp_cache \<Rightarrow> bool" where
  "cache_at ts c \<longleftrightarrow> m_lastIndex c \<le> length ts \<and> m_lastEnd c = items_end ts (m_lastIndex c)
     \<and> m_lastItem c = item_at ts (m_lastIndex c)"

definition cache_ok :: "rlp_item list \<Rightarrow> rlp_cache \<Rightarrow> bool" where
  "cache_ok ts c \<longleftrightarrow> m_lastIndex c = 2 ^ 64 - 1 \<or> cache_at ts c"

lemma drop_items_end: "drop (items_end ts i) (concat (map encode ts)) = concat (map encode (drop (Suc i) ts))"
proof -
  have "concat (map encode ts) = concat (map encode (take (Suc i) ts)) @ concat (map encode (drop (Suc i) ts))"
    by (metis append_take_drop_id concat_append map_append)
  then show ?thesis by (simp add: items_end_def)
qed

lemma next_item:
  assumes "fits (Items ts)"
  shows "sizeAsEncoded (concat (map encode (drop i ts))) = Inr (length (item_at ts i))"
    and "cropped (concat (map encode (drop i ts))) 0 (length (item_at ts i)) = item_at ts i"
proof -
  have "sizeAsEncoded (concat (map encode (drop i ts))) = Inr (length (item_at ts i))
    \<and> cropped (concat (map encode (drop i ts))) 0 (length (item_at ts i)) = item_at ts i"
  proof (cases "i < length ts")
    case True
    then have "concat (map encode (drop i ts)) = encode (ts ! i) @ concat (map encode (drop (Suc i) ts))"
      by (simp add: Cons_nth_drop_Suc[symmetric])
    moreover have "fits (ts ! i)" using True by (intro fits_items[OF assms]) simp
    ultimately show ?thesis using True by (simp add: item_at_def sizeAsEncoded_encode cropped_def)
  qed (simp add: item_at_def cropped_def sizeAsEncoded_def RLP_def throw_if_small_def actualSize_def isNull_def)
  then show "sizeAsEncoded (concat (map encode (drop i ts))) = Inr (length (item_at ts i))"
    "cropped (concat (map encode (drop i ts))) 0 (length (item_at ts i)) = item_at ts i" by blast+
qed

lemma items_end_Suc: "i < length ts \<Longrightarrow> items_end ts (Suc i) = items_end ts i + length (item_at ts (Suc i))"
  by (cases "Suc i < length ts") (simp_all add: items_end_def item_at_def take_Suc_conv_app_nth)

lemma payload_items: "fits (Items ts) \<Longrightarrow> payload (encode (Items ts)) = Inr (concat (map encode ts))"
  using encode_read_exact(1)[of "Items ts"] by simp

lemma index_advance_spec:
  assumes "fits (Items ts)" and "cache_at ts c"
  shows "\<exists>c'. index_advance k (encode (Items ts)) c = Inr c' \<and> cache_at ts c'
    \<and> m_lastIndex c' = min (m_lastIndex c + k) (length ts)"
  using assms(2)
proof (induction k arbitrary: c)
  case 0
  then show ?case by (auto simp: cache_at_def)
next
  case (Suc k)
  show ?case
  proof (cases "m_lastIndex c < length ts")
    case True
    let ?c = "\<lparr>m_lastIndex = m_lastIndex c + 1, m_lastEnd = m_lastEnd c + length (item_at ts (Suc (m_lastIndex c))),
      m_lastItem = item_at ts (Suc (m_lastIndex c))\<rparr>"
    have "cache_at ts ?c" using Suc.prems True by (simp add: cache_at_def items_end_Suc)
    moreover have "m_lastItem c \<noteq> []" using Suc.prems True by (simp add: cache_at_def item_at_def)
    moreover have "drop (m_lastEnd c) (concat (map encode ts)) = concat (map encode (drop (Suc (m_lastIndex c)) ts))"
      using Suc.prems drop_items_end by (simp add: cache_at_def)
    ultimately show ?thesis
      using Suc.IH[of ?c] payload_items[OF assms(1)] next_item[OF assms(1), of "Suc (m_lastIndex c)"]
      by (simp add: Let_def del: encode.simps)
  next
    case False
    then have "m_lastItem c = []" "m_lastIndex c = length ts"
      using Suc.prems by (simp_all add: cache_at_def item_at_def)
    then show ?thesis using Suc.prems by simp
  qed
qed

lemma index_restart_spec:
  assumes "fits (Items ts)"
  shows "\<exists>c. index_restart (encode (Items ts)) = Inr c \<and> cache_at ts c \<and> m_lastIndex c = 0"
proof -
  have "items_end ts 0 = length (item_at ts 0)" by (cases ts) (simp_all add: items_end_def item_at_def)
  then show ?thesis
    using next_item[OF assms, of 0] payload_items[OF assms]
    by (simp add: index_restart_def cache_at_def del: encode.simps)
qed

lemma RLP_item_at: "fits (Items ts) \<Longrightarrow> RLP (item_at ts i) s = Inr (item_at ts i)"
proof (cases "i < length ts")
  case True
  moreover assume "fits (Items ts)"
  ultimately show ?thesis by (simp add: item_at_def RLP_encode fits_items)
qed (simp add: item_at_def RLP_def actualSize_def isNull_def)

lemma rlp_index_step:
  assumes "fits (Items ts)" and "cache_ok ts c" and "i < 2 ^ 64 - 1"
  shows "\<exists>c'. rlp_index (encode (Items ts)) i c = Inr (item_at ts i, c') \<and> cache_ok ts c'"
proof -
  obtain c1 where c1: "(if i < m_lastIndex c then index_restart (encode (Items ts)) else Inr c) = Inr c1"
    and at: "cache_at ts c1" and le: "m_lastIndex c1 \<le> i"
  proof (cases "i < m_lastIndex c")
    case True
    then show ?thesis using that index_restart_spec[OF assms(1)] by auto
  next
    case False
    then have "cache_at ts c" using assms(2,3) by (auto simp: cache_ok_def)
    then show ?thesis using that[of c] False by simp
  qed
  obtain c2 where c2: "index_advance (i - m_lastIndex c1) (encode (Items ts)) c1 = Inr c2"
    "cache_at ts c2" "m_lastIndex c2 = min i (length ts)"
    using index_advance_spec[OF assms(1) at, of "i - m_lastIndex c1"] le by auto
  then have "m_lastItem c2 = item_at ts i" by (auto simp: cache_at_def item_at_def min_def)
  then show ?thesis
    using c1 c2 RLP_item_at[OF assms(1)] by (simp add: rlp_index_def cache_ok_def del: encode.simps)
qed

text \<open>An iterator stands in front of the items that remain.\<close>

definition iter_at :: "rlp_item list \<Rightarrow> nat \<Rightarrow> rlp_iterator" where
  "iter_at ts i = (item_at ts i, concat (map encode (drop (Suc i) ts)))"

lemma iter_begin_encode:
  assumes "fits (Items ts)"
  shows "iter_begin (encode (Items ts)) = Inr (iter_at ts 0)"
proof -
  have "drop (length (item_at ts 0)) (concat (map encode ts)) = concat (map encode (drop (Suc 0) ts))"
    by (cases ts) (simp_all add: item_at_def)
  then show ?thesis
    using encode_read_exact[OF assms] next_item[OF assms, of 0]
    by (simp add: iter_begin_def iter_at_def del: encode.simps)
qed

lemma iter_next_encode:
  assumes "fits (Items ts)" and "i < length ts"
  shows "iter_next (iter_at ts i) = Inr (iter_at ts (Suc i))"
proof (cases "Suc i < length ts")
  case True
  then have rest: "concat (map encode (drop (Suc i) ts)) = item_at ts (Suc i) @ concat (map encode (drop (Suc (Suc i)) ts))"
    by (simp add: Cons_nth_drop_Suc[symmetric] item_at_def)
  then have "concat (map encode (drop (Suc i) ts)) \<noteq> []"
    using True by (simp add: item_at_def)
  then show ?thesis
    using next_item[OF assms(1), of "Suc i"] rest by (simp add: iter_next_def iter_at_def)
qed (use assms(2) in \<open>simp add: iter_next_def iter_at_def item_at_def\<close>)

lemma iter_at_end: "i \<le> length ts \<Longrightarrow> iter_at ts i = iter_end \<longleftrightarrow> i = length ts"
  by (auto simp: iter_at_def iter_end_def item_at_def)

lemma iter_deref_encode: "fits (Items ts) \<Longrightarrow> i < length ts \<Longrightarrow> iter_deref (iter_at ts i) = Inr (encode (ts ! i))"
  by (simp add: iter_deref_def iter_at_def RLP_item_at) (simp add: item_at_def)

section \<open>Writing\<close>

text \<open>A tree written item by item through the stream: a list is announced with its number of items.\<close>

fun write_item :: "rlp_item \<Rightarrow> rlp_stream \<Rightarrow> rlp_stream rlp_result"
and write_items :: "rlp_item list \<Rightarrow> rlp_stream \<Rightarrow> rlp_stream rlp_result" where
  "write_item (Data bs) r = append_bytes bs False r"
| "write_item (Items ts) r = (case appendList (length ts) r of Inl e \<Rightarrow> Inl e | Inr r' \<Rightarrow> write_items ts r')"
| "write_items [] r = Inr r"
| "write_items (t # ts) r = (case write_item t r of Inl e \<Rightarrow> Inl e | Inr r' \<Rightarrow> write_items ts r')"

definition appended :: "rlp_item \<Rightarrow> rlp_stream \<Rightarrow> rlp_stream rlp_result" where
  "appended t r = noteAppended 1 (r\<lparr>m_out := m_out r @ encode t\<rparr>)"

lemma pushCount_prefix:
  assumes "56 \<le> s" and "s < max_payload" and "base \<in> {0xb7, 0xf7}"
  shows "pushCount s base r = Inr (r\<lparr>m_out := m_out r @ size_prefix (base - 55) s\<rparr>)"
  using bytesRequired_payload[OF assms(1,2)] assms(1,3)
  by (auto simp: pushCount_def pushInt_def size_prefix_def Let_def add.commute)

lemma append_bytes_appended: "fits (Data bs) \<Longrightarrow> append_bytes bs False r = appended (Data bs) r"
proof (cases "length bs = 1 \<and> hd bs < 0x80")
  case False
  assume "fits (Data bs)"
  then have len: "length bs < max_payload" using length_body[of "Data bs"] by (simp add: fits_def)
  show ?thesis
  proof (cases "length bs < 56")
    case True
    then show ?thesis using False
      by (auto simp: append_bytes_def appended_def appendRaw_def noteAppended_def[of 0] size_prefix_def add.commute)
  next
    case long: False
    then show ?thesis using False pushCount_prefix[of "length bs" "0xb7" r] len
      by (auto simp: append_bytes_def appended_def appendRaw_def noteAppended_def[of 0])
  qed
qed (simp add: append_bytes_def appended_def)

lemma list_prefix_size: "s < max_payload \<Longrightarrow> list_prefix s = Inr (size_prefix 0xc0 s)"
  using bytesRequired_payload[of s] by (cases "s < 56") (auto simp: list_prefix_def size_prefix_def)

lemma appendList_0: "appendList 0 r = appended (Items []) r"
  by (simp add: appendList_def appendListRaw_def appendRaw_def appended_def size_prefix_def)

text \<open>Writing the missing items of the innermost list closes it.\<close>

lemma write_items_close:
  assumes "\<And>t r. t \<in> set ts \<Longrightarrow> write_item t r = appended t r" and "ts \<noteq> []"
    and "m_listStack r = (length ts, p) # st" and "p \<le> length (m_out r)"
    and "length (drop p (m_out r) @ concat (map encode ts)) < max_payload"
  shows "write_items ts r = noteAppended 1 (r\<lparr>m_listStack := st,
    m_out := take p (m_out r) @ size_prefix 0xc0 (length (drop p (m_out r) @ concat (map encode ts)))
      @ drop p (m_out r) @ concat (map encode ts)\<rparr>)"
  using assms
proof (induction ts arbitrary: r)
  case (Cons t ts)
  show ?case
  proof (cases "ts = []")
    case True
    have "list_prefix (length (m_out r @ encode t) - p) = Inr (size_prefix 0xc0 (length (m_out r @ encode t) - p))"
      using Cons.prems(4,5) True by (intro list_prefix_size) simp
    then show ?thesis
      using Cons.prems(1,3,4) True by (auto simp: appended_def noteAppended_def split: sum.splits prod.splits)
  next
    case False
    let ?r = "r\<lparr>m_out := m_out r @ encode t, m_listStack := (length ts, p) # st\<rparr>"
    have "write_item t r = Inr ?r"
      using Cons.prems(1,3) False by (simp add: appended_def noteAppended_def)
    moreover have "write_items ts ?r = noteAppended 1 (?r\<lparr>m_listStack := st,
        m_out := take p (m_out ?r) @ size_prefix 0xc0 (length (drop p (m_out ?r) @ concat (map encode ts)))
          @ drop p (m_out ?r) @ concat (map encode ts)\<rparr>)"
      by (rule Cons.IH) (use Cons.prems False in simp_all)
    ultimately show ?thesis using Cons.prems(4) by simp
  qed
qed simp

lemma write_item_appended: "fits t \<Longrightarrow> write_item t r = appended t r"
proof (induction t arbitrary: r)
  case (Data bs)
  then show ?case by (simp add: append_bytes_appended del: encode.simps)
next
  case (Items ts)
  have sub: "write_item t r = appended t r" if "t \<in> set ts" for t r
    using Items.IH[OF that] fits_items[OF Items.prems that] by simp
  show ?case
  proof (cases "ts = []")
    case False
    let ?r = "r\<lparr>m_listStack := (length ts, length (m_out r)) # m_listStack r\<rparr>"
    have len: "length (concat (map encode ts)) < max_payload"
      using length_body[of "Items ts"] Items.prems by (simp add: fits_def del: encode.simps)
    have "write_items ts ?r = noteAppended 1 (?r\<lparr>m_listStack := m_listStack r,
        m_out := take (length (m_out r)) (m_out ?r) @ size_prefix 0xc0 (length (drop (length (m_out r)) (m_out ?r) @ concat (map encode ts)))
          @ drop (length (m_out r)) (m_out ?r) @ concat (map encode ts)\<rparr>)"
      by (rule write_items_close) (use sub False len in simp_all)
    then show ?thesis using False by (simp add: appendList_def appended_def Let_def)
  qed (simp add: appendList_0 del: encode.simps split: sum.split)
qed

section \<open>Conversions of encoded items\<close>

definition int_item :: "nat \<Rightarrow> rlp_item" where
  "int_item i = Data (be_bytes (bytesRequired i) i)"

definition hash_item :: "'a::len word \<Rightarrow> rlp_item" where
  "hash_item h = Data (be_bytes (LENGTH('a) div 8) (unat h))"

lemma toBytes_encode: "fits (Data bs) \<Longrightarrow> toBytes s (encode (Data bs)) = Inr bs"
  using encode_read_exact[of "Data bs"] by (simp add: toBytes_def del: encode.simps)

lemma bytesRequired_1: "0 < i \<Longrightarrow> i < 256 \<Longrightarrow> bytesRequired i = 1"
  by (simp add: bytesRequired_pos)

lemma bytesRequired_gt1: "256 \<le> i \<Longrightarrow> 1 < bytesRequired i"
  by (simp add: bytesRequired_pos)

text \<open>An integer is written as the bytes of its shortest big endian form.\<close>

lemma append_int_appended:
  assumes "i < 2 ^ 256"
  shows "append_int i r = appended (int_item i) r"
proof -
  have br: "bytesRequired i \<le> 32" using bytesRequired_le[of i 32] assms by simp
  consider "i = 0" | "0 < i" "i < 0x80" | "0x80 \<le> i" by linarith
  then show ?thesis
  proof cases
    case 1
    then show ?thesis by (simp add: append_int_def appended_def int_item_def size_prefix_def)
  next
    case 2
    then have "(of_nat i :: byte) < 0x80" by (simp add: byte_compare)
    then show ?thesis using 2 by (simp add: append_int_def appended_def int_item_def bytesRequired_1)
  next
    case 3
    then have "\<not> (length (be_bytes (bytesRequired i) i) = 1 \<and> hd (be_bytes (bytesRequired i) i) < 0x80)"
    proof (cases "i < 256")
      case True
      then have "\<not> (of_nat i :: byte) < 0x80" using 3 by (simp add: byte_compare)
      then show ?thesis using 3 True by (simp add: bytesRequired_1)
    next
      case False
      then show ?thesis using bytesRequired_gt1[of i] by simp
    qed
    then show ?thesis
      using 3 br by (auto simp: append_int_def appended_def int_item_def size_prefix_def pushInt_def Let_def add.commute)
  qed
qed

lemma length_encode_short:
  assumes "length bs \<le> 200"
  shows "fits (Data bs)"
proof -
  have "bytesRequired (length bs) \<le> 1" using assms by (intro bytesRequired_le) simp
  then show ?thesis using assms by (simp add: fits_def size_prefix_def)
qed

lemma encode_data_hd:
  assumes "fits (Data bs)"
  shows "requireGood (encode (Data bs)) = Inr ()"
    and "bs \<noteq> [] \<Longrightarrow> hd bs \<noteq> 0 \<Longrightarrow> length bs < 56 \<Longrightarrow> isInt (encode (Data bs)) = Inr True"
proof -
  have "rlp_length (encode (Data bs)) = Inr (length bs)" using encode_read(1)[OF assms, of "[]"] by simp
  then show good: "requireGood (encode (Data bs)) = Inr ()"
    by (simp add: rlp_length_def del: encode.simps split: sum.splits)
  assume ne: "bs \<noteq> []" "hd bs \<noteq> 0" "length bs < 56"
  show "isInt (encode (Data bs)) = Inr True"
  proof (cases "length bs = 1 \<and> hd bs < 0x80")
    case True
    then obtain b where b: "bs = [b]" by (cases bs) auto
    then show ?thesis using True ne good by (simp add: isInt_def byte_compare)
  next
    case False
    then have e: "encode (Data bs) = of_nat (0x80 + length bs) # bs"
      using ne by (simp add: size_prefix_def)
    define b where "b = (of_nat (0x80 + length bs) :: byte)"
    have u: "unat b = 0x80 + length bs"
      using ne(3) unfolding b_def by (simp only: unat_byte) simp
    have "0 < length bs" using ne(1) by simp
    moreover have "(b # bs) ! 1 \<noteq> 0" using ne by (simp add: hd_conv_nth)
    ultimately show ?thesis
      using good u ne(3) unfolding e b_def[symmetric] by (simp add: isInt_def Let_def)
  qed
qed

lemma toInt_encode:
  fixes w :: "'a::len word"
  assumes "LENGTH('a) mod 8 = 0" and "LENGTH('a) \<le> 256"
  shows "toInt s (encode (int_item (unat w))) = Inr w"
proof -
  let ?i = "unat w" and ?n = "LENGTH('a) div 8"
  have n: "(256::nat) ^ ?n = 2 ^ LENGTH('a)"
  proof -
    have "(256::nat) ^ ?n = (2 ^ 8) ^ ?n" by simp
    also have "\<dots> = 2 ^ (8 * ?n)" by (simp only: power_mult)
    also have "8 * ?n = LENGTH('a)" using assms(1) by auto
    finally show ?thesis .
  qed
  then have br: "bytesRequired ?i \<le> ?n"
    by (intro bytesRequired_le) (simp add: unsigned_less)
  have fits: "fits (Data (be_bytes (bytesRequired ?i) ?i))"
    using br assms(2) by (intro length_encode_short) simp
  have "isInt (encode (Data (be_bytes (bytesRequired ?i) ?i))) = Inr True"
  proof (cases "?i = 0")
    case True
    then show ?thesis by (simp add: size_prefix_def isInt_def requireGood_def)
  next
    case False
    then show ?thesis
      using encode_data_hd(2)[OF fits] hd_be_bytes[of ?i] br assms(2) by simp
  qed
  moreover have "fromBigEndian (be_bytes (bytesRequired ?i) ?i) = w"
    by (simp add: fromBigEndian_value be_value_be_bytes bytesRequired_bound)
  ultimately show ?thesis
    using encode_data_hd(1)[OF fits] encode_read_exact[OF fits] br
    by (simp add: toInt_def int_item_def isNull_def del: encode.simps)
qed

lemma toHash_encode:
  fixes w :: "'a::len word"
  assumes "LENGTH('a) mod 8 = 0" and "LENGTH('a) \<le> 1600"
  shows "toHash s (encode (hash_item w)) = Inr w"
proof -
  let ?n = "LENGTH('a) div 8"
  have "(256::nat) ^ ?n = (2 ^ 8) ^ ?n" by simp
  also have "\<dots> = 2 ^ (8 * ?n)" by (simp only: power_mult)
  also have "8 * ?n = LENGTH('a)" using assms(1) by auto
  finally have "unat w < 256 ^ ?n" by (simp add: unsigned_less)
  then have "fromBigEndian (be_bytes ?n (unat w)) = w"
    by (simp add: fromBigEndian_value be_value_be_bytes)
  moreover have fits: "fits (Data (be_bytes ?n (unat w)))"
    using assms(2) by (intro length_encode_short) simp
  ultimately show ?thesis
    using encode_data_hd(1)[OF fits] encode_read_exact[OF fits]
    by (simp add: toHash_def hash_item_def del: encode.simps)
qed

section \<open>Properties\<close>

text \<open>C35: Writing any tree of items through an RLPStream succeeds and leaves its recursive encoding, as long as the encoding is smaller than
  the greatest size the reader accepts; the reader accepts exactly these bytes in its strictest mode and gives back the bytes of
  a data item, and the number and the encodings of the items of a list.\<close>

theorem rlp_roundtrip:
  assumes "fits t"
  shows "\<exists>r. write_item t stream_new = Inr r \<and> stream_out r = Inr (encode t)
    \<and> RLP (encode t) VeryStrict = Inr (encode t)
    \<and> (case t of
         Data bs \<Rightarrow> isData (encode t) \<and> toBytes VeryStrict (encode t) = Inr bs
       | Items ts \<Rightarrow> isList (encode t) \<and> itemCount (encode t) = Inr (length ts)
           \<and> payload (encode t) = Inr (concat (map encode ts)))"
proof -
  have "write_item t stream_new = Inr \<lparr>m_out = encode t, m_listStack = []\<rparr>"
    using write_item_appended[OF assms] by (simp add: appended_def noteAppended_def stream_new_def)
  then show ?thesis
    using RLP_encode[OF assms] encode_read_exact[OF assms] assms
    by (cases t) (simp_all add: stream_out_def toBytes_encode itemCount_encode del: encode.simps)
qed

theorem rlp_roundtrip_witness:
  "fits (Items [Data [1], Data [200, 0]])
   \<and> (\<exists>r. write_item (Items [Data [1], Data [200, 0]]) stream_new = Inr r
        \<and> stream_out r = Inr [0xc4, 1, 0x82, 200, 0])
   \<and> itemCount [0xc4, 1, 0x82, 200, 0] = Inr 2"
proof -
  have fits: "fits (Items [Data [1], Data [200, 0]])" by (simp add: fits_def size_prefix_def)
  have enc: "encode (Items [Data [1], Data [200, 0]]) = [0xc4, 1, 0x82, 200, 0]" by (simp add: size_prefix_def)
  show ?thesis using rlp_roundtrip[OF fits, unfolded enc] fits by auto
qed

text \<open>A client that indexes one view several times.\<close>

fun index_run :: "bytes \<Rightarrow> nat list \<Rightarrow> rlp_cache \<Rightarrow> bytes list rlp_result" where
  "index_run d [] c = Inr []"
| "index_run d (i # is) c =
     rlp_bind (rlp_index d i c) (\<lambda>(x, c'). rlp_bind (index_run d is c') (\<lambda>xs. Inr (x # xs)))"

lemma index_run_from:
  assumes "fits (Items ts)" and "cache_ok ts c" and "\<forall>i \<in> set is. i < 2 ^ 64 - 1"
  shows "index_run (encode (Items ts)) is c = Inr (map (item_at ts) is)"
  using assms(2,3)
proof (induction "is" arbitrary: c)
  case (Cons i "is")
  then obtain c' where c': "rlp_index (encode (Items ts)) i c = Inr (item_at ts i, c')" "cache_ok ts c'"
    using rlp_index_step[OF assms(1), of c i] by auto
  have "index_run (encode (Items ts)) is c' = Inr (map (item_at ts) is)"
    using Cons.prems(2) by (intro Cons.IH[OF c'(2)]) simp
  with c'(1) show ?case by (simp del: encode.simps)
qed simp

text \<open>The subscript operator keeps its position between calls; whatever sequence of indices a client asks for, ascending or
  not and also behind the end of the list, every call returns what a search from the start would: the encoding of the item,
  and the null view behind the last one.\<close>

theorem rlp_index_any_order:
  assumes "fits (Items ts)" and "\<forall>i \<in> set is. i < 2 ^ 64 - 1"
  shows "index_run (encode (Items ts)) is cache_init = Inr (map (item_at ts) is)"
  by (rule index_run_from[OF assms(1) _ assms(2)]) (simp add: cache_ok_def cache_init_def)

theorem rlp_index_any_order_witness:
  "index_run [0xc4, 1, 0x82, 200, 0] [1, 0, 5, 1] cache_init = Inr [[0x82, 200, 0], [1], [], [0x82, 200, 0]]"
proof -
  have fits: "fits (Items [Data [1], Data [200, 0]])" by (simp add: fits_def size_prefix_def)
  have enc: "encode (Items [Data [1], Data [200, 0]]) = [0xc4, 1, 0x82, 200, 0]" by (simp add: size_prefix_def)
  show ?thesis
    using rlp_index_any_order[OF fits, of "[1, 0, 5, 1]", unfolded enc] by (simp add: item_at_def size_prefix_def)
qed

end
