(* ===== verification/Rlp_Codec.thy ===== *)
theory Rlp_Codec
  imports Rlp_Props
begin

text \<open>
  The typed encoders and decoders of \<open>common/include/common/encoding_rlp.hpp\<close>. A type's pair of functions
  is a \<open>rlp_codec\<close>: what the encoder writes is an item, and the decoder reads the value back from it. The templates
  for sequences and optional values turn codecs into codecs; \<open>rlp_tuple\<close> writes the members of a class as one list and
  reads them back one by one, as updates of the object.
\<close>

type_synonym stream_action = "rlp_stream \<Rightarrow> rlp_stream rlp_result"
type_synonym 'a encoder = "'a \<Rightarrow> stream_action"
type_synonym 'a decoder = "strictness \<Rightarrow> bytes \<Rightarrow> 'a rlp_result"
type_synonym 'r setter = "strictness \<Rightarrow> bytes \<Rightarrow> 'r \<Rightarrow> 'r rlp_result"

section \<open>Encoders\<close>

definition put_int :: "'a::len word encoder" where
  "put_int target = append_int (unat target)"

definition put_hash :: "'a::len word encoder" where
  "put_hash target = append_hash target"

definition put_bytes :: "bytes encoder" where
  "put_bytes target = append_bytes target False"

definition put_optional :: "'a encoder \<Rightarrow> 'a option encoder" where
  "put_optional put target = (case target of Some v \<Rightarrow> put v | None \<Rightarrow> append_int 0)"

fun put_all :: "stream_action list \<Rightarrow> stream_action" where
  "put_all [] r = Inr r"
| "put_all (p # ps) r = (case p r of Inl e \<Rightarrow> Inl e | Inr r' \<Rightarrow> put_all ps r')"

definition put_seq :: "'a encoder \<Rightarrow> 'a list encoder" where
  "put_seq put target r =
     (case appendList (length target) r of Inl e \<Rightarrow> Inl e | Inr r' \<Rightarrow> put_all (map put target) r')"

definition put_tuple :: "stream_action list \<Rightarrow> stream_action" where
  "put_tuple args r =
     (case appendList (length args) r of Inl e \<Rightarrow> Inl e | Inr r' \<Rightarrow> put_all args r')"

definition rlp_enc :: "stream_action \<Rightarrow> bytes rlp_result" where
  "rlp_enc put = (case put stream_new of Inl e \<Rightarrow> Inl e | Inr r \<Rightarrow> stream_out r)"

section \<open>Decoders\<close>

definition get_optional :: "'a decoder \<Rightarrow> 'a option decoder" where
  "get_optional get s d =
     (if isNull d \<or> isEmpty d then Inr None
      else case get s d of Inl e \<Rightarrow> Inl e | Inr v \<Rightarrow> Inr (Some v))"

lemma iter_next_decreases:
  assumes "iter_next it = Inr it'" and "it \<noteq> iter_end"
  shows "2 * length (snd it') + length (fst it') < 2 * length (snd it) + length (fst it)"
proof (cases it)
  case (Pair cur remaining)
  show ?thesis
  proof (cases "remaining = []")
    case False
    then obtain n where n: "sizeAsEncoded remaining = Inr n"
      "it' = (cropped remaining 0 n, drop (length (cropped remaining 0 n)) remaining)"
      using assms(1) Pair by (auto simp: iter_next_def split: sum.splits)
    then show ?thesis using sizeAsEncoded_pos[OF n(1) False] Pair by (simp add: cropped_def)
  qed (use assms Pair in \<open>auto simp: iter_next_def iter_end_def\<close>)
qed

text \<open>The range-based loop over a list: every item is appended to the target.\<close>

function get_each :: "'a decoder \<Rightarrow> strictness \<Rightarrow> rlp_iterator \<Rightarrow> 'a list \<Rightarrow> 'a list rlp_result" where
  "get_each get s it target =
     (if it = iter_end then Inr target
      else case iter_deref it of Inl e \<Rightarrow> Inl e
        | Inr d \<Rightarrow> (case get s d of Inl e \<Rightarrow> Inl e
          | Inr v \<Rightarrow> (case iter_next it of Inl e \<Rightarrow> Inl e
            | Inr it' \<Rightarrow> get_each get s it' (target @ [v]))))"
  by pat_completeness auto
termination
  by (relation "measure (\<lambda>(get, s, it, target). 2 * length (snd it) + length (fst it))")
    (auto dest: iter_next_decreases)

declare get_each.simps [simp del]

definition get_seq :: "'a decoder \<Rightarrow> 'a list decoder" where
  "get_seq get s d = (case iter_begin d of Inl e \<Rightarrow> Inl e | Inr it \<Rightarrow> get_each get s it [])"

definition field :: "'a decoder \<Rightarrow> ('a \<Rightarrow> 'r \<Rightarrow> 'r) \<Rightarrow> 'r setter" where
  "field get upd s d r = (case get s d of Inl e \<Rightarrow> Inl e | Inr v \<Rightarrow> Inr (upd v r))"

fun tuple_body :: "'r setter list \<Rightarrow> strictness \<Rightarrow> rlp_iterator \<Rightarrow> 'r \<Rightarrow> 'r rlp_result" where
  "tuple_body [] s it r = Inr r"
| "tuple_body (g # gs) s it r =
     (if it = iter_end then Inr r
      else case iter_deref it of Inl e \<Rightarrow> Inl e
        | Inr d \<Rightarrow> (case g s d r of Inl e \<Rightarrow> Inl e
          | Inr r' \<Rightarrow>
              if gs = [] then Inr r'
              else (case iter_next it of Inl e \<Rightarrow> Inl e | Inr it' \<Rightarrow> tuple_body gs s it' r')))"

definition get_tuple :: "'r setter list \<Rightarrow> 'r \<Rightarrow> 'r decoder" where
  "get_tuple args r s d =
     (case itemCount d of Inl e \<Rightarrow> Inl e
      | Inr n \<Rightarrow>
          if n \<noteq> length args then Inl InvalidEncodingSize
          else (case iter_begin d of Inl e \<Rightarrow> Inl e | Inr it \<Rightarrow> tuple_body args s it r))"

section \<open>Reading and writing trees\<close>

lemma write_items_put_all:
  assumes "list_all2 (\<lambda>p t. \<forall>r. p r = write_item t r) ps ts"
  shows "put_all ps r = write_items ts r"
  using assms by (induction ps ts arbitrary: r rule: list_all2_induct) (simp_all split: sum.split)

lemma put_tuple_item:
  assumes "list_all2 (\<lambda>p t. \<forall>r. p r = write_item t r) ps ts"
  shows "put_tuple ps r = write_item (Items ts) r"
  using list_all2_lengthD[OF assms] write_items_put_all[OF assms] by (simp add: put_tuple_def split: sum.split)

lemma rlp_enc_item:
  assumes "\<And>r. put r = write_item t r" and "fits t"
  shows "rlp_enc put = Inr (encode t)"
  by (simp add: rlp_enc_def assms write_item_appended appended_def noteAppended_def stream_new_def stream_out_def)

lemma get_each_items:
  assumes "fits (Items ts)" and "\<And>j. j < length ts \<Longrightarrow> get s (encode (ts ! j)) = Inr (xs ! j)"
    and "length xs = length ts" and "i \<le> length ts"
  shows "get_each get s (iter_at ts i) target = Inr (target @ drop i xs)"
  using assms(4)
proof (induction "length ts - i" arbitrary: i target)
  case 0
  then show ?case using iter_at_end[of i ts] assms(3) by (simp add: get_each.simps)
next
  case (Suc n)
  then have i: "i < length ts" by simp
  then have "get_each get s (iter_at ts i) target = get_each get s (iter_at ts (Suc i)) (target @ [xs ! i])"
    using iter_at_end[of i ts] iter_deref_encode[OF assms(1) i] iter_next_encode[OF assms(1) i] assms(2)[OF i]
    by (subst get_each.simps) simp
  also have "\<dots> = Inr ((target @ [xs ! i]) @ drop (Suc i) xs)"
    using Suc.hyps(2) i by (intro Suc.hyps(1)) simp_all
  finally show ?case using i assms(3) by (simp add: Cons_nth_drop_Suc)
qed

lemma get_seq_items:
  assumes "fits (Items ts)" and "\<And>j. j < length ts \<Longrightarrow> get s (encode (ts ! j)) = Inr (xs ! j)"
    and "length xs = length ts"
  shows "get_seq get s (encode (Items ts)) = Inr xs"
proof -
  have "get_each get s (iter_at ts 0) [] = Inr ([] @ drop 0 xs)"
    by (rule get_each_items) (use assms in simp_all)
  then show ?thesis using iter_begin_encode[OF assms(1)] by (simp add: get_seq_def del: encode.simps)
qed

text \<open>A member is read from its item as an update of the object.\<close>

definition reads :: "'r setter \<Rightarrow> strictness \<Rightarrow> rlp_item \<Rightarrow> ('r \<Rightarrow> 'r) \<Rightarrow> bool" where
  "reads g s t u \<longleftrightarrow> (\<forall>r. g s (encode t) r = Inr (u r))"

lemma tuple_body_items:
  assumes "fits (Items ts)" and "i + length gs = length ts" and "length us = length gs"
    and "\<And>j. j < length gs \<Longrightarrow> reads (gs ! j) s (ts ! (i + j)) (us ! j)"
  shows "tuple_body gs s (iter_at ts i) r = Inr (fold (\<lambda>u. u) us r)"
  using assms(2-4)
proof (induction gs arbitrary: i us r)
  case (Cons g gs)
  then have i: "i < length ts" by simp
  obtain u us' where us: "us = u # us'" using Cons.prems(2) by (cases us) auto
  have g: "g s (encode (ts ! i)) r = Inr (u r)" for r
    using Cons.prems(3)[of 0] us by (simp add: reads_def)
  show ?case
  proof (cases "gs = []")
    case True
    then show ?thesis
      using iter_at_end[of i ts] i iter_deref_encode[OF assms(1) i] g us Cons.prems(2) by simp
  next
    case False
    have "tuple_body gs s (iter_at ts (Suc i)) (u r) = Inr (fold (\<lambda>u. u) us' (u r))"
    proof (rule Cons.IH)
      fix j assume "j < length gs"
      then show "reads (gs ! j) s (ts ! (Suc i + j)) (us' ! j)" using Cons.prems(3)[of "Suc j"] us by simp
    qed (use Cons.prems us in simp_all)
    then show ?thesis
      using iter_at_end[of i ts] i iter_deref_encode[OF assms(1) i] iter_next_encode[OF assms(1) i] g us False by simp
  qed
qed simp

lemma get_tuple_items:
  assumes "fits (Items ts)" and "length gs = length ts" and "length us = length ts"
    and "\<And>j. j < length ts \<Longrightarrow> reads (gs ! j) s (ts ! j) (us ! j)"
  shows "get_tuple gs r s (encode (Items ts)) = Inr (fold (\<lambda>u. u) us r)"
  using tuple_body_items[OF assms(1), of 0 gs us s r] assms(2-4) itemCount_encode[OF assms(1)]
    iter_begin_encode[OF assms(1)] by (simp add: get_tuple_def del: encode.simps)

fun reads_all :: "'r setter list \<Rightarrow> strictness \<Rightarrow> rlp_item list \<Rightarrow> ('r \<Rightarrow> 'r) list \<Rightarrow> bool" where
  "reads_all [] s [] [] \<longleftrightarrow> True"
| "reads_all (g # gs) s (t # ts) (u # us) \<longleftrightarrow> reads g s t u \<and> reads_all gs s ts us"
| "reads_all _ s _ _ \<longleftrightarrow> False"

lemma reads_all_nth:
  "reads_all gs s ts us \<Longrightarrow> length gs = length ts \<and> length us = length ts
    \<and> (\<forall>j < length ts. reads (gs ! j) s (ts ! j) (us ! j))"
  by (induction gs s ts us rule: reads_all.induct) (auto simp: nth_Cons split: nat.split)

lemma get_tuple_reads:
  assumes "fits (Items ts)" and "reads_all gs s ts us"
  shows "get_tuple gs r s (encode (Items ts)) = Inr (fold (\<lambda>u. u) us r)"
  using reads_all_nth[OF assms(2)] by (intro get_tuple_items[OF assms(1)]) auto

section \<open>The contract of a codec\<close>

locale rlp_codec =
  fixes to_item :: "'a \<Rightarrow> rlp_item"
    and put :: "'a encoder"
    and get :: "'a decoder"
    and ok :: "'a \<Rightarrow> bool"
  assumes put_item: "ok x \<Longrightarrow> fits (to_item x) \<Longrightarrow> put x r = write_item (to_item x) r"
    and get_item: "ok x \<Longrightarrow> fits (to_item x) \<Longrightarrow> get s (encode (to_item x)) = Inr x"
begin

lemma roundtrip:
  assumes "ok x" and "fits (to_item x)"
  shows "rlp_enc (put x) = Inr (encode (to_item x))" and "get s (encode (to_item x)) = Inr x"
  using rlp_enc_item[of "put x", OF put_item[OF assms] assms(2)] get_item[OF assms] by simp_all

lemma seq_codec: "rlp_codec (\<lambda>xs. Items (map to_item xs)) (put_seq put) (get_seq get) (list_all ok)"
proof
  fix xs r assume ok: "list_all ok xs" and fits: "fits (Items (map to_item xs))"
  have sub: "fits (to_item x)" if "x \<in> set xs" for x
    using fits_items[OF fits] that by simp
  have "list_all2 (\<lambda>p t. \<forall>r. p r = write_item t r) (map put xs) (map to_item xs)"
    using ok sub by (auto simp: list_all2_conv_all_nth list_all_length put_item)
  from write_items_put_all[OF this] show "put_seq put xs r = write_item (Items (map to_item xs)) r"
    by (simp add: put_seq_def split: sum.split)
next
  fix xs s assume ok: "list_all ok xs" and fits: "fits (Items (map to_item xs))"
  have "fits (to_item x)" if "x \<in> set xs" for x
    using fits_items[OF fits] that by simp
  then show "get_seq get s (encode (Items (map to_item xs))) = Inr xs"
    using ok by (intro get_seq_items[OF fits]) (auto simp: list_all_length get_item)
qed

lemma reads_field: "ok x \<Longrightarrow> fits (to_item x) \<Longrightarrow> reads (field get upd) s (to_item x) u \<longleftrightarrow> u = upd x"
  by (auto simp: reads_def field_def get_item fun_eq_iff)

end

subsection \<open>The codecs of the basic types\<close>

lemma int_codec:
  assumes "LENGTH('a::len) mod 8 = 0" and "LENGTH('a) \<le> 256"
  shows "rlp_codec (\<lambda>w::'a word. int_item (unat w)) put_int toInt (\<lambda>_. True)"
proof
  fix w :: "'a word" and r assume "fits (int_item (unat w))"
  moreover have "unat w < 2 ^ LENGTH('a)" by (rule unsigned_less)
  then have "unat w < 2 ^ 256" using power_increasing[OF assms(2), of "2::nat"] by linarith
  ultimately show "put_int w r = write_item (int_item (unat w)) r"
    by (simp add: put_int_def append_int_appended write_item_appended)
qed (simp add: toInt_encode[OF assms])

lemma hash_codec:
  assumes "LENGTH('a::len) mod 8 = 0" and "LENGTH('a) \<le> 1600"
  shows "rlp_codec (hash_item :: 'a word \<Rightarrow> rlp_item) put_hash toHash (\<lambda>_. True)"
proof
  fix w :: "'a word" and r
  show "put_hash w r = write_item (hash_item w) r"
    by (simp add: put_hash_def append_hash_def hash_item_def)
qed (simp add: toHash_encode[OF assms])

interpretation u16_codec: rlp_codec "\<lambda>w::16 word. int_item (unat w)" put_int toInt "\<lambda>_. True"
  by (rule int_codec) simp_all

interpretation u32_codec: rlp_codec "\<lambda>w::u32. int_item (unat w)" put_int toInt "\<lambda>_. True"
  by (rule int_codec) simp_all

interpretation u64_codec: rlp_codec "\<lambda>w::u64. int_item (unat w)" put_int toInt "\<lambda>_. True"
  by (rule int_codec) simp_all

interpretation h256_codec: rlp_codec "hash_item :: h256 \<Rightarrow> rlp_item" put_hash toHash "\<lambda>_. True"
  by (rule hash_codec) simp_all

interpretation sig_codec: rlp_codec "hash_item :: 520 word \<Rightarrow> rlp_item" put_hash toHash "\<lambda>_. True"
  by (rule hash_codec) simp_all

interpretation proof_codec: rlp_codec "hash_item :: 640 word \<Rightarrow> rlp_item" put_hash toHash "\<lambda>_. True"
  by (rule hash_codec) simp_all

interpretation bytes_codec: rlp_codec Data put_bytes toBytes "\<lambda>_. True"
proof
  show "put_bytes x r = write_item (Data x) r" for x r by (simp add: put_bytes_def)
qed (rule toBytes_encode)

interpretation h256_seq_codec: rlp_codec "\<lambda>xs. Items (map (hash_item :: h256 \<Rightarrow> rlp_item) xs)"
  "put_seq put_hash" "get_seq toHash" "list_all (\<lambda>_. True)"
  by (rule h256_codec.seq_codec)

text \<open>An optional value is written as the value or as the integer zero, and read back as absent where the item is empty:
  the present zero is lost.\<close>

lemma put_optional_item:
  "put_optional put x r = (case x of None \<Rightarrow> append_int 0 r | Some v \<Rightarrow> put v r)"
  by (simp add: put_optional_def split: option.split)

lemma encode_not_empty:
  assumes "bs \<noteq> []" and "length bs < 56"
  shows "\<not> isEmpty (encode (Data bs))"
proof (cases "length bs = 1 \<and> hd bs < 0x80")
  case True
  then show ?thesis by (auto simp: isEmpty_def byte_compare)
next
  case False
  define b where "b = (of_nat (0x80 + length bs) :: byte)"
  have "unat b = 0x80 + length bs" using assms(2) unfolding b_def by (simp only: unat_byte) simp
  moreover have "encode (Data bs) = b # bs" using False assms(2) by (simp add: size_prefix_def b_def)
  ultimately show ?thesis using assms by (simp add: isEmpty_def byte_compare)
qed

lemma get_optional_int:
  fixes w :: u64
  shows "get_optional toInt s (encode (int_item (unat w))) = Inr (if w = 0 then None else Some w)"
proof (cases "w = 0")
  case True
  then show ?thesis by (simp add: get_optional_def int_item_def size_prefix_def isEmpty_def)
next
  case False
  then have "0 < unat w" by (simp add: unat_gt_0)
  then have "be_bytes (bytesRequired (unat w)) (unat w) \<noteq> []" by (rule hd_be_bytes)
  moreover have "bytesRequired (unat w) \<le> 8"
    using unsigned_less[of w] by (intro bytesRequired_le) simp
  ultimately have "\<not> isEmpty (encode (int_item (unat w)))"
    unfolding int_item_def by (intro encode_not_empty) simp_all
  then show ?thesis
    using False toInt_encode[of s w] by (simp add: get_optional_def isNull_def)
qed

section \<open>Sizes\<close>

lemma length_size_prefix: "s < 2 ^ 32 \<Longrightarrow> length (size_prefix base s) \<le> 5"
  using bytesRequired_le[of s 4] by (simp add: size_prefix_def)

lemma length_encode_data: "length bs < 2 ^ 32 \<Longrightarrow> length (encode (Data bs)) \<le> length bs + 5"
  using length_size_prefix[of "length bs" "0x80"] by simp

lemma length_encode_items:
  assumes "sum_list (map (length \<circ> encode) ts) < 2 ^ 32"
  shows "length (encode (Items ts)) \<le> sum_list (map (length \<circ> encode) ts) + 5"
  using length_size_prefix[of "length (concat (map encode ts))" "0xc0"] assms
  by (simp add: Let_def length_concat comp_def)

lemma length_items_le:
  assumes "sum_list (map (length \<circ> encode) ts) \<le> n" and "n < 2 ^ 32"
  shows "length (encode (Items ts)) \<le> n + 5"
  using length_encode_items[of ts] assms by linarith

lemma fits_items_sum:
  assumes "sum_list (map (length \<circ> encode) ts) < 2 ^ 32"
  shows "fits (Items ts)"
  using length_encode_items[OF assms] assms by (simp add: fits_def del: encode.simps)

lemma length_int_item:
  fixes w :: "'a::len word"
  assumes "LENGTH('a) \<le> 64"
  shows "length (encode (int_item (unat w))) \<le> 13"
proof -
  have "unat w < 2 ^ LENGTH('a)" by (rule unsigned_less)
  also have "(2::nat) ^ LENGTH('a) \<le> 2 ^ 64" using assms by (rule power_increasing) simp
  finally have "bytesRequired (unat w) \<le> 8" by (intro bytesRequired_le) simp
  then show ?thesis
    using length_encode_data[of "be_bytes (bytesRequired (unat w)) (unat w)"]
    by (simp add: int_item_def del: encode.simps)
qed

lemma length_hash_item:
  fixes w :: "'a::len word"
  assumes "LENGTH('a) \<le> 640"
  shows "length (encode (hash_item w)) \<le> 85"
proof -
  have "LENGTH('a) div 8 \<le> 80" using assms by simp
  then show ?thesis
    using length_encode_data[of "be_bytes (LENGTH('a) div 8) (unat w)"]
    by (simp add: hash_item_def del: encode.simps)
qed

lemma fits_small: "length (encode t) \<le> 1000 \<Longrightarrow> fits t"
  by (simp add: fits_def)

lemma fits_int_item [simp]: "LENGTH('a) \<le> 64 \<Longrightarrow> fits (int_item (unat (w :: 'a::len word)))"
  using length_int_item[of w] by (intro fits_small) simp

lemma fits_hash_item [simp]: "LENGTH('a) \<le> 640 \<Longrightarrow> fits (hash_item (w :: 'a::len word))"
  using length_hash_item[of w] by (intro fits_small) simp

end
