(* ===== verification/Vote_Codec.thy ===== *)
theory Vote_Codec
  imports Rlp_Codec
begin

text \<open>
  The encodings of votes and blocks: \<open>types/vote/src/pbft_vote.cpp\<close>, \<open>vrf_sortition.cpp\<close>, \<open>votes_bundle_rlp.cpp\<close> and
  \<open>pillar_vote.cpp\<close>, \<open>vdf/src/sortition.cpp\<close> and \<open>types/dag_block/src/dag_block.cpp\<close>. Only the members that are encoded are
  modelled; a vote's hash is a digest of them.
\<close>

type_synonym vrf_proof_t = "640 word"
type_synonym sig_t = "520 word"

section \<open>Votes\<close>

record pbft_vote_data =
  vf_block_hash :: h256
  vf_period :: pbft_period
  vf_round :: pbft_round
  vf_step :: pbft_step
  vf_proof :: vrf_proof_t
  vf_signature :: sig_t
  vf_weight :: "u64 option"

definition pbft_vote_init :: pbft_vote_data where
  "pbft_vote_init = \<lparr>vf_block_hash = 0, vf_period = 0, vf_round = 0, vf_step = 0, vf_proof = 0, vf_signature = 0,
     vf_weight = None\<rparr>"

definition sortition_getRlpBytes :: "pbft_vote_data \<Rightarrow> bytes rlp_result" where
  "sortition_getRlpBytes v =
     rlp_enc (put_tuple [put_int (vf_period v), put_int (vf_round v), put_int (vf_step v), put_hash (vf_proof v)])"

definition sortition_from_bytes :: "bytes \<Rightarrow> pbft_vote_data \<Rightarrow> pbft_vote_data rlp_result" where
  "sortition_from_bytes b v =
     (case RLP b VeryStrict of Inl e \<Rightarrow> Inl e
      | Inr d \<Rightarrow>
          get_tuple
            [field toInt (\<lambda>x. vf_period_update (\<lambda>_. x)), field toInt (\<lambda>x. vf_round_update (\<lambda>_. x)),
             field toInt (\<lambda>x. vf_step_update (\<lambda>_. x)), field toHash (\<lambda>x. vf_proof_update (\<lambda>_. x))]
            v VeryStrict d)"

definition pbft_vote_rlp :: "bool \<Rightarrow> bool \<Rightarrow> pbft_vote_data \<Rightarrow> bytes rlp_result" where
  "pbft_vote_rlp inc_sig inc_weight v =
     (case sortition_getRlpBytes v of Inl e \<Rightarrow> Inl e
      | Inr vrf \<Rightarrow>
          rlp_enc (put_tuple
            ([put_hash (vf_block_hash v), put_bytes vrf]
             @ (if inc_sig then [put_hash (vf_signature v)] else [])
             @ (if inc_weight then (case vf_weight v of None \<Rightarrow> [] | Some w \<Rightarrow> [put_int w]) else []))))"

text \<open>The decoder fills the vote and the bytes of its sortition.\<close>

abbreviation vote_members :: "(bytes \<times> pbft_vote_data) setter list" where
  "vote_members \<equiv>
     [field toHash (\<lambda>x (b, v). (b, v\<lparr>vf_block_hash := x\<rparr>)), field toBytes (\<lambda>x (b, v). (x, v)),
      field toHash (\<lambda>x (b, v). (b, v\<lparr>vf_signature := x\<rparr>))]"

definition pbft_vote_from_rlp :: "bytes \<Rightarrow> pbft_vote_data rlp_result" where
  "pbft_vote_from_rlp d =
     (case itemCount d of Inl e \<Rightarrow> Inl e
      | Inr n \<Rightarrow>
          (case get_tuple
                  (if n = 3 then vote_members
                   else vote_members @ [field (get_optional toInt) (\<lambda>x (b, v). (b, v\<lparr>vf_weight := x\<rparr>))])
                  ([], pbft_vote_init) VeryStrict d of
             Inl e \<Rightarrow> Inl e
           | Inr (vrf_bytes, v) \<Rightarrow> sortition_from_bytes vrf_bytes v))"

definition pbft_vote_from_bytes :: "bytes \<Rightarrow> pbft_vote_data rlp_result" where
  "pbft_vote_from_bytes b = (case RLP b VeryStrict of Inl e \<Rightarrow> Inl e | Inr d \<Rightarrow> pbft_vote_from_rlp d)"

definition optimizedRlp :: "pbft_vote_data \<Rightarrow> bytes rlp_result" where
  "optimizedRlp v = rlp_enc (put_tuple [put_hash (vf_proof v), put_hash (vf_signature v)])"

definition pbft_vote_from_optimized ::
  "h256 \<Rightarrow> pbft_period \<Rightarrow> pbft_round \<Rightarrow> pbft_step \<Rightarrow> pbft_vote_data decoder" where
  "pbft_vote_from_optimized block_hash period round' step s d =
     (case get_tuple [field toHash (\<lambda>x (p, sig). (x, sig)), field toHash (\<lambda>x (p, sig). (p, x))] (0, 0) VeryStrict d of
        Inl e \<Rightarrow> Inl e
      | Inr (p, sig) \<Rightarrow>
          Inr \<lparr>vf_block_hash = block_hash, vf_period = period, vf_round = round', vf_step = step, vf_proof = p,
               vf_signature = sig, vf_weight = None\<rparr>)"

section \<open>Bundles of votes\<close>

fun append_optimized :: "pbft_vote_data list \<Rightarrow> stream_action" where
  "append_optimized [] r = Inr r"
| "append_optimized (v # vs) r =
     (case optimizedRlp v of Inl e \<Rightarrow> Inl e
      | Inr b \<Rightarrow> (case appendRaw b 1 r of Inl e \<Rightarrow> Inl e | Inr r' \<Rightarrow> append_optimized vs r'))"

definition encodePbftVotesBundleRlp :: "pbft_vote_data list \<Rightarrow> bytes rlp_result" where
  "encodePbftVotesBundleRlp votes =
     (if votes = [] then Inl AssertionFailed
      else
        let v = last votes in
        rlp_enc (\<lambda>r. case appendList 5 r of Inl e \<Rightarrow> Inl e
          | Inr r0 \<Rightarrow>
              put_all [put_hash (vf_block_hash v), put_int (vf_period v), put_int (vf_round v), put_int (vf_step v),
                       appendList (length votes), append_optimized votes] r0))"

definition decodePbftVotesBundleRlp :: "bytes \<Rightarrow> pbft_vote_data list rlp_result" where
  "decodePbftVotesBundleRlp d =
     rlp_bind (itemCount d) (\<lambda>n.
     if n \<noteq> 5 then Inl AssertionFailed
     else
       rlp_bind (rlp_index d 0 cache_init) (\<lambda>(d0, c0).
       rlp_bind (toHash Strict d0) (\<lambda>block_hash.
       rlp_bind (rlp_index d 1 c0) (\<lambda>(d1, c1).
       rlp_bind (toInt Strict d1) (\<lambda>period.
       rlp_bind (rlp_index d 2 c1) (\<lambda>(d2, c2).
       rlp_bind (toInt Strict d2) (\<lambda>round'.
       rlp_bind (rlp_index d 3 c2) (\<lambda>(d3, c3).
       rlp_bind (toInt Strict d3) (\<lambda>step.
       rlp_bind (rlp_index d 4 c3) (\<lambda>(d4, c4).
       rlp_bind (itemCount d4) (\<lambda>_.
       rlp_bind (rlp_index d 4 c4) (\<lambda>(votes_rlp, c5).
       get_seq (pbft_vote_from_optimized block_hash period round' step) VeryStrict votes_rlp))))))))))))"

section \<open>Pillar votes\<close>

record pillar_vote_data =
  pv_period :: pbft_period
  pv_block_hash :: h256
  pv_signature :: sig_t

definition pillar_vote_rlp :: "pillar_vote_data \<Rightarrow> bytes rlp_result" where
  "pillar_vote_rlp v = rlp_enc (put_tuple [put_int (pv_period v), put_hash (pv_block_hash v), put_hash (pv_signature v)])"

definition pillar_vote_from_rlp :: "bytes \<Rightarrow> pillar_vote_data rlp_result" where
  "pillar_vote_from_rlp d =
     get_tuple
       [field toInt (\<lambda>x. pv_period_update (\<lambda>_. x)), field toHash (\<lambda>x. pv_block_hash_update (\<lambda>_. x)),
        field toHash (\<lambda>x. pv_signature_update (\<lambda>_. x))]
       \<lparr>pv_period = 0, pv_block_hash = 0, pv_signature = 0\<rparr> VeryStrict d"

definition pillar_vote_from_bytes :: "bytes \<Rightarrow> pillar_vote_data rlp_result" where
  "pillar_vote_from_bytes b = rlp_bind (RLP b VeryStrict) pillar_vote_from_rlp"

fun append_signatures :: "pillar_vote_data list \<Rightarrow> stream_action" where
  "append_signatures [] r = Inr r"
| "append_signatures (v # vs) r =
     rlp_bind (rlp_enc (put_hash (pv_signature v))) (\<lambda>b.
     rlp_bind (appendRaw b 1 r) (append_signatures vs))"

definition encodePillarVotesBundleRlp :: "pillar_vote_data list \<Rightarrow> bytes rlp_result" where
  "encodePillarVotesBundleRlp votes =
     (if votes = [] then Inl AssertionFailed
      else
        let v = last votes in
        rlp_enc (\<lambda>r. rlp_bind (appendList 3 r)
          (put_all [put_hash (pv_block_hash v), put_int (pv_period v),
                    appendList (length votes), append_signatures votes])))"

definition pillar_vote_of_signature :: "pbft_period \<Rightarrow> h256 \<Rightarrow> pillar_vote_data decoder" where
  "pillar_vote_of_signature period block_hash s d =
     rlp_bind (toHash LaissezFaire d) (\<lambda>sig.
     Inr \<lparr>pv_period = period, pv_block_hash = block_hash, pv_signature = sig\<rparr>)"

definition decodePillarVotesBundleRlp :: "bytes \<Rightarrow> pillar_vote_data list rlp_result" where
  "decodePillarVotesBundleRlp d =
     rlp_bind (itemCount d) (\<lambda>n.
     if n \<noteq> 3 then Inl AssertionFailed
     else
       rlp_bind (rlp_index d 0 cache_init) (\<lambda>(d0, c0).
       rlp_bind (toHash Strict d0) (\<lambda>block_hash.
       rlp_bind (rlp_index d 1 c0) (\<lambda>(d1, c1).
       rlp_bind (toInt Strict d1) (\<lambda>period.
       rlp_bind (rlp_index d 2 c1) (\<lambda>(d2, c2).
       rlp_bind (itemCount d2) (\<lambda>_.
       rlp_bind (rlp_index d 2 c2) (\<lambda>(sigs_rlp, c3).
       get_seq (pillar_vote_of_signature period block_hash) VeryStrict sigs_rlp))))))))"

section \<open>Dag blocks\<close>

record vdf_data =
  vdf_proof :: vrf_proof_t
  vdf_sol_first :: bytes
  vdf_sol_second :: bytes
  vdf_difficulty :: "16 word"

definition vdf_init :: vdf_data where
  "vdf_init = \<lparr>vdf_proof = 0, vdf_sol_first = [], vdf_sol_second = [], vdf_difficulty = 0\<rparr>"

definition vdf_rlp :: "vdf_data \<Rightarrow> bytes rlp_result" where
  "vdf_rlp v =
     rlp_enc (put_tuple [put_hash (vdf_proof v), put_bytes (vdf_sol_first v), put_bytes (vdf_sol_second v),
                         put_int (vdf_difficulty v)])"

definition vdf_from_bytes :: "bytes \<Rightarrow> vdf_data rlp_result" where
  "vdf_from_bytes b =
     (if b = [] then Inr vdf_init
      else rlp_bind (RLP b VeryStrict)
        (get_tuple
          [field toHash (\<lambda>x. vdf_proof_update (\<lambda>_. x)), field toBytes (\<lambda>x. vdf_sol_first_update (\<lambda>_. x)),
           field toBytes (\<lambda>x. vdf_sol_second_update (\<lambda>_. x)), field toInt (\<lambda>x. vdf_difficulty_update (\<lambda>_. x))]
          vdf_init VeryStrict))"

record dag_block_data =
  db_pivot :: h256
  db_level :: u64
  db_timestamp :: u64
  db_vdf :: vdf_data
  db_tips :: "h256 list"
  db_trxs :: "h256 list"
  db_sig :: sig_t
  db_gas_estimation :: u64

definition dag_block_init :: dag_block_data where
  "dag_block_init = \<lparr>db_pivot = 0, db_level = 0, db_timestamp = 0, db_vdf = vdf_init, db_tips = [], db_trxs = [],
     db_sig = 0, db_gas_estimation = 0\<rparr>"

definition dag_block_rlp :: "bool \<Rightarrow> bool \<Rightarrow> dag_block_data \<Rightarrow> bytes rlp_result" where
  "dag_block_rlp include_sig include_trxs b =
     rlp_bind (vdf_rlp (db_vdf b)) (\<lambda>vdf.
     rlp_enc (put_tuple
       ([put_hash (db_pivot b), put_int (db_level b), put_int (db_timestamp b), put_bytes vdf, put_seq put_hash (db_tips b)]
        @ (if include_trxs then [put_seq put_hash (db_trxs b)] else [])
        @ (if include_sig then [put_hash (db_sig b)] else [])
        @ [put_int (db_gas_estimation b)])))"

definition dag_block_from_rlp :: "bytes \<Rightarrow> dag_block_data rlp_result" where
  "dag_block_from_rlp d =
     rlp_bind
       (get_tuple
         [field toHash (\<lambda>x (v, b). (v, b\<lparr>db_pivot := x\<rparr>)), field toInt (\<lambda>x (v, b). (v, b\<lparr>db_level := x\<rparr>)),
          field toInt (\<lambda>x (v, b). (v, b\<lparr>db_timestamp := x\<rparr>)), field toBytes (\<lambda>x (v, b). (x, b)),
          field (get_seq toHash) (\<lambda>x (v, b). (v, b\<lparr>db_tips := x\<rparr>)),
          field (get_seq toHash) (\<lambda>x (v, b). (v, b\<lparr>db_trxs := x\<rparr>)),
          field toHash (\<lambda>x (v, b). (v, b\<lparr>db_sig := x\<rparr>)), field toInt (\<lambda>x (v, b). (v, b\<lparr>db_gas_estimation := x\<rparr>))]
         ([], dag_block_init) VeryStrict d)
       (\<lambda>(vdf_bytes, b). rlp_bind (vdf_from_bytes vdf_bytes) (\<lambda>v. Inr (b\<lparr>db_vdf := v\<rparr>)))"

definition dag_block_from_rlp_with_trxs :: "bytes \<Rightarrow> h256 list \<Rightarrow> dag_block_data rlp_result" where
  "dag_block_from_rlp_with_trxs d trxs =
     rlp_bind
       (get_tuple
         [field toHash (\<lambda>x (v, b). (v, b\<lparr>db_pivot := x\<rparr>)), field toInt (\<lambda>x (v, b). (v, b\<lparr>db_level := x\<rparr>)),
          field toInt (\<lambda>x (v, b). (v, b\<lparr>db_timestamp := x\<rparr>)), field toBytes (\<lambda>x (v, b). (x, b)),
          field (get_seq toHash) (\<lambda>x (v, b). (v, b\<lparr>db_tips := x\<rparr>)),
          field toHash (\<lambda>x (v, b). (v, b\<lparr>db_sig := x\<rparr>)), field toInt (\<lambda>x (v, b). (v, b\<lparr>db_gas_estimation := x\<rparr>))]
         ([], dag_block_init) VeryStrict d)
       (\<lambda>(vdf_bytes, b). rlp_bind (vdf_from_bytes vdf_bytes) (\<lambda>v. Inr (b\<lparr>db_vdf := v, db_trxs := trxs\<rparr>)))"

definition extract_dag_level_from_rlp :: "bytes \<Rightarrow> u64 rlp_result" where
  "extract_dag_level_from_rlp d = rlp_bind (rlp_index d 1 cache_init) (\<lambda>(r, c). toInt Strict r)"

definition extract_signature_from_rlp :: "bytes \<Rightarrow> sig_t rlp_result" where
  "extract_signature_from_rlp d = rlp_bind (rlp_index d 6 cache_init) (\<lambda>(r, c). toHash Strict r)"

end
