(* ===== verification/Vote_Codec_Props.thy ===== *)
theory Vote_Codec_Props
  imports Vote_Codec
begin

text \<open>Every encoding of votes and blocks is read back as the value that was encoded.\<close>

lemma writes_int: "LENGTH('a) mod 8 = 0 \<Longrightarrow> LENGTH('a) \<le> 64 \<Longrightarrow> put_int (w :: 'a::len word) r = write_item (int_item (unat w)) r"
  by (rule rlp_codec.put_item[OF int_codec]) simp_all

lemma writes_hash: "LENGTH('a) mod 8 = 0 \<Longrightarrow> LENGTH('a) \<le> 640 \<Longrightarrow> put_hash (w :: 'a::len word) r = write_item (hash_item w) r"
  by (rule rlp_codec.put_item[OF hash_codec]) simp_all

lemma writes_bytes: "put_bytes bs r = write_item (Data bs) r"
  by (simp add: put_bytes_def)

lemma reads_int:
  "LENGTH('a) mod 8 = 0 \<Longrightarrow> LENGTH('a) \<le> 64 \<Longrightarrow>
    reads (field (toInt :: 'a::len word decoder) upd) s (int_item (unat w)) u \<longleftrightarrow> u = upd w"
  by (rule rlp_codec.reads_field[OF int_codec]) simp_all

lemma reads_hash:
  "LENGTH('a) mod 8 = 0 \<Longrightarrow> LENGTH('a) \<le> 640 \<Longrightarrow>
    reads (field (toHash :: 'a::len word decoder) upd) s (hash_item w) u \<longleftrightarrow> u = upd w"
  by (rule rlp_codec.reads_field[OF hash_codec]) simp_all

lemma reads_bytes: "fits (Data bs) \<Longrightarrow> reads (field toBytes upd) s (Data bs) u \<longleftrightarrow> u = upd bs"
  by (rule bytes_codec.reads_field) simp_all

lemmas writes = writes_int writes_hash writes_bytes
lemmas reads_rules = reads_int reads_hash reads_bytes

section \<open>Votes\<close>

definition sortition_item :: "pbft_vote_data \<Rightarrow> rlp_item" where
  "sortition_item v = Items [int_item (unat (vf_period v)), int_item (unat (vf_round v)), int_item (unat (vf_step v)),
     hash_item (vf_proof v)]"

definition pbft_vote_item :: "pbft_vote_data \<Rightarrow> rlp_item" where
  "pbft_vote_item v = Items ([hash_item (vf_block_hash v), Data (encode (sortition_item v)), hash_item (vf_signature v)]
     @ (case vf_weight v of None \<Rightarrow> [] | Some w \<Rightarrow> [int_item (unat w)]))"

lemma length_sortition_item: "length (encode (sortition_item v)) \<le> 129"
proof -
  have "length (encode (sortition_item v)) \<le> 124 + 5"
    unfolding sortition_item_def
  proof (rule length_items_le)
    show "sum_list (map (length \<circ> encode) [int_item (unat (vf_period v)), int_item (unat (vf_round v)),
        int_item (unat (vf_step v)), hash_item (vf_proof v)]) \<le> 124"
      using length_int_item[of "vf_period v"] length_int_item[of "vf_round v"] length_int_item[of "vf_step v"]
        length_hash_item[of "vf_proof v"] by simp
  qed simp
  then show ?thesis by simp
qed

lemma fits_sortition [simp]: "fits (sortition_item v)" "fits (Data (encode (sortition_item v)))"
  using length_sortition_item[of v] length_encode_data[of "encode (sortition_item v)"]
  by (intro fits_small; simp del: encode.simps)+

lemma sortition_roundtrip:
  "sortition_getRlpBytes v = Inr (encode (sortition_item v))"
  "sortition_from_bytes (encode (sortition_item v)) u
    = Inr (u\<lparr>vf_period := vf_period v, vf_round := vf_round v, vf_step := vf_step v, vf_proof := vf_proof v\<rparr>)"
proof -
  show "sortition_getRlpBytes v = Inr (encode (sortition_item v))"
    unfolding sortition_getRlpBytes_def sortition_item_def
    by (rule rlp_enc_item, rule put_tuple_item) (simp_all add: writes fits_sortition(1)[unfolded sortition_item_def])
  show "sortition_from_bytes (encode (sortition_item v)) u
    = Inr (u\<lparr>vf_period := vf_period v, vf_round := vf_round v, vf_step := vf_step v, vf_proof := vf_proof v\<rparr>)"
    unfolding sortition_from_bytes_def RLP_encode[OF fits_sortition(1)] sum.case
    unfolding sortition_item_def
    by (subst get_tuple_reads[where us = "[vf_period_update (\<lambda>_. vf_period v), vf_round_update (\<lambda>_. vf_round v),
      vf_step_update (\<lambda>_. vf_step v), vf_proof_update (\<lambda>_. vf_proof v)]"])
      (simp_all add: reads_rules fits_sortition(1)[unfolded sortition_item_def])
qed

lemma fits_pbft_vote_item: "fits (pbft_vote_item v)"
proof -
  have "length (encode (Data (encode (sortition_item v)))) \<le> 134"
    using length_encode_data[of "encode (sortition_item v)"] length_sortition_item[of v] by (simp del: encode.simps)
  moreover have "sum_list (map (length \<circ> encode) (case vf_weight v of None \<Rightarrow> [] | Some w \<Rightarrow> [int_item (unat w)])) \<le> 13"
    using length_int_item[where 'a = 64] by (simp split: option.split)
  ultimately have "sum_list (map (length \<circ> encode) ([hash_item (vf_block_hash v), Data (encode (sortition_item v)),
      hash_item (vf_signature v)] @ (case vf_weight v of None \<Rightarrow> [] | Some w \<Rightarrow> [int_item (unat w)]))) \<le> 400"
    using length_hash_item[of "vf_block_hash v"] length_hash_item[of "vf_signature v"]
    by (simp del: encode.simps)
  from length_items_le[OF this] show ?thesis
    unfolding pbft_vote_item_def by (intro fits_small) (simp del: encode.simps)
qed

lemma pbft_vote_encoded: "pbft_vote_rlp True True v = Inr (encode (pbft_vote_item v))"
  unfolding pbft_vote_rlp_def sortition_roundtrip sum.case
  by (rule rlp_enc_item[OF _ fits_pbft_vote_item], unfold pbft_vote_item_def, rule put_tuple_item)
    (simp_all add: writes split: option.split)

lemma pbft_vote_decoded:
  "pbft_vote_from_rlp (encode (pbft_vote_item v))
    = Inr (if vf_weight v = Some 0 then v\<lparr>vf_weight := None\<rparr> else v)"
proof -
  note fits = fits_pbft_vote_item[of v, unfolded pbft_vote_item_def]
  let ?us = "[\<lambda>(b, u). (b, u\<lparr>vf_block_hash := vf_block_hash v\<rparr>), \<lambda>(b, u). (encode (sortition_item v), u),
    \<lambda>(b, u). (b, u\<lparr>vf_signature := vf_signature v\<rparr>)]"
  show ?thesis
  proof (cases "vf_weight v")
    case None
    have "get_tuple vote_members ([], pbft_vote_init) VeryStrict (encode (pbft_vote_item v))
        = Inr (fold (\<lambda>u. u) ?us ([], pbft_vote_init))"
      unfolding pbft_vote_item_def using None fits by (intro get_tuple_reads) (simp_all add: reads_rules)
    then show ?thesis
      using itemCount_encode[OF fits] None sortition_roundtrip(2)[of v]
      by (simp add: pbft_vote_from_rlp_def pbft_vote_item_def pbft_vote_init_def del: encode.simps)
  next
    case (Some w)
    have "reads (field (get_optional toInt) (\<lambda>x (b, v). (b, v\<lparr>vf_weight := x\<rparr>))) VeryStrict (int_item (unat w))
        (\<lambda>(b, v). (b, v\<lparr>vf_weight := if w = 0 then None else Some w\<rparr>))"
      by (auto simp: reads_def field_def get_optional_int)
    then have "get_tuple (vote_members @ [field (get_optional toInt) (\<lambda>x (b, v). (b, v\<lparr>vf_weight := x\<rparr>))])
        ([], pbft_vote_init) VeryStrict (encode (pbft_vote_item v))
        = Inr (fold (\<lambda>u. u) (?us @ [\<lambda>(b, v). (b, v\<lparr>vf_weight := if w = 0 then None else Some w\<rparr>)]) ([], pbft_vote_init))"
      unfolding pbft_vote_item_def using Some fits by (intro get_tuple_reads) (simp_all add: reads_rules)
    then show ?thesis
      using itemCount_encode[OF fits] Some sortition_roundtrip(2)[of v]
      by (simp add: pbft_vote_from_rlp_def pbft_vote_item_def pbft_vote_init_def del: encode.simps)
  qed
qed

section \<open>Bundles\<close>

definition optimized_item :: "pbft_vote_data \<Rightarrow> rlp_item" where
  "optimized_item v = Items [hash_item (vf_proof v), hash_item (vf_signature v)]"

definition bundle_item :: "pbft_vote_data list \<Rightarrow> rlp_item" where
  "bundle_item votes =
     (let v = last votes in
      Items [hash_item (vf_block_hash v), int_item (unat (vf_period v)), int_item (unat (vf_round v)),
             int_item (unat (vf_step v)), Items (map optimized_item votes)])"

lemma length_optimized_item: "length (encode (optimized_item v)) \<le> 175"
proof -
  have "length (encode (optimized_item v)) \<le> 170 + 5"
    unfolding optimized_item_def
    by (rule length_items_le) (use length_hash_item[of "vf_proof v"] length_hash_item[of "vf_signature v"] in simp_all)
  then show ?thesis by simp
qed

lemma fits_optimized_item: "fits (optimized_item v)"
  using length_optimized_item[of v] by (intro fits_small) simp

lemma sum_list_bound:
  fixes f :: "'a \<Rightarrow> nat"
  shows "(\<And>x. x \<in> set xs \<Longrightarrow> f x \<le> k) \<Longrightarrow> sum_list (map f xs) \<le> length xs * k"
  by (induction xs) (auto intro: add_mono)

lemma fits_bundle_item:
  assumes "length votes \<le> 2 ^ 20"
  shows "fits (bundle_item votes)"
proof -
  let ?v = "last votes"
  have "sum_list (map (length \<circ> encode) (map optimized_item votes)) \<le> length votes * 175"
    using sum_list_bound[of votes "length \<circ> encode \<circ> optimized_item" 175] length_optimized_item by (simp add: comp_def)
  also have "\<dots> \<le> 2 ^ 20 * 175" using assms by simp
  finally have "length (encode (Items (map optimized_item votes))) \<le> 2 ^ 20 * 175 + 5"
    by (rule length_items_le) simp
  then have "sum_list (map (length \<circ> encode) [hash_item (vf_block_hash ?v), int_item (unat (vf_period ?v)),
      int_item (unat (vf_round ?v)), int_item (unat (vf_step ?v)), Items (map optimized_item votes)]) \<le> 2 ^ 20 * 175 + 1000"
    using length_hash_item[of "vf_block_hash ?v"] length_int_item[of "vf_period ?v"] length_int_item[of "vf_round ?v"]
      length_int_item[of "vf_step ?v"] by (simp del: encode.simps)
  then show ?thesis unfolding bundle_item_def Let_def by (intro fits_items_sum) (simp del: encode.simps)
qed

lemma optimized_encoded: "optimizedRlp v = Inr (encode (optimized_item v))"
  unfolding optimizedRlp_def
  by (rule rlp_enc_item[OF _ fits_optimized_item], unfold optimized_item_def, rule put_tuple_item)
    (simp_all add: writes)

lemma append_optimized_items: "append_optimized votes r = write_items (map optimized_item votes) r"
proof (induction votes arbitrary: r)
  case (Cons v votes)
  have "appendRaw (encode (optimized_item v)) 1 r = write_item (optimized_item v) r"
    by (simp add: write_item_appended[OF fits_optimized_item] appended_def appendRaw_def)
  with Cons show ?case by (simp add: optimized_encoded split: sum.split)
qed simp

lemma put_all_nested:
  assumes "list_all2 (\<lambda>p t. \<forall>r. p r = write_item t r) ps ts" and "\<And>r. app r = write_items us r"
  shows "put_all (ps @ [appendList (length us), app]) r = write_items (ts @ [Items us]) r"
  using assms(1)
proof (induction ps ts arbitrary: r rule: list_all2_induct)
  case Nil
  then show ?case by (simp add: assms(2) split: sum.split)
next
  case (Cons p ps t ts)
  then show ?case by (simp split: sum.split)
qed

lemma bundle_encoded:
  assumes "votes \<noteq> []" and "length votes \<le> 2 ^ 20"
  shows "encodePbftVotesBundleRlp votes = Inr (encode (bundle_item votes))"
proof -
  let ?v = "last votes"
  have "put_all ([put_hash (vf_block_hash ?v), put_int (vf_period ?v), put_int (vf_round ?v), put_int (vf_step ?v)]
      @ [appendList (length (map optimized_item votes)), append_optimized votes]) r
    = write_items ([hash_item (vf_block_hash ?v), int_item (unat (vf_period ?v)), int_item (unat (vf_round ?v)),
      int_item (unat (vf_step ?v))] @ [Items (map optimized_item votes)]) r" for r
    by (rule put_all_nested) (simp_all add: writes append_optimized_items)
  then have "rlp_enc (\<lambda>r. case appendList 5 r of Inl e \<Rightarrow> Inl e
      | Inr r0 \<Rightarrow> put_all [put_hash (vf_block_hash ?v), put_int (vf_period ?v),
          put_int (vf_round ?v), put_int (vf_step ?v), appendList (length votes), append_optimized votes] r0)
    = Inr (encode (bundle_item votes))"
    by (intro rlp_enc_item[OF _ fits_bundle_item[OF assms(2)]])
      (simp add: bundle_item_def Let_def numeral_eq_Suc del: write_items.simps put_all.simps split: sum.split)
  then show ?thesis using assms(1) by (simp add: encodePbftVotesBundleRlp_def Let_def)
qed

lemma optimized_decoded:
  "pbft_vote_from_optimized bh p r st s (encode (optimized_item v))
    = Inr \<lparr>vf_block_hash = bh, vf_period = p, vf_round = r, vf_step = st, vf_proof = vf_proof v,
           vf_signature = vf_signature v, vf_weight = None\<rparr>"
proof -
  have "get_tuple [field toHash (\<lambda>x (p, sig). (x, sig)), field toHash (\<lambda>x (p, sig). (p, x))] (0, 0) VeryStrict
      (encode (optimized_item v))
    = Inr (fold (\<lambda>u. u) [\<lambda>(p, sig). (vf_proof v, sig), \<lambda>(p, sig). (p, vf_signature v)] (0, 0))"
    unfolding optimized_item_def
    by (rule get_tuple_reads[OF fits_optimized_item[unfolded optimized_item_def]]) (simp add: reads_rules)
  then show ?thesis by (simp add: pbft_vote_from_optimized_def del: encode.simps)
qed

lemma index_encoded:
  assumes "fits (Items ts)" and "cache_ok ts c" and "i < length ts" and "length ts < 1000"
  obtains c' where "rlp_index (encode (Items ts)) i c = Inr (encode (ts ! i), c')" and "cache_ok ts c'"
  using rlp_index_step[OF assms(1,2), of i] assms(3,4) by (auto simp: item_at_def)

lemma cache_init_ok: "cache_ok ts cache_init"
  by (simp add: cache_ok_def cache_init_def)

lemma itemCount_items: "fits (Items ts) \<Longrightarrow> itemCount (encode (Items ts)) = Inr (length ts)"
  by (rule itemCount_encode)

lemma bundle_decoded:
  assumes "votes \<noteq> []" and "length votes \<le> 2 ^ 20"
    and "\<And>v. v \<in> set votes \<Longrightarrow> vf_block_hash v = vf_block_hash (last votes) \<and> vf_period v = vf_period (last votes)
      \<and> vf_round v = vf_round (last votes) \<and> vf_step v = vf_step (last votes)"
  shows "decodePbftVotesBundleRlp (encode (bundle_item votes)) = Inr (map (\<lambda>v. v\<lparr>vf_weight := None\<rparr>) votes)"
proof -
  let ?v = "last votes"
  define ts where "ts = [hash_item (vf_block_hash ?v), int_item (unat (vf_period ?v)), int_item (unat (vf_round ?v)),
    int_item (unat (vf_step ?v)), Items (map optimized_item votes)]"
  have item: "bundle_item votes = Items ts" by (simp add: bundle_item_def ts_def Let_def)
  have fits: "fits (Items ts)" using fits_bundle_item[OF assms(2)] item by simp
  have fits4: "fits (Items (map optimized_item votes))" by (rule fits_items[OF fits]) (simp add: ts_def)
  have len: "length ts = 5" by (simp add: ts_def)
  obtain c0 where c0: "rlp_index (encode (Items ts)) 0 cache_init = Inr (encode (ts ! 0), c0)" "cache_ok ts c0"
    by (rule index_encoded[OF fits cache_init_ok, of 0]) (use len in simp_all)
  obtain c1 where c1: "rlp_index (encode (Items ts)) 1 c0 = Inr (encode (ts ! 1), c1)" "cache_ok ts c1"
    by (rule index_encoded[OF fits c0(2), of 1]) (use len in simp_all)
  obtain c2 where c2: "rlp_index (encode (Items ts)) 2 c1 = Inr (encode (ts ! 2), c2)" "cache_ok ts c2"
    by (rule index_encoded[OF fits c1(2), of 2]) (use len in simp_all)
  obtain c3 where c3: "rlp_index (encode (Items ts)) 3 c2 = Inr (encode (ts ! 3), c3)" "cache_ok ts c3"
    by (rule index_encoded[OF fits c2(2), of 3]) (use len in simp_all)
  obtain c4 where c4: "rlp_index (encode (Items ts)) 4 c3 = Inr (encode (ts ! 4), c4)" "cache_ok ts c4"
    by (rule index_encoded[OF fits c3(2), of 4]) (use len in simp_all)
  obtain c5 where c5: "rlp_index (encode (Items ts)) 4 c4 = Inr (encode (ts ! 4), c5)"
    by (rule index_encoded[OF fits c4(2), of 4]) (use len in simp_all)
  have nth: "ts ! 0 = hash_item (vf_block_hash ?v)" "ts ! 1 = int_item (unat (vf_period ?v))"
    "ts ! 2 = int_item (unat (vf_round ?v))" "ts ! 3 = int_item (unat (vf_step ?v))"
    "ts ! 4 = Items (map optimized_item votes)" by (simp_all add: ts_def)
  have "get_seq (pbft_vote_from_optimized (vf_block_hash ?v) (vf_period ?v) (vf_round ?v) (vf_step ?v)) VeryStrict
      (encode (Items (map optimized_item votes))) = Inr (map (\<lambda>v. v\<lparr>vf_weight := None\<rparr>) votes)"
    using assms(3) by (intro get_seq_items[OF fits4]) (auto simp: optimized_decoded)
  then show ?thesis
    unfolding item decodePbftVotesBundleRlp_def
    using c0(1) c1(1) c2(1) c3(1) c4(1) c5 itemCount_encode[OF fits] itemCount_encode[OF fits4] len nth
    by (simp add: toHash_encode toInt_encode del: encode.simps)
qed

section \<open>Blocks\<close>

definition vdf_item :: "vdf_data \<Rightarrow> rlp_item" where
  "vdf_item v = Items [hash_item (vdf_proof v), Data (vdf_sol_first v), Data (vdf_sol_second v),
     int_item (unat (vdf_difficulty v))]"

definition dag_block_item :: "dag_block_data \<Rightarrow> rlp_item" where
  "dag_block_item b = Items [hash_item (db_pivot b), int_item (unat (db_level b)), int_item (unat (db_timestamp b)),
     Data (encode (vdf_item (db_vdf b))), Items (map hash_item (db_tips b)), Items (map hash_item (db_trxs b)),
     hash_item (db_sig b), int_item (unat (db_gas_estimation b))]"

lemma writes_hashes: "fits (Items (map (hash_item :: h256 \<Rightarrow> rlp_item) hs)) \<Longrightarrow>
    put_seq put_hash hs r = write_item (Items (map hash_item hs)) r"
  by (rule h256_seq_codec.put_item) (simp_all add: list_all_iff)

lemma reads_hashes: "fits (Items (map (hash_item :: h256 \<Rightarrow> rlp_item) hs)) \<Longrightarrow>
    reads (field (get_seq toHash) upd) s (Items (map hash_item hs)) u \<longleftrightarrow> u = upd hs"
  by (rule h256_seq_codec.reads_field) (simp_all add: list_all_iff)

lemma dag_block_parts:
  assumes "fits (dag_block_item b)"
  shows "fits (vdf_item (db_vdf b))" "fits (Data (encode (vdf_item (db_vdf b))))"
    "fits (Items (map hash_item (db_tips b)))" "fits (Items (map hash_item (db_trxs b)))"
    "fits (Data (vdf_sol_first (db_vdf b)))" "fits (Data (vdf_sol_second (db_vdf b)))"
proof -
  show d: "fits (Data (encode (vdf_item (db_vdf b))))" and "fits (Items (map hash_item (db_tips b)))"
    "fits (Items (map hash_item (db_trxs b)))"
    using assms unfolding dag_block_item_def by (auto elim!: fits_items)
  show v: "fits (vdf_item (db_vdf b))"
    using d length_body[of "Data (encode (vdf_item (db_vdf b)))"] by (simp add: fits_def del: encode.simps)
  show "fits (Data (vdf_sol_first (db_vdf b)))" "fits (Data (vdf_sol_second (db_vdf b)))"
    using v unfolding vdf_item_def by (auto elim!: fits_items)
qed

lemma vdf_encoded: "fits (vdf_item v) \<Longrightarrow> vdf_rlp v = Inr (encode (vdf_item v))"
  unfolding vdf_rlp_def
  by (rule rlp_enc_item, unfold vdf_item_def, rule put_tuple_item) (simp_all add: writes)

lemma vdf_decoded:
  assumes "fits (vdf_item v)"
  shows "vdf_from_bytes (encode (vdf_item v)) = Inr v"
proof -
  have "fits (Data (vdf_sol_first v))" "fits (Data (vdf_sol_second v))"
    using assms unfolding vdf_item_def by (auto elim!: fits_items)
  then have "get_tuple
      [field toHash (\<lambda>x. vdf_proof_update (\<lambda>_. x)), field toBytes (\<lambda>x. vdf_sol_first_update (\<lambda>_. x)),
       field toBytes (\<lambda>x. vdf_sol_second_update (\<lambda>_. x)), field toInt (\<lambda>x. vdf_difficulty_update (\<lambda>_. x))]
      vdf_init VeryStrict (encode (vdf_item v))
    = Inr (fold (\<lambda>u. u) [vdf_proof_update (\<lambda>_. vdf_proof v), vdf_sol_first_update (\<lambda>_. vdf_sol_first v),
       vdf_sol_second_update (\<lambda>_. vdf_sol_second v), vdf_difficulty_update (\<lambda>_. vdf_difficulty v)] vdf_init)"
    using assms unfolding vdf_item_def by (intro get_tuple_reads) (simp_all add: reads_rules)
  then show ?thesis using RLP_encode[OF assms] by (simp add: vdf_from_bytes_def vdf_init_def)
qed

lemma dag_block_encoded:
  assumes "fits (dag_block_item b)"
  shows "dag_block_rlp True True b = Inr (encode (dag_block_item b))"
proof -
  note parts = dag_block_parts[OF assms]
  have "rlp_enc (put_tuple [put_hash (db_pivot b), put_int (db_level b), put_int (db_timestamp b),
      put_bytes (encode (vdf_item (db_vdf b))), put_seq put_hash (db_tips b), put_seq put_hash (db_trxs b),
      put_hash (db_sig b), put_int (db_gas_estimation b)]) = Inr (encode (dag_block_item b))"
    by (rule rlp_enc_item[OF _ assms], unfold dag_block_item_def, rule put_tuple_item)
      (simp add: writes writes_hashes[OF parts(3)] writes_hashes[OF parts(4)] del: write_item.simps)
  then show ?thesis by (simp add: dag_block_rlp_def vdf_encoded[OF parts(1)])
qed

lemma dag_block_decoded:
  assumes "fits (dag_block_item b)"
  shows "dag_block_from_rlp (encode (dag_block_item b)) = Inr b"
proof -
  note parts = dag_block_parts[OF assms]
  let ?gs = "[field toHash (\<lambda>x (v, b). (v, b\<lparr>db_pivot := x\<rparr>)), field toInt (\<lambda>x (v, b). (v, b\<lparr>db_level := x\<rparr>)),
    field toInt (\<lambda>x (v, b). (v, b\<lparr>db_timestamp := x\<rparr>)), field toBytes (\<lambda>x (v, b). (x, b)),
    field (get_seq toHash) (\<lambda>x (v, b). (v, b\<lparr>db_tips := x\<rparr>)), field (get_seq toHash) (\<lambda>x (v, b). (v, b\<lparr>db_trxs := x\<rparr>)),
    field toHash (\<lambda>x (v, b). (v, b\<lparr>db_sig := x\<rparr>)), field toInt (\<lambda>x (v, b). (v, b\<lparr>db_gas_estimation := x\<rparr>))]"
  let ?us = "[\<lambda>(v, c). (v, c\<lparr>db_pivot := db_pivot b\<rparr>), \<lambda>(v, c). (v, c\<lparr>db_level := db_level b\<rparr>),
    \<lambda>(v, c). (v, c\<lparr>db_timestamp := db_timestamp b\<rparr>), \<lambda>(v, c). (encode (vdf_item (db_vdf b)), c),
    \<lambda>(v, c). (v, c\<lparr>db_tips := db_tips b\<rparr>), \<lambda>(v, c). (v, c\<lparr>db_trxs := db_trxs b\<rparr>),
    \<lambda>(v, c). (v, c\<lparr>db_sig := db_sig b\<rparr>), \<lambda>(v, c). (v, c\<lparr>db_gas_estimation := db_gas_estimation b\<rparr>)]"
  have "get_tuple ?gs ([], dag_block_init) VeryStrict (encode (dag_block_item b)) = Inr (fold (\<lambda>u. u) ?us ([], dag_block_init))"
    unfolding dag_block_item_def
    by (rule get_tuple_reads[OF assms[unfolded dag_block_item_def]])
      (simp add: reads_rules parts(2) reads_hashes[OF parts(3)] reads_hashes[OF parts(4)])
  then show ?thesis
    unfolding dag_block_from_rlp_def by (simp add: vdf_decoded[OF parts(1)] dag_block_init_def del: encode.simps)
qed

lemma dag_block_extract:
  assumes "fits (dag_block_item b)"
  shows "extract_dag_level_from_rlp (encode (dag_block_item b)) = Inr (db_level b)"
    and "extract_signature_from_rlp (encode (dag_block_item b)) = Inr (db_sig b)"
proof -
  obtain ts where ts: "dag_block_item b = Items ts" "length ts = 8" "ts ! 1 = int_item (unat (db_level b))"
    "ts ! 6 = hash_item (db_sig b)" by (simp add: dag_block_item_def)
  have fits: "fits (Items ts)" using assms ts(1) by simp
  obtain c where c: "rlp_index (encode (Items ts)) 1 cache_init = Inr (encode (ts ! 1), c)"
    by (rule index_encoded[OF fits cache_init_ok, of 1]) (use ts(2) in simp_all)
  obtain c' where c': "rlp_index (encode (Items ts)) 6 cache_init = Inr (encode (ts ! 6), c')"
    by (rule index_encoded[OF fits cache_init_ok, of 6]) (use ts(2) in simp_all)
  show "extract_dag_level_from_rlp (encode (dag_block_item b)) = Inr (db_level b)"
    "extract_signature_from_rlp (encode (dag_block_item b)) = Inr (db_sig b)"
    using c[unfolded ts(3)] c'[unfolded ts(4)] unfolding ts(1)
    by (simp_all add: extract_dag_level_from_rlp_def extract_signature_from_rlp_def
      toInt_encode toHash_encode del: encode.simps)
qed

section \<open>Pillar votes\<close>

definition pillar_vote_item :: "pillar_vote_data \<Rightarrow> rlp_item" where
  "pillar_vote_item v = Items [int_item (unat (pv_period v)), hash_item (pv_block_hash v), hash_item (pv_signature v)]"

lemma fits_pillar_vote_item: "fits (pillar_vote_item v)"
  unfolding pillar_vote_item_def
  using length_int_item[of "pv_period v"] length_hash_item[of "pv_block_hash v"] length_hash_item[of "pv_signature v"]
  by (intro fits_items_sum) simp

lemma pillar_vote_roundtrip:
  "pillar_vote_rlp v = Inr (encode (pillar_vote_item v))" "pillar_vote_from_bytes (encode (pillar_vote_item v)) = Inr v"
proof -
  show "pillar_vote_rlp v = Inr (encode (pillar_vote_item v))"
    unfolding pillar_vote_rlp_def
    by (rule rlp_enc_item[OF _ fits_pillar_vote_item], unfold pillar_vote_item_def, rule put_tuple_item) (simp add: writes)
  have "pillar_vote_from_rlp (encode (pillar_vote_item v))
      = Inr (fold (\<lambda>u. u) [pv_period_update (\<lambda>_. pv_period v), pv_block_hash_update (\<lambda>_. pv_block_hash v),
          pv_signature_update (\<lambda>_. pv_signature v)] \<lparr>pv_period = 0, pv_block_hash = 0, pv_signature = 0\<rparr>)"
    unfolding pillar_vote_from_rlp_def pillar_vote_item_def
    by (rule get_tuple_reads[OF fits_pillar_vote_item[unfolded pillar_vote_item_def]]) (simp add: reads_rules)
  then show "pillar_vote_from_bytes (encode (pillar_vote_item v)) = Inr v"
    by (simp add: pillar_vote_from_bytes_def RLP_encode[OF fits_pillar_vote_item])
qed

section \<open>Properties\<close>

text \<open>C37: A vote encoded with signature and weight decodes to the same vote, with one exception: a weight that is present
  and zero is read back as absent, because an empty item stands for both.\<close>

theorem pbft_vote_roundtrip:
  "\<exists>b. pbft_vote_rlp True True v = Inr b
     \<and> pbft_vote_from_bytes b = Inr (if vf_weight v = Some 0 then v\<lparr>vf_weight := None\<rparr> else v)"
  by (simp add: pbft_vote_encoded pbft_vote_from_bytes_def RLP_encode[OF fits_pbft_vote_item] pbft_vote_decoded
      del: encode.simps)

text \<open>C36: A nonempty bundle of votes that agree on block, period, round and step encodes without failure, and decoding it
  gives the same votes in the same order, without their weights.\<close>

theorem votes_bundle_roundtrip:
  assumes "votes \<noteq> []" and "length votes \<le> 2 ^ 20"
    and "\<forall>v \<in> set votes. vf_block_hash v = vf_block_hash (last votes) \<and> vf_period v = vf_period (last votes)
      \<and> vf_round v = vf_round (last votes) \<and> vf_step v = vf_step (last votes)"
  shows "\<exists>b. encodePbftVotesBundleRlp votes = Inr b
    \<and> decodePbftVotesBundleRlp b = Inr (map (\<lambda>v. v\<lparr>vf_weight := None\<rparr>) votes)"
proof -
  have "decodePbftVotesBundleRlp (encode (bundle_item votes)) = Inr (map (\<lambda>v. v\<lparr>vf_weight := None\<rparr>) votes)"
    by (rule bundle_decoded[OF assms(1,2)]) (use assms(3) in blast)
  then show ?thesis using bundle_encoded[OF assms(1,2)] by (simp del: encode.simps)
qed

definition sample_vote :: pbft_vote_data where
  "sample_vote = \<lparr>vf_block_hash = 7, vf_period = 10, vf_round = 1, vf_step = 3, vf_proof = 5, vf_signature = 6,
     vf_weight = Some 4\<rparr>"

theorem votes_bundle_roundtrip_witness:
  "\<exists>b. encodePbftVotesBundleRlp [sample_vote, sample_vote\<lparr>vf_signature := 9\<rparr>] = Inr b
    \<and> decodePbftVotesBundleRlp b
        = Inr [sample_vote\<lparr>vf_weight := None\<rparr>, sample_vote\<lparr>vf_signature := 9, vf_weight := None\<rparr>]"
  using votes_bundle_roundtrip[of "[sample_vote, sample_vote\<lparr>vf_signature := 9\<rparr>]"] by (simp add: sample_vote_def)

text \<open>C39: The decoder of a votes bundle, which reads packets of other nodes, fails an assertion on every well formed list that does not
  have five items; it does not report an error its caller could handle.\<close>

theorem votes_bundle_wrong_size_asserts:
  assumes "fits (Items ts)" and "length ts \<noteq> 5"
  shows "RLP (encode (Items ts)) VeryStrict = Inr (encode (Items ts))
    \<and> decodePbftVotesBundleRlp (encode (Items ts)) = Inl AssertionFailed"
  using RLP_encode[OF assms(1)] itemCount_encode[OF assms(1)] assms(2)
  by (simp add: decodePbftVotesBundleRlp_def del: encode.simps)

theorem votes_bundle_wrong_size_asserts_witness:
  "RLP [0xc0] VeryStrict = Inr [0xc0] \<and> decodePbftVotesBundleRlp [0xc0] = Inl AssertionFailed"
proof -
  have "encode (Items []) = [0xc0]" by (simp add: size_prefix_def)
  moreover have "fits (Items [])" by (simp add: fits_def size_prefix_def)
  ultimately show ?thesis using votes_bundle_wrong_size_asserts[of "[]"] by (simp del: encode.simps)
qed

lemma sample_block_fits: "fits (dag_block_item (dag_block_init\<lparr>db_level := 3, db_tips := [1, 2]\<rparr>))"
proof -
  let ?b = "dag_block_init\<lparr>db_level := 3, db_tips := [1, 2]\<rparr>"
  have h: "length (encode (hash_item w)) \<le> 85" for w :: h256 by (rule length_hash_item) simp
  have i: "length (encode (int_item (unat w))) \<le> 13" for w :: u64 by (rule length_int_item) simp
  have v: "length (encode (vdf_item vdf_init)) \<le> 105 + 5"
    unfolding vdf_item_def
    using length_hash_item[of "vdf_proof vdf_init"] length_int_item[of "vdf_difficulty vdf_init"]
    by (intro length_items_le) (simp_all add: vdf_init_def size_prefix_def)
  have d: "length (encode (Data (encode (vdf_item vdf_init)))) \<le> 115"
    using length_encode_data[of "encode (vdf_item vdf_init)"] v by (simp del: encode.simps)
  have t: "length (encode (Items (map hash_item [1::h256, 2]))) \<le> 170 + 5"
    using h[of 1] h[of 2] by (intro length_items_le) simp_all
  have e: "length (encode (Items [])) \<le> 1" by (simp add: size_prefix_def)
  show "fits (dag_block_item ?b)"
    unfolding dag_block_item_def
    using e h[of 0] i[of 3] i[of 0] d t length_hash_item[of "0 :: sig_t"]
    by (intro fits_items_sum) (simp add: dag_block_init_def size_prefix_def del: encode.simps)
qed

text \<open>C38: A dag block decodes to the block that was encoded, and the two fields that are read without decoding the block, its
  level and its signature, are those of the block.\<close>

theorem dag_block_roundtrip:
  assumes "fits (dag_block_item b)"
  shows "\<exists>d. dag_block_rlp True True b = Inr d \<and> dag_block_from_rlp d = Inr b
    \<and> extract_dag_level_from_rlp d = Inr (db_level b) \<and> extract_signature_from_rlp d = Inr (db_sig b)"
  using dag_block_encoded[OF assms] dag_block_decoded[OF assms] dag_block_extract[OF assms] by blast

theorem dag_block_roundtrip_witness:
  "\<exists>d. dag_block_rlp True True (dag_block_init\<lparr>db_level := 3, db_tips := [1, 2]\<rparr>) = Inr d
    \<and> dag_block_from_rlp d = Inr (dag_block_init\<lparr>db_level := 3, db_tips := [1, 2]\<rparr>)
    \<and> extract_dag_level_from_rlp d = Inr 3 \<and> extract_signature_from_rlp d = Inr 0"
  using dag_block_roundtrip[OF sample_block_fits] by (simp add: dag_block_init_def)

end
