(* ===== verification/Packet_Queue.thy ===== *)
theory Packet_Queue
  imports Vote_Codec
begin

text \<open>
  The packet thread pool, \<open>core_libs/network/src/threadpool\<close>: \<open>PacketData\<close>, \<open>PacketsBlockingMask\<close>,
  \<open>PacketsQueue\<close>, \<open>PriorityQueue\<close> and the critical sections of \<open>PacketsThreadPool\<close>. A failed \<open>assert\<close> and an
  exception of the RLP reader are errors. Whether the queue of period data is empty is asked from the PBFT
  manager and is an argument. A packet keeps one RLP view; its index cache does not change what is read.
\<close>

datatype pool_error = PoolAssert | PoolRlp rlp_error

type_synonym 'a pool_result = "pool_error + 'a"

definition pool_bind :: "'a pool_result \<Rightarrow> ('a \<Rightarrow> 'b pool_result) \<Rightarrow> 'b pool_result" where
  "pool_bind x f = (case x of Inl e \<Rightarrow> Inl e | Inr v \<Rightarrow> f v)"

lemma pool_bind_simps [simp]: "pool_bind (Inl e) f = Inl e" "pool_bind (Inr v) f = f v"
  by (simp_all add: pool_bind_def)

lemma pool_bind_Inr [simp]: "pool_bind x f = Inr y \<longleftrightarrow> (\<exists>v. x = Inr v \<and> f v = Inr y)"
  by (cases x) simp_all

definition of_rlp :: "'a rlp_result \<Rightarrow> 'a pool_result" where
  "of_rlp x = (case x of Inl e \<Rightarrow> Inl (PoolRlp e) | Inr v \<Rightarrow> Inr v)"

lemma of_rlp_simps [simp]: "of_rlp (Inl e) = Inl (PoolRlp e)" "of_rlp (Inr v) = Inr v"
  by (simp_all add: of_rlp_def)

definition pool_assert :: "bool \<Rightarrow> unit pool_result" where
  "pool_assert b = (if b then Inr () else Inl PoolAssert)"

lemma pool_assert_Inr [simp]: "pool_assert b = Inr u \<longleftrightarrow> b"
  by (simp add: pool_assert_def)

section \<open>Packets\<close>

text \<open>The enumeration of packet types with its three markers; a peer can also send a number behind the last one.\<close>

datatype packet_type =
    kHighPriorityPackets | kVotePacket | kGetNextVotesSyncPacket | kVotesBundlePacket
  | kMidPriorityPackets | kDagBlockPacket | kDagSyncPacket | kTransactionPacket
  | kLowPriorityPackets | kStatusPacket | kGetPbftSyncPacket | kPbftSyncPacket | kGetDagSyncPacket
  | kPillarVotePacket | kGetPillarVotesBundlePacket | kPillarVotesBundlePacket | kPbftBlocksBundlePacket
  | kOtherPacket u32

datatype packet_priority = High | Mid | Low

type_synonym node_id = "512 word"
type_synonym packet_id = u64

record packet_data =
  pd_id :: packet_id
  pd_type :: packet_type
  pd_priority :: packet_priority
  pd_from :: node_id
  pd_rlp :: bytes

fun getPacketPriority :: "packet_type \<Rightarrow> packet_priority pool_result" where
  "getPacketPriority kVotePacket = Inr High"
| "getPacketPriority kGetNextVotesSyncPacket = Inr High"
| "getPacketPriority kVotesBundlePacket = Inr High"
| "getPacketPriority kDagBlockPacket = Inr Mid"
| "getPacketPriority kDagSyncPacket = Inr Mid"
| "getPacketPriority kTransactionPacket = Inr Mid"
| "getPacketPriority kHighPriorityPackets = Inl PoolAssert"
| "getPacketPriority kMidPriorityPackets = Inl PoolAssert"
| "getPacketPriority kLowPriorityPackets = Inl PoolAssert"
| "getPacketPriority _ = Inr Low"

definition PacketData :: "packet_type \<Rightarrow> node_id \<Rightarrow> bytes \<Rightarrow> packet_data pool_result" where
  "PacketData t node b =
     pool_bind (getPacketPriority t) (\<lambda>prio.
     pool_bind (of_rlp (RLP b VeryStrict)) (\<lambda>r.
     Inr \<lparr>pd_id = 0, pd_type = t, pd_priority = prio, pd_from = node, pd_rlp = r\<rparr>))"

section \<open>The blocking mask\<close>

record packets_blocking_mask =
  hard_blocked_packet_types :: "(packet_type, packet_id list) umap"
  peer_order_blocked_packet_types :: "(packet_type, (node_id, packet_id list) umap) umap"
  processing_dag_levels :: "(u64, packet_id list) omap"
  processing_dag_blocks :: "(sig_t, packet_id) omap"

definition mask_new :: packets_blocking_mask where
  "mask_new = \<lparr>hard_blocked_packet_types = [], peer_order_blocked_packet_types = [], processing_dag_levels = [],
     processing_dag_blocks = []\<rparr>"

definition markPacketAsHardBlocked ::
  "packet_data \<Rightarrow> packet_type \<Rightarrow> packets_blocking_mask \<Rightarrow> packets_blocking_mask pool_result" where
  "markPacketAsHardBlocked p t m =
     (let block = um_get_or [] (hard_blocked_packet_types m) t in
      pool_bind (pool_assert (pd_id p \<notin> set block)) (\<lambda>_.
      Inr (m\<lparr>hard_blocked_packet_types := um_put t (block @ [pd_id p]) (hard_blocked_packet_types m)\<rparr>)))"

definition markPacketAsHardUnblocked ::
  "packet_data \<Rightarrow> packet_type \<Rightarrow> packets_blocking_mask \<Rightarrow> packets_blocking_mask pool_result" where
  "markPacketAsHardUnblocked p t m =
     (case um_find (hard_blocked_packet_types m) t of
        None \<Rightarrow> Inl PoolAssert
      | Some block \<Rightarrow>
          pool_bind (pool_assert (pd_id p \<in> set block)) (\<lambda>_.
          if length block > 1
          then Inr (m\<lparr>hard_blocked_packet_types := um_put t (remove1 (pd_id p) block) (hard_blocked_packet_types m)\<rparr>)
          else Inr (m\<lparr>hard_blocked_packet_types := um_erase t (hard_blocked_packet_types m)\<rparr>)))"

definition markPacketAsPeerOrderBlocked ::
  "packet_data \<Rightarrow> packet_type \<Rightarrow> packets_blocking_mask \<Rightarrow> packets_blocking_mask pool_result" where
  "markPacketAsPeerOrderBlocked p t m =
     (let peers = um_get_or [] (peer_order_blocked_packet_types m) t;
          block = um_get_or [] peers (pd_from p) in
      pool_bind (pool_assert (pd_id p \<notin> set block)) (\<lambda>_.
      Inr (m\<lparr>peer_order_blocked_packet_types :=
        um_put t (um_put (pd_from p) (insort (pd_id p) block) peers) (peer_order_blocked_packet_types m)\<rparr>)))"

definition markPacketAsPeerOrderUnblocked ::
  "packet_data \<Rightarrow> packet_type \<Rightarrow> packets_blocking_mask \<Rightarrow> packets_blocking_mask pool_result" where
  "markPacketAsPeerOrderUnblocked p t m =
     (case um_find (peer_order_blocked_packet_types m) t of
        None \<Rightarrow> Inl PoolAssert
      | Some peers \<Rightarrow> (case um_find peers (pd_from p) of
          None \<Rightarrow> Inl PoolAssert
        | Some block \<Rightarrow>
            pool_bind (pool_assert (pd_id p \<in> set block)) (\<lambda>_.
            let peers' = (if length block > 1 then um_put (pd_from p) (remove1 (pd_id p) block) peers
                          else um_erase (pd_from p) peers) in
            Inr (m\<lparr>peer_order_blocked_packet_types := um_put t peers' (peer_order_blocked_packet_types m)\<rparr>))))"

definition getSmallestDagLevelBeingProcessed :: "packets_blocking_mask \<Rightarrow> u64 option" where
  "getSmallestDagLevelBeingProcessed m =
     (if processing_dag_levels m \<noteq> [] then Some (fst (hd (processing_dag_levels m))) else None)"

definition dagBlockFromDagPacket :: "packet_data \<Rightarrow> bytes pool_result" where
  "dagBlockFromDagPacket p =
     pool_bind (of_rlp (itemCount (pd_rlp p))) (\<lambda>n.
     if n = 8 then Inr (pd_rlp p)
     else if n = 2 then pool_bind (of_rlp (rlp_index (pd_rlp p) 1 cache_init)) (\<lambda>(r, c). Inr r)
     else Inl PoolAssert)"

definition packet_sig :: "packet_data \<Rightarrow> sig_t pool_result" where
  "packet_sig p = pool_bind (dagBlockFromDagPacket p) (\<lambda>r. of_rlp (extract_signature_from_rlp r))"

definition packet_level :: "packet_data \<Rightarrow> u64 pool_result" where
  "packet_level p = pool_bind (dagBlockFromDagPacket p) (\<lambda>r. of_rlp (extract_dag_level_from_rlp r))"

definition setDagBlockBeingProcessed ::
  "packet_data \<Rightarrow> packets_blocking_mask \<Rightarrow> packets_blocking_mask pool_result" where
  "setDagBlockBeingProcessed p m =
     pool_bind (packet_sig p) (\<lambda>sig.
     pool_bind (pool_assert (um_find (processing_dag_blocks m) sig = None)) (\<lambda>_.
     Inr (m\<lparr>processing_dag_blocks := om_put sig (pd_id p) (processing_dag_blocks m)\<rparr>)))"

definition unsetDagBlockBeingProcessed ::
  "packet_data \<Rightarrow> packets_blocking_mask \<Rightarrow> packets_blocking_mask pool_result" where
  "unsetDagBlockBeingProcessed p m =
     pool_bind (packet_sig p) (\<lambda>sig.
     pool_bind (pool_assert (um_find (processing_dag_blocks m) sig \<noteq> None)) (\<lambda>_.
     Inr (m\<lparr>processing_dag_blocks := um_erase sig (processing_dag_blocks m)\<rparr>)))"

definition setDagBlockLevelBeingProcessed ::
  "packet_data \<Rightarrow> packets_blocking_mask \<Rightarrow> packets_blocking_mask pool_result" where
  "setDagBlockLevelBeingProcessed p m =
     pool_bind (packet_level p) (\<lambda>dag_level.
     pool_bind (pool_assert (case getSmallestDagLevelBeingProcessed m of None \<Rightarrow> True | Some l \<Rightarrow> dag_level \<le> l)) (\<lambda>_.
     let block = um_get_or [] (processing_dag_levels m) dag_level in
     pool_bind (pool_assert (pd_id p \<notin> set block)) (\<lambda>_.
     Inr (m\<lparr>processing_dag_levels := om_put dag_level (block @ [pd_id p]) (processing_dag_levels m)\<rparr>))))"

definition unsetDagBlockLevelBeingProcessed ::
  "packet_data \<Rightarrow> packets_blocking_mask \<Rightarrow> packets_blocking_mask pool_result" where
  "unsetDagBlockLevelBeingProcessed p m =
     pool_bind (packet_level p) (\<lambda>dag_level.
     case um_find (processing_dag_levels m) dag_level of
       None \<Rightarrow> Inl PoolAssert
     | Some block \<Rightarrow>
         pool_bind (pool_assert (pd_id p \<in> set block)) (\<lambda>_.
         if length block > 1
         then Inr (m\<lparr>processing_dag_levels := om_put dag_level (remove1 (pd_id p) block) (processing_dag_levels m)\<rparr>)
         else Inr (m\<lparr>processing_dag_levels := um_erase dag_level (processing_dag_levels m)\<rparr>)))"

definition isPacketHardBlocked :: "packets_blocking_mask \<Rightarrow> packet_data \<Rightarrow> bool" where
  "isPacketHardBlocked m p \<longleftrightarrow> um_find (hard_blocked_packet_types m) (pd_type p) \<noteq> None"

definition isDagBlockPacketBlockedBySameDagBlock :: "packets_blocking_mask \<Rightarrow> packet_data \<Rightarrow> bool pool_result" where
  "isDagBlockPacketBlockedBySameDagBlock m p =
     pool_bind (packet_sig p) (\<lambda>sig. Inr (um_find (processing_dag_blocks m) sig \<noteq> None))"

definition isDagBlockPacketBlockedByLevel :: "packets_blocking_mask \<Rightarrow> packet_data \<Rightarrow> bool pool_result" where
  "isDagBlockPacketBlockedByLevel m p =
     (case getSmallestDagLevelBeingProcessed m of
        None \<Rightarrow> Inr False
      | Some l \<Rightarrow> pool_bind (packet_level p) (\<lambda>dag_level. Inr (dag_level > l)))"

definition isPacketPeerOrderBlocked :: "packets_blocking_mask \<Rightarrow> packet_data \<Rightarrow> bool pool_result" where
  "isPacketPeerOrderBlocked m p =
     (case um_find (peer_order_blocked_packet_types m) (pd_type p) of
        None \<Rightarrow> Inr False
      | Some peers \<Rightarrow> (case um_find peers (pd_from p) of
          None \<Rightarrow> Inr False
        | Some block \<Rightarrow>
            if pd_id p > hd block then Inr True
            else pool_bind (pool_assert (pd_id p \<noteq> hd block)) (\<lambda>_. Inr False)))"

definition isPacketBlocked :: "bool \<Rightarrow> packets_blocking_mask \<Rightarrow> packet_data \<Rightarrow> bool pool_result" where
  "isPacketBlocked period_data_queue_empty m p =
     (if isPacketHardBlocked m p then Inr True
      else pool_bind
        (if pd_type p = kDagBlockPacket then
           pool_bind (isDagBlockPacketBlockedByLevel m p) (\<lambda>b.
           if b then Inr True else isDagBlockPacketBlockedBySameDagBlock m p)
         else if pd_type p = kPbftBlocksBundlePacket then Inr (\<not> period_data_queue_empty)
         else Inr False)
        (\<lambda>b. if b then Inr True else isPacketPeerOrderBlocked m p))"

section \<open>The queue of one priority\<close>

type_synonym versioned_packet = "nat \<times> packet_data"

record packets_queue =
  pq_packets :: "versioned_packet list"
  kMaxWorkersCount :: nat
  act_workers_count :: nat
  act_packets_count :: nat

definition packets_queue_new :: packets_queue where
  "packets_queue_new = \<lparr>pq_packets = [], kMaxWorkersCount = 0, act_workers_count = 0, act_packets_count = 0\<rparr>"

definition maxWorkersCountReached :: "packets_queue \<Rightarrow> bool" where
  "maxWorkersCountReached q \<longleftrightarrow> act_workers_count q \<ge> kMaxWorkersCount q"

definition pq_pushBack :: "versioned_packet \<Rightarrow> packets_queue \<Rightarrow> packets_queue" where
  "pq_pushBack p q = q\<lparr>pq_packets := pq_packets q @ [p], act_packets_count := act_packets_count q + 1\<rparr>"

text \<open>The first packet that is not blocked, with the packets in front of it and behind it.\<close>

fun first_unblocked ::
  "bool \<Rightarrow> packets_blocking_mask \<Rightarrow> versioned_packet list
    \<Rightarrow> (versioned_packet list \<times> versioned_packet \<times> versioned_packet list) option pool_result" where
  "first_unblocked e m [] = Inr None"
| "first_unblocked e m (p # ps) =
     pool_bind (isPacketBlocked e m (snd p)) (\<lambda>b.
     if \<not> b then Inr (Some ([], p, ps))
     else pool_bind (first_unblocked e m ps) (\<lambda>r.
       Inr (map_option (\<lambda>(front, x, back). (p # front, x, back)) r)))"

definition pq_pop ::
  "bool \<Rightarrow> packets_blocking_mask \<Rightarrow> packets_queue \<Rightarrow> (versioned_packet option \<times> packets_queue) pool_result" where
  "pq_pop e m q =
     pool_bind (first_unblocked e m (pq_packets q)) (\<lambda>r.
     case r of
       None \<Rightarrow> Inr (None, q)
     | Some (front, p, back) \<Rightarrow>
         pool_bind (pool_assert (act_packets_count q \<noteq> 0)) (\<lambda>_.
         Inr (Some p, q\<lparr>pq_packets := front @ back, act_packets_count := act_packets_count q - 1\<rparr>)))"

definition setMaxWorkersCount :: "nat \<Rightarrow> packets_queue \<Rightarrow> packets_queue" where
  "setMaxWorkersCount n q = q\<lparr>kMaxWorkersCount := n\<rparr>"

definition incrementActWorkersCount :: "packets_queue \<Rightarrow> packets_queue" where
  "incrementActWorkersCount q = q\<lparr>act_workers_count := act_workers_count q + 1\<rparr>"

definition decrementActWorkersCount :: "packets_queue \<Rightarrow> packets_queue pool_result" where
  "decrementActWorkersCount q =
     pool_bind (pool_assert (act_workers_count q > 0)) (\<lambda>_. Inr (q\<lparr>act_workers_count := act_workers_count q - 1\<rparr>))"

definition pq_empty :: "packets_queue \<Rightarrow> bool" where
  "pq_empty q \<longleftrightarrow> act_packets_count q = 0"

definition pq_size :: "packets_queue \<Rightarrow> nat" where
  "pq_size q = act_packets_count q"

definition getActiveWorkersNum :: "packets_queue \<Rightarrow> nat" where
  "getActiveWorkersNum q = act_workers_count q"

section \<open>The three queues\<close>

record priority_queue =
  packets_queues :: "packet_priority \<Rightarrow> packets_queue"
  blocked_packets_mask :: packets_blocking_mask
  MAX_TOTAL_WORKERS_COUNT :: nat
  act_total_workers_count :: nat

definition all_priorities :: "packet_priority list" where
  "all_priorities = [High, Mid, Low]"

definition PriorityQueue :: "nat \<Rightarrow> priority_queue pool_result" where
  "PriorityQueue tp_workers_count =
     pool_bind (pool_assert (tp_workers_count \<ge> 3)) (\<lambda>_.
     let high = max 1 (tp_workers_count * 4 div 10);
         mid = max 1 (tp_workers_count * 4 div 10);
         low = max 1 (tp_workers_count * 3 div 10) in
     pool_bind (pool_assert (high + mid < tp_workers_count)) (\<lambda>_.
     Inr \<lparr>packets_queues = (\<lambda>p. setMaxWorkersCount (case p of High \<Rightarrow> high | Mid \<Rightarrow> mid | Low \<Rightarrow> low) packets_queue_new),
          blocked_packets_mask = mask_new, MAX_TOTAL_WORKERS_COUNT = tp_workers_count, act_total_workers_count = 0\<rparr>))"

definition pr_pushBack :: "versioned_packet \<Rightarrow> priority_queue \<Rightarrow> priority_queue" where
  "pr_pushBack p r =
     (let prio = pd_priority (snd p) in
      r\<lparr>packets_queues := (packets_queues r)(prio := pq_pushBack p (packets_queues r prio))\<rparr>)"

definition canBorrowThread :: "priority_queue \<Rightarrow> bool" where
  "canBorrowThread r \<longleftrightarrow>
     (let reserved = length (filter (\<lambda>p. getActiveWorkersNum (packets_queues r p) = 0) all_priorities) in
      act_total_workers_count r < MAX_TOTAL_WORKERS_COUNT r - reserved)"

text \<open>One pass over the queues: with the limits on, a queue at its limit is skipped and asks for a borrowed thread.\<close>

fun pop_pass ::
  "bool \<Rightarrow> bool \<Rightarrow> packet_priority list \<Rightarrow> bool \<Rightarrow> priority_queue
    \<Rightarrow> (versioned_packet option \<times> bool \<times> priority_queue) pool_result" where
  "pop_pass limits e [] try_borrow r = Inr (None, try_borrow, r)"
| "pop_pass limits e (prio # prios) try_borrow r =
     (let q = packets_queues r prio in
      if pq_empty q then pop_pass limits e prios try_borrow r
      else if limits \<and> maxWorkersCountReached q then pop_pass limits e prios True r
      else pool_bind (pq_pop e (blocked_packets_mask r) q) (\<lambda>(packet, q').
        case packet of
          Some p \<Rightarrow> Inr (Some p, try_borrow, r\<lparr>packets_queues := (packets_queues r)(prio := q')\<rparr>)
        | None \<Rightarrow> pop_pass limits e prios try_borrow r))"

definition pr_pop :: "bool \<Rightarrow> priority_queue \<Rightarrow> (versioned_packet option \<times> priority_queue) pool_result" where
  "pr_pop e r =
     (if act_total_workers_count r \<ge> MAX_TOTAL_WORKERS_COUNT r then Inr (None, r)
      else pool_bind (pop_pass True e all_priorities False r) (\<lambda>(packet, try_borrow, r').
        case packet of
          Some p \<Rightarrow> Inr (Some p, r')
        | None \<Rightarrow>
            if \<not> try_borrow then Inr (None, r')
            else if \<not> canBorrowThread r' then Inr (None, r')
            else pool_bind (pop_pass False e all_priorities False r') (\<lambda>(packet', _, r''). Inr (packet', r''))))"

definition pr_empty :: "priority_queue \<Rightarrow> bool" where
  "pr_empty r \<longleftrightarrow> list_all (\<lambda>p. pq_empty (packets_queues r p)) all_priorities"

fun isNonBlockingPacket :: "packet_type \<Rightarrow> bool" where
  "isNonBlockingPacket kVotePacket = True"
| "isNonBlockingPacket kGetNextVotesSyncPacket = True"
| "isNonBlockingPacket kVotesBundlePacket = True"
| "isNonBlockingPacket kStatusPacket = True"
| "isNonBlockingPacket kPillarVotePacket = True"
| "isNonBlockingPacket _ = False"

definition hard_update ::
  "bool \<Rightarrow> packet_data \<Rightarrow> packet_type \<Rightarrow> packets_blocking_mask \<Rightarrow> packets_blocking_mask pool_result" where
  "hard_update unblock p t m = (if unblock then markPacketAsHardUnblocked p t m else markPacketAsHardBlocked p t m)"

definition order_update ::
  "bool \<Rightarrow> packet_data \<Rightarrow> packet_type \<Rightarrow> packets_blocking_mask \<Rightarrow> packets_blocking_mask pool_result" where
  "order_update unblock p t m =
     (if unblock then markPacketAsPeerOrderUnblocked p t m else markPacketAsPeerOrderBlocked p t m)"

text \<open>The case of the PBFT sync packet falls through to the next one.\<close>

definition updateBlockingDependencies ::
  "bool \<Rightarrow> packet_data \<Rightarrow> packets_blocking_mask \<Rightarrow> (bool \<times> packets_blocking_mask) pool_result" where
  "updateBlockingDependencies unblock p m =
     (case pd_type p of
        kPbftSyncPacket \<Rightarrow>
          pool_bind (hard_update unblock p kPbftBlocksBundlePacket m) (\<lambda>m1.
          pool_bind (hard_update unblock p (pd_type p) m1) (\<lambda>m2. Inr (True, m2)))
      | kGetDagSyncPacket \<Rightarrow> pool_bind (hard_update unblock p (pd_type p) m) (\<lambda>m1. Inr (True, m1))
      | kGetPbftSyncPacket \<Rightarrow> pool_bind (hard_update unblock p (pd_type p) m) (\<lambda>m1. Inr (True, m1))
      | kGetPillarVotesBundlePacket \<Rightarrow> pool_bind (hard_update unblock p (pd_type p) m) (\<lambda>m1. Inr (True, m1))
      | kPillarVotesBundlePacket \<Rightarrow> pool_bind (hard_update unblock p (pd_type p) m) (\<lambda>m1. Inr (True, m1))
      | kPbftBlocksBundlePacket \<Rightarrow> pool_bind (hard_update unblock p (pd_type p) m) (\<lambda>m1. Inr (True, m1))
      | kDagSyncPacket \<Rightarrow>
          pool_bind (hard_update unblock p (pd_type p) m) (\<lambda>m1.
          pool_bind (order_update unblock p kDagBlockPacket m1) (\<lambda>m2. Inr (True, m2)))
      | kTransactionPacket \<Rightarrow> pool_bind (order_update unblock p kDagBlockPacket m) (\<lambda>m1. Inr (True, m1))
      | kDagBlockPacket \<Rightarrow>
          (if unblock then
             pool_bind (unsetDagBlockLevelBeingProcessed p m) (\<lambda>m1.
             pool_bind (unsetDagBlockBeingProcessed p m1) (\<lambda>m2. Inr (True, m2)))
           else
             pool_bind (setDagBlockLevelBeingProcessed p m) (\<lambda>m1.
             pool_bind (setDagBlockBeingProcessed p m1) (\<lambda>m2. Inr (True, m2))))
      | _ \<Rightarrow> Inr (False, m))"

definition updateDependenciesStart :: "packet_data \<Rightarrow> priority_queue \<Rightarrow> priority_queue pool_result" where
  "updateDependenciesStart p r =
     pool_bind (pool_assert (act_total_workers_count r < MAX_TOTAL_WORKERS_COUNT r)) (\<lambda>_.
     pool_bind (updateBlockingDependencies False p (blocked_packets_mask r)) (\<lambda>(_, m).
     Inr (r\<lparr>act_total_workers_count := act_total_workers_count r + 1,
            packets_queues := (packets_queues r)
              (pd_priority p := incrementActWorkersCount (packets_queues r (pd_priority p))),
            blocked_packets_mask := m\<rparr>)))"

text \<open>
  \<open>updateDependenciesFinish\<close> in the three parts other threads can run between: the mask under the lock, then the two
  atomic counters.
\<close>

definition finish_unblock :: "packet_data \<Rightarrow> priority_queue \<Rightarrow> priority_queue pool_result" where
  "finish_unblock p r =
     pool_bind (pool_assert (act_total_workers_count r > 0)) (\<lambda>_.
     if isNonBlockingPacket (pd_type p) then Inr r
     else pool_bind (updateBlockingDependencies True p (blocked_packets_mask r)) (\<lambda>(_, m).
       Inr (r\<lparr>blocked_packets_mask := m\<rparr>)))"

definition finish_total :: "priority_queue \<Rightarrow> priority_queue" where
  "finish_total r = r\<lparr>act_total_workers_count := act_total_workers_count r - 1\<rparr>"

definition finish_queue :: "packet_data \<Rightarrow> priority_queue \<Rightarrow> priority_queue pool_result" where
  "finish_queue p r =
     pool_bind (decrementActWorkersCount (packets_queues r (pd_priority p))) (\<lambda>q.
     Inr (r\<lparr>packets_queues := (packets_queues r)(pd_priority p := q)\<rparr>))"

definition getPrirotityQueueSize :: "packet_priority \<Rightarrow> priority_queue \<Rightarrow> nat" where
  "getPrirotityQueueSize p r = pq_size (packets_queues r p)"

section \<open>The thread pool\<close>

text \<open>What a worker holds between taking a packet and the end of its bookkeeping.\<close>

datatype worker_phase = Processing | Unblocked | TotalDone

record packets_thread_pool =
  tp_stopProcessing :: bool
  tp_packets_count :: u64
  tp_queue :: priority_queue
  tp_workers :: "(packet_data \<times> worker_phase) list"

definition PacketsThreadPool :: "nat \<Rightarrow> packets_thread_pool pool_result" where
  "PacketsThreadPool workers_num =
     pool_bind (PriorityQueue workers_num) (\<lambda>q.
     Inr \<lparr>tp_stopProcessing = False, tp_packets_count = 0, tp_queue = q, tp_workers = []\<rparr>)"

definition tp_push :: "versioned_packet \<Rightarrow> packets_thread_pool \<Rightarrow> packet_id option \<times> packets_thread_pool" where
  "tp_push p st =
     (if tp_stopProcessing st then (None, st)
      else
        let packet_unique_id = tp_packets_count st in
        (Some packet_unique_id,
         st\<lparr>tp_packets_count := tp_packets_count st + 1,
            tp_queue := pr_pushBack (fst p, (snd p)\<lparr>pd_id := packet_unique_id\<rparr>) (tp_queue st)\<rparr>))"

definition tp_stop :: "packets_thread_pool \<Rightarrow> packets_thread_pool" where
  "tp_stop st = st\<lparr>tp_stopProcessing := True\<rparr>"

text \<open>
  The section of \<open>processPacket\<close> under the lock: pop a packet and mark its dependencies, or nothing to do. The stop flag is read
  before the lock is taken, so a packet can still be taken after \<open>stopProcessing\<close>.
\<close>

definition tp_take :: "bool \<Rightarrow> packets_thread_pool \<Rightarrow> packets_thread_pool option pool_result" where
  "tp_take e st =
     pool_bind (pr_pop e (tp_queue st)) (\<lambda>(packet, r).
     case packet of
       None \<Rightarrow> Inr None
     | Some p \<Rightarrow>
         pool_bind (updateDependenciesStart (snd p) r) (\<lambda>r'.
         Inr (Some (st\<lparr>tp_queue := r', tp_workers := tp_workers st @ [(snd p, Processing)]\<rparr>))))"

text \<open>The next part of a worker's \<open>updateDependenciesFinish\<close>.\<close>

definition tp_finish :: "nat \<Rightarrow> packets_thread_pool \<Rightarrow> packets_thread_pool pool_result" where
  "tp_finish i st =
     (case tp_workers st ! i of
        (p, Processing) \<Rightarrow>
          pool_bind (finish_unblock p (tp_queue st)) (\<lambda>r.
          Inr (st\<lparr>tp_queue := r, tp_workers := (tp_workers st)[i := (p, Unblocked)]\<rparr>))
      | (p, Unblocked) \<Rightarrow>
          Inr (st\<lparr>tp_queue := finish_total (tp_queue st), tp_workers := (tp_workers st)[i := (p, TotalDone)]\<rparr>)
      | (p, TotalDone) \<Rightarrow>
          pool_bind (finish_queue p (tp_queue st)) (\<lambda>r.
          Inr (st\<lparr>tp_queue := r, tp_workers := take i (tp_workers st) @ drop (Suc i) (tp_workers st)\<rparr>)))"

definition tp_getQueueSize :: "packets_thread_pool \<Rightarrow> nat \<times> nat \<times> nat" where
  "tp_getQueueSize st =
     (getPrirotityQueueSize High (tp_queue st), getPrirotityQueueSize Mid (tp_queue st), getPrirotityQueueSize Low (tp_queue st))"

end
