(* ===== verification/Blocking_Mask.thy ===== *)
theory Blocking_Mask
  imports Packet_Queue
begin

text \<open>
  The blocking mask of the packet queues. Its three tables of packet ids satisfy one contract; from it follows that marking
  and unmarking packets keeps the mask a description of the set of packets in progress, and that the mask then answers
  whether a packet has to wait exactly as that set says.
\<close>

section \<open>The contract of a blocking table\<close>

text \<open>A table files the ids of the packets that block a key; adding an id twice or removing one that is not there is an error.\<close>

locale blocking_table =
  fixes ids :: "'m \<Rightarrow> 'k \<Rightarrow> packet_id set"
    and add :: "'k \<Rightarrow> packet_id \<Rightarrow> 'm \<Rightarrow> 'm pool_result"
    and remove :: "'k \<Rightarrow> packet_id \<Rightarrow> 'm \<Rightarrow> 'm pool_result"
    and inv :: "'m \<Rightarrow> bool"
  assumes add_new: "inv m \<Longrightarrow> i \<notin> ids m k \<Longrightarrow>
      \<exists>m'. add k i m = Inr m' \<and> inv m' \<and> ids m' = (ids m)(k := insert i (ids m k))"
    and remove_old: "inv m \<Longrightarrow> i \<in> ids m k \<Longrightarrow>
      \<exists>m'. remove k i m = Inr m' \<and> inv m' \<and> ids m' = (ids m)(k := ids m k - {i})"
begin

lemma add_relation:
  assumes "inv m" and "ids m = (\<lambda>k. S `` {k})" and "(k, i) \<notin> S"
  shows "\<exists>m'. add k i m = Inr m' \<and> inv m' \<and> ids m' = (\<lambda>k'. insert (k, i) S `` {k'})"
proof -
  have "(ids m)(k := insert i (ids m k)) = (\<lambda>k'. insert (k, i) S `` {k'})"
    using assms(2) by (auto simp: fun_eq_iff)
  then show ?thesis using add_new[OF assms(1), of i k] assms(2,3) by auto
qed

lemma remove_relation:
  assumes "inv m" and "ids m = (\<lambda>k. S `` {k})" and "(k, i) \<in> S"
  shows "\<exists>m'. remove k i m = Inr m' \<and> inv m' \<and> ids m' = (\<lambda>k'. (S - {(k, i)}) `` {k'})"
proof -
  have "(ids m)(k := ids m k - {i}) = (\<lambda>k'. (S - {(k, i)}) `` {k'})"
    using assms(2) by (auto simp: fun_eq_iff)
  then show ?thesis using remove_old[OF assms(1), of i k] assms(2,3) by auto
qed

end

subsection \<open>The hard blocks\<close>

definition hard_add :: "packet_type \<Rightarrow> packet_id \<Rightarrow> (packet_type, packet_id list) umap \<Rightarrow> (packet_type, packet_id list) umap pool_result" where
  "hard_add t i h =
     pool_bind (pool_assert (i \<notin> set (um_get_or [] h t))) (\<lambda>_. Inr (um_put t (um_get_or [] h t @ [i]) h))"

definition hard_remove :: "packet_type \<Rightarrow> packet_id \<Rightarrow> (packet_type, packet_id list) umap \<Rightarrow> (packet_type, packet_id list) umap pool_result" where
  "hard_remove t i h =
     (case um_find h t of
        None \<Rightarrow> Inl PoolAssert
      | Some block \<Rightarrow>
          pool_bind (pool_assert (i \<in> set block)) (\<lambda>_.
          Inr (if length block > 1 then um_put t (remove1 i block) h else um_erase t h)))"

definition mark_with :: "('f \<Rightarrow> packets_blocking_mask) \<Rightarrow> 'f pool_result \<Rightarrow> packets_blocking_mask pool_result" where
  "mark_with upd x = pool_bind x (\<lambda>f. Inr (upd f))"

lemma mark_with_Inr [simp]: "mark_with upd (Inr f) = Inr (upd f)"
  by (simp add: mark_with_def)

lemma hard_mark:
  "markPacketAsHardBlocked p t m
    = mark_with (\<lambda>h. m\<lparr>hard_blocked_packet_types := h\<rparr>) (hard_add t (pd_id p) (hard_blocked_packet_types m))"
  "markPacketAsHardUnblocked p t m
    = mark_with (\<lambda>h. m\<lparr>hard_blocked_packet_types := h\<rparr>) (hard_remove t (pd_id p) (hard_blocked_packet_types m))"
  by (auto simp: markPacketAsHardBlocked_def markPacketAsHardUnblocked_def hard_add_def hard_remove_def mark_with_def
      pool_bind_def pool_assert_def Let_def split: option.split)

text \<open>No key is kept with an empty list of ids.\<close>

definition blocks_ok :: "('k \<Rightarrow> packet_id list option) \<Rightarrow> bool" where
  "blocks_ok f \<longleftrightarrow> (\<forall>k l. f k = Some l \<longrightarrow> l \<noteq> [] \<and> distinct l)"

definition table_inv :: "('k, packet_id list) umap \<Rightarrow> bool" where
  "table_inv h \<longleftrightarrow> um_inv h \<and> blocks_ok (um_find h)"

lemma blocks_ok_upd: "blocks_ok f \<Longrightarrow> l \<noteq> [] \<Longrightarrow> distinct l \<Longrightarrow> blocks_ok (f(k \<mapsto> l))"
  by (simp add: blocks_ok_def)

lemma blocks_ok_none: "blocks_ok f \<Longrightarrow> blocks_ok (f(k := None))"
  by (simp add: blocks_ok_def)

lemma blocks_okD: "blocks_ok f \<Longrightarrow> f k = Some l \<Longrightarrow> l \<noteq> [] \<and> distinct l"
  by (simp add: blocks_ok_def)

definition table_ids :: "('k, packet_id list) umap \<Rightarrow> 'k \<Rightarrow> packet_id set" where
  "table_ids h k = set (um_get_or [] h k)"

lemma table_find: "um_find h k = None \<longleftrightarrow> table_ids h k = {}" if "table_inv h"
  using that by (cases "um_find h k") (auto simp: table_inv_def table_ids_def um_get_or_def dest: blocks_okD)

lemma remove1_short: "i \<in> set l \<Longrightarrow> \<not> 1 < length l \<Longrightarrow> l = [i]"
  by (cases l) auto

lemma remove1_long: "distinct l \<Longrightarrow> 1 < length l \<Longrightarrow> remove1 i l \<noteq> []"
  by (cases l) auto

lemma table_put:
  assumes "table_inv h" and "l \<noteq> []" and "distinct l"
  shows "table_inv (um_put k l h)" and "table_ids (um_put k l h) = (table_ids h)(k := set l)"
  using assms by (simp_all add: table_inv_def table_ids_def um_get_or_def fun_eq_iff blocks_ok_upd)

lemma table_erase:
  assumes "table_inv h"
  shows "table_inv (um_erase k h)" and "table_ids (um_erase k h) = (table_ids h)(k := {})"
  using assms by (simp_all add: table_inv_def table_ids_def um_get_or_def fun_eq_iff blocks_ok_none)

lemma table_distinct: "table_inv h \<Longrightarrow> distinct (um_get_or [] h k)"
  by (cases "um_find h k") (auto simp: table_inv_def um_get_or_def dest: blocks_okD)

lemma table_member:
  assumes "table_inv h" and "i \<in> table_ids h k"
  obtains l where "um_find h k = Some l" "table_ids h k = set l" "i \<in> set l" "distinct l"
  using assms by (cases "um_find h k") (auto simp: table_inv_def table_ids_def um_get_or_def dest: blocks_okD)

interpretation hard: blocking_table table_ids hard_add hard_remove table_inv
proof
  fix m :: "(packet_type, packet_id list) umap" and i k
  assume inv: "table_inv m"
  show "\<exists>m'. hard_add k i m = Inr m' \<and> table_inv m' \<and> table_ids m' = (table_ids m)(k := insert i (table_ids m k))"
    if "i \<notin> table_ids m k"
    using that table_put[OF inv, of "um_get_or [] m k @ [i]" k] table_distinct[OF inv, of k]
    by (simp add: hard_add_def table_ids_def pool_assert_def)
  show "\<exists>m'. hard_remove k i m = Inr m' \<and> table_inv m' \<and> table_ids m' = (table_ids m)(k := table_ids m k - {i})"
    if mem: "i \<in> table_ids m k"
  proof -
    obtain l where l: "um_find m k = Some l" "table_ids m k = set l" "i \<in> set l" "distinct l"
      by (rule table_member[OF inv mem])
    show ?thesis
    proof (cases "1 < length l")
      case True
      then show ?thesis
        using l table_put[OF inv remove1_long[OF l(4) True, of i], of k] by (simp add: hard_remove_def pool_assert_def)
    next
      case False
      then have "l = [i]" by (rule remove1_short[OF l(3)])
      then show ?thesis using l table_erase[OF inv, of k] by (simp add: hard_remove_def pool_assert_def)
    qed
  qed
qed

subsection \<open>The levels in progress\<close>

definition level_add :: "u64 \<Rightarrow> packet_id \<Rightarrow> (u64, packet_id list) omap \<Rightarrow> (u64, packet_id list) omap pool_result" where
  "level_add l i h =
     pool_bind (pool_assert (i \<notin> set (um_get_or [] h l))) (\<lambda>_. Inr (om_put l (um_get_or [] h l @ [i]) h))"

definition level_remove :: "u64 \<Rightarrow> packet_id \<Rightarrow> (u64, packet_id list) omap \<Rightarrow> (u64, packet_id list) omap pool_result" where
  "level_remove l i h =
     (case um_find h l of
        None \<Rightarrow> Inl PoolAssert
      | Some block \<Rightarrow>
          pool_bind (pool_assert (i \<in> set block)) (\<lambda>_.
          Inr (if length block > 1 then om_put l (remove1 i block) h else um_erase l h)))"

definition level_inv :: "(u64, packet_id list) omap \<Rightarrow> bool" where
  "level_inv h \<longleftrightarrow> om_inv h \<and> blocks_ok (um_find h)"

lemma level_table: "level_inv h \<Longrightarrow> table_inv h"
  by (simp add: level_inv_def table_inv_def om_inv_distinct)

lemma level_put:
  assumes "level_inv h" and "l \<noteq> []" and "distinct l"
  shows "level_inv (om_put k l h)" and "table_ids (om_put k l h) = (table_ids h)(k := set l)"
  using assms by (simp_all add: level_inv_def table_ids_def um_get_or_def fun_eq_iff blocks_ok_upd)

lemma level_erase:
  assumes "level_inv h"
  shows "level_inv (um_erase k h)" and "table_ids (um_erase k h) = (table_ids h)(k := {})"
  using assms by (simp_all add: level_inv_def table_ids_def um_get_or_def fun_eq_iff blocks_ok_none)

interpretation level: blocking_table table_ids level_add level_remove level_inv
proof
  fix m :: "(u64, packet_id list) omap" and i k
  assume inv: "level_inv m"
  note tab = level_table[OF inv]
  show "\<exists>m'. level_add k i m = Inr m' \<and> level_inv m' \<and> table_ids m' = (table_ids m)(k := insert i (table_ids m k))"
    if "i \<notin> table_ids m k"
    using that level_put[OF inv, of "um_get_or [] m k @ [i]" k] table_distinct[OF tab, of k]
    by (simp add: level_add_def table_ids_def pool_assert_def)
  show "\<exists>m'. level_remove k i m = Inr m' \<and> level_inv m' \<and> table_ids m' = (table_ids m)(k := table_ids m k - {i})"
    if mem: "i \<in> table_ids m k"
  proof -
    obtain l where l: "um_find m k = Some l" "table_ids m k = set l" "i \<in> set l" "distinct l"
      by (rule table_member[OF tab mem])
    show ?thesis
    proof (cases "1 < length l")
      case True
      then show ?thesis
        using l level_put[OF inv remove1_long[OF l(4) True, of i], of k] by (simp add: level_remove_def pool_assert_def)
    next
      case False
      then have "l = [i]" by (rule remove1_short[OF l(3)])
      then show ?thesis using l level_erase[OF inv, of k] by (simp add: level_remove_def pool_assert_def)
    qed
  qed
qed

lemma level_mark:
  assumes "packet_level p = Inr l"
  shows "(case getSmallestDagLevelBeingProcessed m of None \<Rightarrow> True | Some s \<Rightarrow> l \<le> s) \<Longrightarrow>
      setDagBlockLevelBeingProcessed p m
      = mark_with (\<lambda>h. m\<lparr>processing_dag_levels := h\<rparr>) (level_add l (pd_id p) (processing_dag_levels m))"
    and "unsetDagBlockLevelBeingProcessed p m
      = mark_with (\<lambda>h. m\<lparr>processing_dag_levels := h\<rparr>) (level_remove l (pd_id p) (processing_dag_levels m))"
  using assms
  by (auto simp: setDagBlockLevelBeingProcessed_def unsetDagBlockLevelBeingProcessed_def level_add_def level_remove_def
      mark_with_def pool_bind_def pool_assert_def Let_def split: option.split)

subsection \<open>The order of one peer's packets\<close>

type_synonym peer_table = "(packet_type, (node_id, packet_id list) umap) umap"

definition order_add :: "packet_type \<times> node_id \<Rightarrow> packet_id \<Rightarrow> peer_table \<Rightarrow> peer_table pool_result" where
  "order_add k i h =
     (let peers = um_get_or [] h (fst k); block = um_get_or [] peers (snd k) in
      pool_bind (pool_assert (i \<notin> set block)) (\<lambda>_. Inr (um_put (fst k) (um_put (snd k) (insort i block) peers) h)))"

definition order_remove :: "packet_type \<times> node_id \<Rightarrow> packet_id \<Rightarrow> peer_table \<Rightarrow> peer_table pool_result" where
  "order_remove k i h =
     (case um_find h (fst k) of
        None \<Rightarrow> Inl PoolAssert
      | Some peers \<Rightarrow> (case um_find peers (snd k) of
          None \<Rightarrow> Inl PoolAssert
        | Some block \<Rightarrow>
            pool_bind (pool_assert (i \<in> set block)) (\<lambda>_.
            Inr (um_put (fst k) (if length block > 1 then um_put (snd k) (remove1 i block) peers
                                 else um_erase (snd k) peers) h))))"

definition order_ids :: "peer_table \<Rightarrow> packet_type \<times> node_id \<Rightarrow> packet_id set" where
  "order_ids h k = table_ids (um_get_or [] h (fst k)) (snd k)"

definition peers_inv :: "(node_id, packet_id list) umap \<Rightarrow> bool" where
  "peers_inv ps \<longleftrightarrow> table_inv ps \<and> (\<forall>n l. um_find ps n = Some l \<longrightarrow> sorted l)"

definition order_inv :: "peer_table \<Rightarrow> bool" where
  "order_inv h \<longleftrightarrow> (\<forall>t ps. um_find h t = Some ps \<longrightarrow> peers_inv ps)"

lemma order_peers: "order_inv h \<Longrightarrow> peers_inv (um_get_or [] h t)"
  by (cases "um_find h t") (simp_all add: order_inv_def um_get_or_def peers_inv_def table_inv_def blocks_ok_def)

lemma peers_put:
  assumes "peers_inv ps" and "l \<noteq> []" and "distinct l" and "sorted l"
  shows "peers_inv (um_put n l ps)" and "table_ids (um_put n l ps) = (table_ids ps)(n := set l)"
  using assms table_put[of ps l n] by (simp_all add: peers_inv_def)

lemma peers_erase:
  assumes "peers_inv ps"
  shows "peers_inv (um_erase n ps)" and "table_ids (um_erase n ps) = (table_ids ps)(n := {})"
  using assms table_erase[of ps n] by (simp_all add: peers_inv_def)

lemma peers_add:
  assumes "peers_inv ps" and "i \<notin> table_ids ps n"
  shows "peers_inv (um_put n (insort i (um_get_or [] ps n)) ps)"
    and "table_ids (um_put n (insort i (um_get_or [] ps n)) ps) = (table_ids ps)(n := insert i (table_ids ps n))"
proof -
  have "sorted (um_get_or [] ps n)" "distinct (um_get_or [] ps n)"
    using assms(1) table_distinct[of ps n] by (cases "um_find ps n"; simp add: peers_inv_def um_get_or_def)+
  then have l: "insort i (um_get_or [] ps n) \<noteq> []" "distinct (insort i (um_get_or [] ps n))"
    "sorted (insort i (um_get_or [] ps n))"
    using assms(2) by (simp_all add: table_ids_def sorted_insort distinct_insort)
  show "peers_inv (um_put n (insort i (um_get_or [] ps n)) ps)"
    "table_ids (um_put n (insort i (um_get_or [] ps n)) ps) = (table_ids ps)(n := insert i (table_ids ps n))"
    using peers_put[OF assms(1) l, of n] by (simp_all add: table_ids_def set_insort_key)
qed

lemma peers_remove:
  assumes "peers_inv ps" and "um_find ps n = Some l" and "i \<in> set l"
  defines "ps' \<equiv> (if length l > 1 then um_put n (remove1 i l) ps else um_erase n ps)"
  shows "peers_inv ps'" and "table_ids ps' = (table_ids ps)(n := table_ids ps n - {i})"
proof -
  have l: "distinct l" "sorted l" "table_ids ps n = set l"
    using assms(1,2) blocks_okD[of "um_find ps" n l]
    by (simp_all add: peers_inv_def table_inv_def table_ids_def um_get_or_def)
  have "peers_inv ps' \<and> table_ids ps' = (table_ids ps)(n := table_ids ps n - {i})"
  proof (cases "1 < length l")
    case True
    from peers_put[OF assms(1) remove1_long[OF l(1) True] distinct_remove1[OF l(1)] sorted_remove1[OF l(2)], of n i]
    show ?thesis using True l by (simp add: ps'_def)
  next
    case False
    then have "l = [i]" by (rule remove1_short[OF assms(3)])
    then show ?thesis using peers_erase[OF assms(1), of n] l(3) by (simp add: ps'_def)
  qed
  then show "peers_inv ps'" "table_ids ps' = (table_ids ps)(n := table_ids ps n - {i})" by blast+
qed

interpretation order: blocking_table order_ids order_add order_remove order_inv
proof
  fix m :: peer_table and i and k :: "packet_type \<times> node_id"
  assume inv: "order_inv m"
  note ps = order_peers[OF inv, of "fst k"]
  show "\<exists>m'. order_add k i m = Inr m' \<and> order_inv m' \<and> order_ids m' = (order_ids m)(k := insert i (order_ids m k))"
    if "i \<notin> order_ids m k"
  proof -
    have "i \<notin> table_ids (um_get_or [] m (fst k)) (snd k)" using that by (simp add: order_ids_def)
    note add = peers_add[OF ps this]
    have "order_ids (um_put (fst k) (um_put (snd k) (insort i (um_get_or [] (um_get_or [] m (fst k)) (snd k)))
        (um_get_or [] m (fst k))) m) = (order_ids m)(k := insert i (order_ids m k))"
      using add(2) by (auto simp: order_ids_def um_get_or_def fun_eq_iff prod_eq_iff)
    then show ?thesis
      using that inv add(1) by (auto simp: order_add_def order_ids_def table_ids_def order_inv_def pool_assert_def Let_def)
  qed
  show "\<exists>m'. order_remove k i m = Inr m' \<and> order_inv m' \<and> order_ids m' = (order_ids m)(k := order_ids m k - {i})"
    if mem: "i \<in> order_ids m k"
  proof -
    obtain peers l where l: "um_find m (fst k) = Some peers" "um_find peers (snd k) = Some l" "i \<in> set l"
      using mem
      by (cases "um_find m (fst k)"; cases "um_find (um_get_or [] m (fst k)) (snd k)")
        (simp_all add: order_ids_def table_ids_def um_get_or_def)
    have "peers_inv peers" using inv l(1) by (auto simp: order_inv_def)
    note rem = peers_remove[OF this l(2,3)]
    define ps' where "ps' = (if length l > 1 then um_put (snd k) (remove1 i l) peers else um_erase (snd k) peers)"
    note rem = rem[folded ps'_def]
    have "order_ids (um_put (fst k) ps' m) = (order_ids m)(k := order_ids m k - {i})"
      using rem(2) l(1) by (auto simp: order_ids_def um_get_or_def fun_eq_iff prod_eq_iff)
    moreover have "order_inv (um_put (fst k) ps' m)"
      using rem(1) inv by (auto simp: order_inv_def)
    moreover have "order_remove k i m = Inr (um_put (fst k) ps' m)"
      using l by (simp add: order_remove_def pool_assert_def ps'_def)
    ultimately show ?thesis by blast
  qed
qed

lemma order_mark:
  "markPacketAsPeerOrderBlocked p t m
    = mark_with (\<lambda>h. m\<lparr>peer_order_blocked_packet_types := h\<rparr>) (order_add (t, pd_from p) (pd_id p) (peer_order_blocked_packet_types m))"
  "markPacketAsPeerOrderUnblocked p t m
    = mark_with (\<lambda>h. m\<lparr>peer_order_blocked_packet_types := h\<rparr>) (order_remove (t, pd_from p) (pd_id p) (peer_order_blocked_packet_types m))"
  by (auto simp: markPacketAsPeerOrderBlocked_def markPacketAsPeerOrderUnblocked_def order_add_def order_remove_def mark_with_def
      pool_bind_def pool_assert_def Let_def split: option.split)

section \<open>The set of packets in progress\<close>

text \<open>Which types a packet in progress blocks for everybody, and whether it blocks the later dag blocks of its peer.\<close>

definition one_at_a_time :: "packet_type \<Rightarrow> bool" where
  "one_at_a_time t \<longleftrightarrow> t \<in> {kGetDagSyncPacket, kGetPbftSyncPacket, kGetPillarVotesBundlePacket, kPillarVotesBundlePacket,
     kPbftBlocksBundlePacket, kPbftSyncPacket, kDagSyncPacket}"

definition blocks_type :: "packet_type \<Rightarrow> packet_type \<Rightarrow> bool" where
  "blocks_type t u \<longleftrightarrow> one_at_a_time t \<and> u = t \<or> t = kPbftSyncPacket \<and> u = kPbftBlocksBundlePacket"

definition blocks_peer :: "packet_type \<Rightarrow> bool" where
  "blocks_peer t \<longleftrightarrow> t \<in> {kDagSyncPacket, kTransactionPacket}"

definition hard_rel :: "packet_data set \<Rightarrow> (packet_type \<times> packet_id) set" where
  "hard_rel W = {(t, i). \<exists>p\<in>W. blocks_type (pd_type p) t \<and> pd_id p = i}"

definition order_rel :: "packet_data set \<Rightarrow> ((packet_type \<times> node_id) \<times> packet_id) set" where
  "order_rel W = {((t, n), i). t = kDagBlockPacket \<and> (\<exists>p\<in>W. blocks_peer (pd_type p) \<and> pd_from p = n \<and> pd_id p = i)}"

definition level_rel :: "packet_data set \<Rightarrow> (u64 \<times> packet_id) set" where
  "level_rel W = {(l, i). \<exists>p\<in>W. pd_type p = kDagBlockPacket \<and> packet_level p = Inr l \<and> pd_id p = i}"

definition sig_rel :: "packet_data set \<Rightarrow> (sig_t \<times> packet_id) set" where
  "sig_rel W = {(s, i). \<exists>p\<in>W. pd_type p = kDagBlockPacket \<and> packet_sig p = Inr s \<and> pd_id p = i}"

definition mask_rel ::
  "packets_blocking_mask \<Rightarrow> (packet_type \<times> packet_id) set \<Rightarrow> ((packet_type \<times> node_id) \<times> packet_id) set
    \<Rightarrow> (u64 \<times> packet_id) set \<Rightarrow> (sig_t \<times> packet_id) set \<Rightarrow> bool" where
  "mask_rel m H R L B \<longleftrightarrow>
     table_inv (hard_blocked_packet_types m) \<and> table_ids (hard_blocked_packet_types m) = (\<lambda>k. H `` {k}) \<and>
     order_inv (peer_order_blocked_packet_types m) \<and> order_ids (peer_order_blocked_packet_types m) = (\<lambda>k. R `` {k}) \<and>
     level_inv (processing_dag_levels m) \<and> table_ids (processing_dag_levels m) = (\<lambda>k. L `` {k}) \<and>
     om_inv (processing_dag_blocks m) \<and> (\<forall>s i. um_find (processing_dag_blocks m) s = Some i \<longleftrightarrow> (s, i) \<in> B)"

definition mask_ok :: "packets_blocking_mask \<Rightarrow> packet_data set \<Rightarrow> bool" where
  "mask_ok m W \<longleftrightarrow> mask_rel m (hard_rel W) (order_rel W) (level_rel W) (sig_rel W)"

lemmas mask_ok_defs = mask_ok_def mask_rel_def

text \<open>A packet the pool can work with: a dag block packet carries a level and a signature.\<close>

definition packet_ok :: "packet_data \<Rightarrow> bool" where
  "packet_ok p \<longleftrightarrow> getPacketPriority (pd_type p) = Inr (pd_priority p) \<and>
     (pd_type p = kDagBlockPacket \<longrightarrow> (\<exists>l. packet_level p = Inr l) \<and> (\<exists>s. packet_sig p = Inr s))"

text \<open>When a packet has to wait, said on the packets in progress.\<close>

definition must_wait :: "bool \<Rightarrow> packet_data set \<Rightarrow> packet_data \<Rightarrow> bool" where
  "must_wait e W p \<longleftrightarrow>
     (\<exists>q\<in>W. blocks_type (pd_type q) (pd_type p)) \<or>
     pd_type p = kPbftBlocksBundlePacket \<and> \<not> e \<or>
     pd_type p = kDagBlockPacket \<and>
       (\<exists>q\<in>W. pd_type q = kDagBlockPacket \<and> projr (packet_level q) < projr (packet_level p) \<or>
              pd_type q = kDagBlockPacket \<and> packet_sig q = packet_sig p \<or>
              blocks_peer (pd_type q) \<and> pd_from q = pd_from p \<and> pd_id q < pd_id p)"

section \<open>The mask answers for the packets in progress\<close>

lemmas rel_defs = hard_rel_def order_rel_def level_rel_def sig_rel_def

lemma hard_blocked_iff: "mask_ok m W \<Longrightarrow> isPacketHardBlocked m p \<longleftrightarrow> (\<exists>q\<in>W. blocks_type (pd_type q) (pd_type p))"
  using table_find[of "hard_blocked_packet_types m" "pd_type p"]
  by (auto simp: mask_ok_defs isPacketHardBlocked_def hard_rel_def)

lemma level_head:
  assumes "level_inv h"
  shows "h = [] \<Longrightarrow> table_ids h l = {}"
    and "h \<noteq> [] \<Longrightarrow> table_ids h (fst (hd h)) \<noteq> {}"
    and "h \<noteq> [] \<Longrightarrow> table_ids h l \<noteq> {} \<Longrightarrow> fst (hd h) \<le> l"
proof -
  show "h = [] \<Longrightarrow> table_ids h l = {}" by (simp add: table_ids_def um_get_or_def)
  assume ne: "h \<noteq> []"
  then obtain k b h' where h: "h = (k, b) # h'" by (cases h) auto
  show "table_ids h (fst (hd h)) \<noteq> {}"
    using assms h blocks_okD[of "um_find h" k b] by (simp add: level_inv_def table_ids_def um_get_or_def)
  show "fst (hd h) \<le> l" if "table_ids h l \<noteq> {}"
  proof -
    have "um_find h l \<noteq> None" using that by (cases "um_find h l") (simp_all add: table_ids_def um_get_or_def)
    then have "l \<in> fst ` set h" by (simp add: map_of_eq_None_iff)
    then show ?thesis using assms h by (auto simp: level_inv_def less_imp_le)
  qed
qed

lemma level_blocked:
  assumes m: "mask_ok m W" and W: "\<forall>q\<in>W. packet_ok q" and p: "packet_level p = Inr l"
  shows "isDagBlockPacketBlockedByLevel m p
    = Inr (\<exists>q\<in>W. pd_type q = kDagBlockPacket \<and> projr (packet_level q) < projr (packet_level p))"
proof -
  let ?h = "processing_dag_levels m"
  have inv: "level_inv ?h" and ids: "\<And>k. table_ids ?h k = level_rel W `` {k}" using m by (simp_all add: mask_ok_defs)
  have lev: "table_ids ?h k \<noteq> {} \<longleftrightarrow> (\<exists>q\<in>W. pd_type q = kDagBlockPacket \<and> packet_level q = Inr k)" for k
    by (auto simp: ids level_rel_def)
  have W': "pd_type q = kDagBlockPacket \<Longrightarrow> \<exists>k. packet_level q = Inr k" if "q \<in> W" for q
    using W that by (auto simp: packet_ok_def)
  show ?thesis
  proof (cases "?h = []")
    case True
    then have "\<not> (\<exists>q\<in>W. pd_type q = kDagBlockPacket)" using level_head(1)[OF inv] lev W' by metis
    then show ?thesis using True by (auto simp: isDagBlockPacketBlockedByLevel_def getSmallestDagLevelBeingProcessed_def)
  next
    case False
    let ?s = "fst (hd ?h)"
    have "(\<exists>q\<in>W. pd_type q = kDagBlockPacket \<and> projr (packet_level q) < l) \<longleftrightarrow> ?s < l"
    proof
      assume "\<exists>q\<in>W. pd_type q = kDagBlockPacket \<and> projr (packet_level q) < l"
      then obtain q where q: "q \<in> W" "pd_type q = kDagBlockPacket" "projr (packet_level q) < l" by blast
      then obtain k where "packet_level q = Inr k" using W' by blast
      then show "?s < l" using q lev[of k] level_head(3)[OF inv False, of k] by (auto intro: le_less_trans)
    next
      assume "?s < l"
      then show "\<exists>q\<in>W. pd_type q = kDagBlockPacket \<and> projr (packet_level q) < l"
        using level_head(2)[OF inv False] lev[of ?s] by force
    qed
    then show ?thesis
      using False p by (simp add: isDagBlockPacketBlockedByLevel_def getSmallestDagLevelBeingProcessed_def)
  qed
qed

lemma sig_blocked:
  assumes m: "mask_ok m W" and p: "packet_sig p = Inr s"
  shows "isDagBlockPacketBlockedBySameDagBlock m p = Inr (\<exists>q\<in>W. pd_type q = kDagBlockPacket \<and> packet_sig q = packet_sig p)"
proof -
  have "um_find (processing_dag_blocks m) s \<noteq> None \<longleftrightarrow> (\<exists>i. (s, i) \<in> sig_rel W)"
    using m by (auto simp: mask_ok_defs)
  then show ?thesis by (auto simp: isDagBlockPacketBlockedBySameDagBlock_def p sig_rel_def)
qed

lemma hd_less_iff: "sorted l \<Longrightarrow> l \<noteq> [] \<Longrightarrow> hd l < (i::'a::linorder) \<longleftrightarrow> (\<exists>j\<in>set l. j < i)"
  by (cases l) (auto intro: le_less_trans)

lemma order_blocked:
  assumes m: "mask_ok m W" and new: "\<forall>q\<in>W. pd_id q \<noteq> pd_id p"
  shows "isPacketPeerOrderBlocked m p
    = Inr (pd_type p = kDagBlockPacket \<and> (\<exists>q\<in>W. blocks_peer (pd_type q) \<and> pd_from q = pd_from p \<and> pd_id q < pd_id p))"
proof -
  let ?h = "peer_order_blocked_packet_types m" and ?k = "(pd_type p, pd_from p)"
  have inv: "order_inv ?h" and ids: "order_ids ?h ?k = order_rel W `` {?k}" using m by (simp_all add: mask_ok_defs)
  let ?ps = "um_get_or [] ?h (pd_type p)"
  have ps: "peers_inv ?ps" by (rule order_peers[OF inv])
  have ids': "table_ids ?ps (pd_from p) = {i. pd_type p = kDagBlockPacket \<and> (\<exists>q\<in>W. blocks_peer (pd_type q) \<and> pd_from q = pd_from p \<and> pd_id q = i)}"
    using ids by (auto simp: order_ids_def order_rel_def)
  show ?thesis
  proof (cases "um_find ?ps (pd_from p)")
    case None
    then have "table_ids ?ps (pd_from p) = {}" by (simp add: table_ids_def um_get_or_def)
    moreover have "isPacketPeerOrderBlocked m p = Inr False"
      using None by (cases "um_find ?h (pd_type p)") (simp_all add: isPacketPeerOrderBlocked_def um_get_or_def)
    ultimately show ?thesis using ids' by auto
  next
    case (Some b)
    then have f: "um_find ?h (pd_type p) = Some ?ps" by (cases "um_find ?h (pd_type p)") (simp_all add: um_get_or_def)
    have b: "b \<noteq> []" "sorted b" "set b = table_ids ?ps (pd_from p)"
      using ps Some blocks_okD[of "um_find ?ps" "pd_from p" b]
      by (simp_all add: peers_inv_def table_inv_def table_ids_def um_get_or_def)
    have "hd b \<noteq> pd_id p" using hd_in_set[OF b(1)] new by (auto simp: b(3) ids')
    then show ?thesis
      using Some f hd_less_iff[OF b(2,1), of "pd_id p"]
      by (auto simp: isPacketPeerOrderBlocked_def pool_assert_def b(3) ids')
  qed
qed

lemma isPacketBlocked_must_wait:
  assumes m: "mask_ok m W" and W: "\<forall>q\<in>W. packet_ok q \<and> pd_id q \<noteq> pd_id p" and p: "packet_ok p"
  shows "isPacketBlocked e m p = Inr (must_wait e W p)"
proof -
  have new: "\<forall>q\<in>W. pd_id q \<noteq> pd_id p" and ok: "\<forall>q\<in>W. packet_ok q" using W by blast+
  note hard = hard_blocked_iff[OF m] and order = order_blocked[OF m new]
  show ?thesis
  proof (cases "pd_type p = kDagBlockPacket")
    case True
    then obtain l s where "packet_level p = Inr l" "packet_sig p = Inr s" using p by (auto simp: packet_ok_def)
    note dag = level_blocked[OF m ok this(1)] sig_blocked[OF m this(2)]
    show ?thesis using True by (auto simp: isPacketBlocked_def hard order dag must_wait_def)
  next
    case False
    then show ?thesis by (auto simp: isPacketBlocked_def hard order must_wait_def)
  qed
qed

section \<open>Starting and finishing a packet\<close>

lemma rel_insert:
  "hard_rel (insert p W) = Collect (blocks_type (pd_type p)) \<times> {pd_id p} \<union> hard_rel W"
  "order_rel (insert p W)
    = (if blocks_peer (pd_type p) then {((kDagBlockPacket, pd_from p), pd_id p)} else {}) \<union> order_rel W"
  "level_rel (insert p W)
    = {(l, i). pd_type p = kDagBlockPacket \<and> packet_level p = Inr l \<and> i = pd_id p} \<union> level_rel W"
  "sig_rel (insert p W)
    = {(s, i). pd_type p = kDagBlockPacket \<and> packet_sig p = Inr s \<and> i = pd_id p} \<union> sig_rel W"
  by (auto simp: rel_defs)

lemma blocks_type_set:
  "Collect (blocks_type t) = (if t = kPbftSyncPacket then {kPbftSyncPacket, kPbftBlocksBundlePacket}
     else if one_at_a_time t then {t} else {})"
  by (auto simp: blocks_type_def one_at_a_time_def)

lemma rel_new:
  assumes "\<forall>q\<in>W. pd_id q \<noteq> pd_id p"
  shows "(k, pd_id p) \<notin> hard_rel W" and "(k', pd_id p) \<notin> order_rel W" and "(l, pd_id p) \<notin> level_rel W"
    and "(s, pd_id p) \<notin> sig_rel W"
  using assms by (auto simp: rel_defs)

text \<open>Each operation of the mask adds or removes one pair of one relation.\<close>

lemma mark_hard:
  assumes "mask_rel m H R L B"
  shows "(t, pd_id p) \<notin> H \<Longrightarrow> \<exists>m'. markPacketAsHardBlocked p t m = Inr m' \<and> mask_rel m' (insert (t, pd_id p) H) R L B"
    and "(t, pd_id p) \<in> H \<Longrightarrow> \<exists>m'. markPacketAsHardUnblocked p t m = Inr m' \<and> mask_rel m' (H - {(t, pd_id p)}) R L B"
  using assms hard.add_relation[of "hard_blocked_packet_types m" H t "pd_id p"]
    hard.remove_relation[of "hard_blocked_packet_types m" H t "pd_id p"]
  by (auto simp: hard_mark mask_rel_def)

lemma mark_order:
  assumes "mask_rel m H R L B"
  shows "((t, pd_from p), pd_id p) \<notin> R \<Longrightarrow>
      \<exists>m'. markPacketAsPeerOrderBlocked p t m = Inr m' \<and> mask_rel m' H (insert ((t, pd_from p), pd_id p) R) L B"
    and "((t, pd_from p), pd_id p) \<in> R \<Longrightarrow>
      \<exists>m'. markPacketAsPeerOrderUnblocked p t m = Inr m' \<and> mask_rel m' H (R - {((t, pd_from p), pd_id p)}) L B"
  using assms order.add_relation[of "peer_order_blocked_packet_types m" R "(t, pd_from p)" "pd_id p"]
    order.remove_relation[of "peer_order_blocked_packet_types m" R "(t, pd_from p)" "pd_id p"]
  by (auto simp: order_mark mask_rel_def)

lemma mark_level:
  assumes "mask_rel m H R L B" and "packet_level p = Inr l"
  shows "(l, pd_id p) \<notin> L \<Longrightarrow> isDagBlockPacketBlockedByLevel m p = Inr False \<Longrightarrow>
      \<exists>m'. setDagBlockLevelBeingProcessed p m = Inr m' \<and> mask_rel m' H R (insert (l, pd_id p) L) B"
    and "(l, pd_id p) \<in> L \<Longrightarrow>
      \<exists>m'. unsetDagBlockLevelBeingProcessed p m = Inr m' \<and> mask_rel m' H R (L - {(l, pd_id p)}) B"
proof -
  note ops = level.add_relation[of "processing_dag_levels m" L l "pd_id p"]
    level.remove_relation[of "processing_dag_levels m" L l "pd_id p"]
  show "\<exists>m'. setDagBlockLevelBeingProcessed p m = Inr m' \<and> mask_rel m' H R (insert (l, pd_id p) L) B"
    if new: "(l, pd_id p) \<notin> L" and free: "isDagBlockPacketBlockedByLevel m p = Inr False"
  proof -
    have "case getSmallestDagLevelBeingProcessed m of None \<Rightarrow> True | Some s \<Rightarrow> l \<le> s"
      using free assms(2)
      by (cases "getSmallestDagLevelBeingProcessed m") (simp_all add: isDagBlockPacketBlockedByLevel_def not_less)
    then show ?thesis using assms ops(1) new by (auto simp: level_mark[OF assms(2)] mask_rel_def)
  qed
  show "\<exists>m'. unsetDagBlockLevelBeingProcessed p m = Inr m' \<and> mask_rel m' H R (L - {(l, pd_id p)}) B" if "(l, pd_id p) \<in> L"
    using assms ops(2) that by (auto simp: level_mark[OF assms(2)] mask_rel_def)
qed

lemma mark_sig:
  assumes "mask_rel m H R L B" and "packet_sig p = Inr s"
  shows "s \<notin> Domain B \<Longrightarrow> \<exists>m'. setDagBlockBeingProcessed p m = Inr m' \<and> mask_rel m' H R L (insert (s, pd_id p) B)"
    and "(s, pd_id p) \<in> B \<Longrightarrow> \<exists>m'. unsetDagBlockBeingProcessed p m = Inr m' \<and> mask_rel m' H R L (B - {(s, pd_id p)})"
proof -
  let ?h = "processing_dag_blocks m"
  have B: "\<And>s i. (s, i) \<in> B \<longleftrightarrow> um_find ?h s = Some i" using assms(1) by (simp add: mask_rel_def)
  show "\<exists>m'. setDagBlockBeingProcessed p m = Inr m' \<and> mask_rel m' H R L (insert (s, pd_id p) B)" if "s \<notin> Domain B"
  proof -
    have "um_find ?h s = None" using that B by (cases "um_find ?h s") auto
    then show ?thesis using assms that by (auto simp: setDagBlockBeingProcessed_def pool_assert_def mask_rel_def)
  qed
  show "\<exists>m'. unsetDagBlockBeingProcessed p m = Inr m' \<and> mask_rel m' H R L (B - {(s, pd_id p)})" if "(s, pd_id p) \<in> B"
    using assms that B by (auto simp: unsetDagBlockBeingProcessed_def pool_assert_def mask_rel_def)
qed

definition updates_mask :: "packet_type \<Rightarrow> bool" where
  "updates_mask t \<longleftrightarrow> one_at_a_time t \<or> t = kTransactionPacket \<or> t = kDagBlockPacket"

lemmas update_simps = updateBlockingDependencies_def hard_update_def order_update_def updates_mask_def one_at_a_time_def
  mask_ok_def rel_insert blocks_peer_def blocks_type_set

lemma start_packet:
  assumes m: "mask_ok m W" and new: "\<forall>q\<in>W. packet_ok q \<and> pd_id q \<noteq> pd_id p" and p: "packet_ok p"
    and free: "\<not> must_wait e W p"
  shows "\<exists>m'. updateBlockingDependencies False p m = Inr (updates_mask (pd_type p), m') \<and> mask_ok m' (insert p W)"
proof -
  have W: "\<forall>q\<in>W. packet_ok q" and "\<forall>q\<in>W. pd_id q \<noteq> pd_id p" using new by blast+
  note new' = rel_new[OF this(2)] and m' = m[unfolded mask_ok_def]
  show ?thesis
  proof (cases "pd_type p")
    case kPbftSyncPacket
    obtain m1 where m1: "markPacketAsHardBlocked p kPbftBlocksBundlePacket m = Inr m1"
      "mask_rel m1 (insert (kPbftBlocksBundlePacket, pd_id p) (hard_rel W)) (order_rel W) (level_rel W) (sig_rel W)"
      using mark_hard(1)[OF m' new'(1)] by blast
    then show ?thesis
      using kPbftSyncPacket mark_hard(1)[OF m1(2), of kPbftSyncPacket p] new' by (auto simp: update_simps)
  next
    case kDagSyncPacket
    obtain m1 where m1: "markPacketAsHardBlocked p kDagSyncPacket m = Inr m1"
      "mask_rel m1 (insert (kDagSyncPacket, pd_id p) (hard_rel W)) (order_rel W) (level_rel W) (sig_rel W)"
      using mark_hard(1)[OF m' new'(1)] by blast
    then show ?thesis
      using kDagSyncPacket mark_order(1)[OF m1(2), of kDagBlockPacket p] new' by (auto simp: update_simps)
  next
    case kTransactionPacket
    then show ?thesis using mark_order(1)[OF m' new'(2)] by (auto simp: update_simps)
  next
    case kDagBlockPacket
    then obtain l s where l: "packet_level p = Inr l" and s: "packet_sig p = Inr s" using p by (auto simp: packet_ok_def)
    have "isDagBlockPacketBlockedByLevel m p = Inr False"
      using level_blocked[OF m W l] free kDagBlockPacket by (auto simp: must_wait_def)
    then obtain m1 where m1: "setDagBlockLevelBeingProcessed p m = Inr m1"
      "mask_rel m1 (hard_rel W) (order_rel W) (insert (l, pd_id p) (level_rel W)) (sig_rel W)"
      using mark_level(1)[OF m' l new'(3)] by blast
    moreover have "s \<notin> Domain (sig_rel W)" using free kDagBlockPacket s by (force simp: must_wait_def sig_rel_def)
    ultimately show ?thesis
      using kDagBlockPacket mark_sig(1)[OF m1(2) s] l s by (auto simp: update_simps)
  qed (use m' mark_hard(1)[OF m' new'(1)] in \<open>auto simp: update_simps\<close>)
qed

lemma finish_packet:
  assumes m: "mask_ok m (insert p W)" and new: "\<forall>q\<in>W. pd_id q \<noteq> pd_id p" and p: "packet_ok p"
  shows "\<exists>m'. updateBlockingDependencies True p m = Inr (updates_mask (pd_type p), m') \<and> mask_ok m' W"
proof -
  note new' = rel_new[OF new] and m' = m[unfolded mask_ok_def]
  show ?thesis
  proof (cases "pd_type p")
    case kPbftSyncPacket
    have m2: "mask_rel m (insert (kPbftSyncPacket, pd_id p) (insert (kPbftBlocksBundlePacket, pd_id p) (hard_rel W)))
        (order_rel W) (level_rel W) (sig_rel W)"
      using m' kPbftSyncPacket by (simp add: update_simps)
    obtain m1 where m1: "markPacketAsHardUnblocked p kPbftBlocksBundlePacket m = Inr m1"
      "mask_rel m1 (insert (kPbftSyncPacket, pd_id p) (hard_rel W)) (order_rel W) (level_rel W) (sig_rel W)"
      using mark_hard(2)[OF m2, of kPbftBlocksBundlePacket p] new' by (auto simp: insert_Diff_if)
    then show ?thesis
      using kPbftSyncPacket mark_hard(2)[OF m1(2), of kPbftSyncPacket p] new' by (auto simp: update_simps)
  next
    case kDagSyncPacket
    have m2: "mask_rel m (insert (kDagSyncPacket, pd_id p) (hard_rel W))
        (insert ((kDagBlockPacket, pd_from p), pd_id p) (order_rel W)) (level_rel W) (sig_rel W)"
      using m' kDagSyncPacket by (simp add: update_simps)
    obtain m1 where m1: "markPacketAsHardUnblocked p kDagSyncPacket m = Inr m1"
      "mask_rel m1 (hard_rel W) (insert ((kDagBlockPacket, pd_from p), pd_id p) (order_rel W)) (level_rel W) (sig_rel W)"
      using mark_hard(2)[OF m2, of kDagSyncPacket p] new' by auto
    then show ?thesis
      using kDagSyncPacket mark_order(2)[OF m1(2), of kDagBlockPacket p] new' by (auto simp: update_simps)
  next
    case kDagBlockPacket
    then obtain l s where l: "packet_level p = Inr l" and s: "packet_sig p = Inr s" using p by (auto simp: packet_ok_def)
    have "{(k, i). packet_level p = Inr k \<and> i = pd_id p} = {(l, pd_id p)}"
      "{(k, i). packet_sig p = Inr k \<and> i = pd_id p} = {(s, pd_id p)}"
      using l s by auto
    then have m2: "mask_rel m (hard_rel W) (order_rel W) (insert (l, pd_id p) (level_rel W)) (insert (s, pd_id p) (sig_rel W))"
      using m' kDagBlockPacket by (simp add: update_simps)
    obtain m1 where m1: "unsetDagBlockLevelBeingProcessed p m = Inr m1"
      "mask_rel m1 (hard_rel W) (order_rel W) (level_rel W) (insert (s, pd_id p) (sig_rel W))"
      using mark_level(2)[OF m2 l] new' by auto
    then show ?thesis using kDagBlockPacket mark_sig(2)[OF m1(2) s] new' by (auto simp: update_simps)
  qed (use m' mark_hard(2)[OF m', of "pd_type p" p] mark_order(2)[OF m', of kDagBlockPacket p] new' in \<open>auto simp: update_simps\<close>)
qed

end
