(* ===== verification/Packet_Pool.thy ===== *)
theory Packet_Pool
  imports Blocking_Mask "HOL-Library.Multiset"
begin

text \<open>
  The packet thread pool as a state machine: packets are pushed, taken by workers and finished in three parts between which
  other workers run. The invariant of its reachable states gives which packets are in progress together, that no assertion
  fails, and that the pool drains.
\<close>

section \<open>The reachable states\<close>

text \<open>
  The number of threads does not bound the workers here: the counter \<open>act_total_workers_count\<close> does. The id of a packet
  is the number of packets pushed before it, so a push that would wrap the 64-bit counter is left out.
\<close>

inductive pool_step :: "packets_thread_pool \<Rightarrow> packets_thread_pool \<Rightarrow> bool" where
  push: "packet_ok p \<Longrightarrow> tp_packets_count st + 1 \<noteq> 0 \<Longrightarrow> pool_step st (snd (tp_push (v, p) st))"
| stop: "pool_step st (tp_stop st)"
| take: "tp_take e st = Inr (Some st') \<Longrightarrow> pool_step st st'"
| finish: "i < length (tp_workers st) \<Longrightarrow> tp_finish i st = Inr st' \<Longrightarrow> pool_step st st'"

inductive pool_reachable :: "nat \<Rightarrow> packets_thread_pool \<Rightarrow> bool" where
  start: "PacketsThreadPool n = Inr st \<Longrightarrow> pool_reachable n st"
| step: "pool_reachable n st \<Longrightarrow> pool_step st st' \<Longrightarrow> pool_reachable n st'"

definition queued :: "packets_thread_pool \<Rightarrow> packet_priority \<Rightarrow> packet_data list" where
  "queued st prio = map snd (pq_packets (packets_queues (tp_queue st) prio))"

definition processing_of :: "(packet_data \<times> worker_phase) list \<Rightarrow> packet_data list" where
  "processing_of ws = map fst (filter (\<lambda>w. snd w = Processing) ws)"

definition processing :: "packets_thread_pool \<Rightarrow> packet_data list" where
  "processing st = processing_of (tp_workers st)"

definition pool_packets :: "packets_thread_pool \<Rightarrow> packet_data list" where
  "pool_packets st = queued st High @ queued st Mid @ queued st Low @ map fst (tp_workers st)"

definition queue_inv :: "packet_priority \<Rightarrow> packets_queue \<Rightarrow> bool" where
  "queue_inv prio q \<longleftrightarrow> sorted (map (pd_id \<circ> snd) (pq_packets q)) \<and> (\<forall>v\<in>set (pq_packets q). pd_priority (snd v) = prio) \<and>
     act_packets_count q = length (pq_packets q)"

definition count_inv :: "priority_queue \<Rightarrow> (packet_data \<times> worker_phase) list \<Rightarrow> bool" where
  "count_inv r ws \<longleftrightarrow>
     (\<forall>prio. act_workers_count (packets_queues r prio) = length (filter (\<lambda>w. pd_priority (fst w) = prio) ws)) \<and>
     act_total_workers_count r = length (filter (\<lambda>w. snd w \<noteq> TotalDone) ws) \<and>
     act_total_workers_count r \<le> MAX_TOTAL_WORKERS_COUNT r"

text \<open>No two packets of a one-at-a-time type run together, and a dag block only behind the earlier transactions of its peer.\<close>

definition exclusive :: "packet_data set \<Rightarrow> bool" where
  "exclusive W \<longleftrightarrow> (\<forall>p\<in>W. \<forall>q\<in>W. one_at_a_time (pd_type p) \<longrightarrow> pd_type p = pd_type q \<longrightarrow> p = q)"

definition dag_after_txs :: "packet_data set \<Rightarrow> packet_data set \<Rightarrow> bool" where
  "dag_after_txs W T \<longleftrightarrow> (\<forall>p\<in>W. \<forall>t\<in>T. pd_type p = kDagBlockPacket \<longrightarrow> pd_type t = kTransactionPacket \<longrightarrow>
     pd_from p = pd_from t \<longrightarrow> pd_id p < pd_id t)"

definition pool_inv :: "packets_thread_pool \<Rightarrow> bool" where
  "pool_inv st \<longleftrightarrow>
     mask_ok (blocked_packets_mask (tp_queue st)) (set (processing st)) \<and>
     distinct (map pd_id (pool_packets st)) \<and>
     (\<forall>p\<in>set (pool_packets st). packet_ok p \<and> pd_id p < tp_packets_count st) \<and>
     (\<forall>prio. queue_inv prio (packets_queues (tp_queue st) prio)) \<and>
     count_inv (tp_queue st) (tp_workers st) \<and>
     exclusive (set (processing st)) \<and>
     dag_after_txs (set (processing st)) (set (queued st Mid) \<union> set (processing st))"

section \<open>Taking a packet from the queues\<close>

definition runnable :: "bool \<Rightarrow> packet_data set \<Rightarrow> packets_queue \<Rightarrow> bool" where
  "runnable e W q \<longleftrightarrow> (\<exists>v\<in>set (pq_packets q). \<not> must_wait e W (snd v))"

definition pop_result :: "bool \<Rightarrow> packet_data set \<Rightarrow> packet_priority \<Rightarrow> priority_queue \<Rightarrow> versioned_packet \<times> priority_queue" where
  "pop_result e W prio r =
     (let q = packets_queues r prio; w = must_wait e W \<circ> snd; rest = dropWhile w (pq_packets q) in
      (hd rest, r\<lparr>packets_queues := (packets_queues r)
         (prio := q\<lparr>pq_packets := takeWhile w (pq_packets q) @ tl rest, act_packets_count := act_packets_count q - 1\<rparr>)\<rparr>))"

lemma first_unblocked_dropWhile:
  assumes "\<forall>v\<in>set vs. isPacketBlocked e m (snd v) = Inr (w v)"
  shows "first_unblocked e m vs = Inr (case dropWhile w vs of [] \<Rightarrow> None | x # xs \<Rightarrow> Some (takeWhile w vs, x, xs))"
  using assms by (induction vs) (auto split: list.split simp del: dropWhile_eq_Nil_conv)

lemma pq_pop_runnable:
  assumes "\<forall>v\<in>set (pq_packets q). isPacketBlocked e m (snd v) = Inr (must_wait e W (snd v))"
    and "act_packets_count q = length (pq_packets q)"
  shows "pq_pop e m q = Inr (if runnable e W q
     then (Some (hd (dropWhile (must_wait e W \<circ> snd) (pq_packets q))),
           q\<lparr>pq_packets := takeWhile (must_wait e W \<circ> snd) (pq_packets q) @ tl (dropWhile (must_wait e W \<circ> snd) (pq_packets q)),
             act_packets_count := act_packets_count q - 1\<rparr>)
     else (None, q))"
proof (cases "dropWhile (must_wait e W \<circ> snd) (pq_packets q)")
  note first = first_unblocked_dropWhile[of "pq_packets q" e m "must_wait e W \<circ> snd"]
  case Nil
  then have "\<not> runnable e W q" by (auto simp: runnable_def dropWhile_eq_Nil_conv)
  then show ?thesis using assms first Nil by (simp add: pq_pop_def del: dropWhile_eq_Nil_conv)
next
  note first = first_unblocked_dropWhile[of "pq_packets q" e m "must_wait e W \<circ> snd"]
  case (Cons x xs)
  then have "runnable e W q"
    unfolding runnable_def by (metis comp_apply dropWhile_eq_Nil_conv list.distinct(1))
  moreover have "pq_packets q \<noteq> []" using Cons by auto
  ultimately show ?thesis using assms first Cons by (simp add: pq_pop_def pool_assert_def)
qed

text \<open>The queues agree with the set of packets in progress on who has to wait.\<close>

definition queues_agree :: "bool \<Rightarrow> packet_data set \<Rightarrow> priority_queue \<Rightarrow> bool" where
  "queues_agree e W r \<longleftrightarrow> (\<forall>prio. act_packets_count (packets_queues r prio) = length (pq_packets (packets_queues r prio)) \<and>
     (\<forall>v\<in>set (pq_packets (packets_queues r prio)).
        isPacketBlocked e (blocked_packets_mask r) (snd v) = Inr (must_wait e W (snd v))))"

lemma pop_pass_find:
  assumes "queues_agree e W r"
  shows "\<exists>b'. pop_pass limits e prios b r =
    Inr (case find (\<lambda>prio. runnable e W (packets_queues r prio) \<and> \<not> (limits \<and> maxWorkersCountReached (packets_queues r prio))) prios of
           None \<Rightarrow> (None, b', r)
         | Some prio \<Rightarrow> (Some (fst (pop_result e W prio r)), b', snd (pop_result e W prio r)))"
proof (induction prios arbitrary: b)
  case (Cons prio prios)
  let ?q = "packets_queues r prio"
  have q: "pq_empty ?q \<longleftrightarrow> pq_packets ?q = []" using assms by (simp add: queues_agree_def pq_empty_def)
  have pop: "\<not> pq_empty ?q \<Longrightarrow> pq_pop e (blocked_packets_mask r) ?q = Inr (if runnable e W ?q
     then (Some (fst (pop_result e W prio r)), packets_queues (snd (pop_result e W prio r)) prio) else (None, ?q))"
    using assms by (subst pq_pop_runnable[where W=W]) (auto simp: queues_agree_def pop_result_def Let_def)
  have upd: "r\<lparr>packets_queues := (packets_queues r)(prio := packets_queues (snd (pop_result e W prio r)) prio)\<rparr> = snd (pop_result e W prio r)"
    by (simp add: pop_result_def Let_def)
  show ?case
  proof (cases "pq_empty ?q \<or> limits \<and> maxWorkersCountReached ?q")
    case True
    then have "\<not> (runnable e W ?q \<and> \<not> (limits \<and> maxWorkersCountReached ?q))" using q by (auto simp: runnable_def)
    then show ?thesis using True Cons.IH[of b] Cons.IH[of True] by (auto simp: Let_def)
  next
    case False
    then show ?thesis using Cons.IH[of b] pop upd by (auto simp: Let_def)
  qed
qed simp

lemma pr_pop_cases:
  assumes "queues_agree e W r"
  shows "(pr_pop e r = Inr (None, r) \<and>
      (act_total_workers_count r < MAX_TOTAL_WORKERS_COUNT r \<longrightarrow>
        (\<forall>prio. runnable e W (packets_queues r prio) \<longrightarrow> maxWorkersCountReached (packets_queues r prio)))) \<or>
    (\<exists>prio. act_total_workers_count r < MAX_TOTAL_WORKERS_COUNT r \<and> runnable e W (packets_queues r prio) \<and>
      pr_pop e r = Inr (Some (fst (pop_result e W prio r)), snd (pop_result e W prio r)))"
    (is "?none \<or> ?some")
proof (cases "act_total_workers_count r < MAX_TOTAL_WORKERS_COUNT r")
  case False
  then show ?thesis by (simp add: pr_pop_def)
next
  case True
  let ?ready = "\<lambda>lim prio. runnable e W (packets_queues r prio) \<and> \<not> (lim \<and> maxWorkersCountReached (packets_queues r prio))"
  obtain b1 where b1: "pop_pass True e all_priorities False r = Inr (case find (?ready True) all_priorities of
      None \<Rightarrow> (None, b1, r) | Some prio \<Rightarrow> (Some (fst (pop_result e W prio r)), b1, snd (pop_result e W prio r)))"
    using pop_pass_find[OF assms, of True all_priorities False] by blast
  obtain b2 where b2: "pop_pass False e all_priorities False r = Inr (case find (?ready False) all_priorities of
      None \<Rightarrow> (None, b2, r) | Some prio \<Rightarrow> (Some (fst (pop_result e W prio r)), b2, snd (pop_result e W prio r)))"
    using pop_pass_find[OF assms, of False all_priorities False] by blast
  show ?thesis
  proof (cases "find (?ready True) all_priorities")
    case None
    have "prio \<in> set all_priorities" for prio by (cases prio) (simp_all add: all_priorities_def)
    then have full: "\<forall>prio. runnable e W (packets_queues r prio) \<longrightarrow> maxWorkersCountReached (packets_queues r prio)"
      using None by (auto simp: find_None_iff)
    show ?thesis
    proof (cases "find (?ready False) all_priorities")
      case None
      then show ?thesis using True b1 b2 full \<open>find (?ready True) all_priorities = None\<close> by (auto simp: pr_pop_def)
    next
      case (Some prio)
      then have "runnable e W (packets_queues r prio)" by (auto simp: find_Some_iff)
      then show ?thesis using True b1 b2 full Some \<open>find (?ready True) all_priorities = None\<close> by (auto simp: pr_pop_def)
    qed
  next
    case (Some prio)
    then have "runnable e W (packets_queues r prio)" by (auto simp: find_Some_iff)
    then show ?thesis using True b1 Some by (auto simp: pr_pop_def)
  qed
qed

section \<open>The steps keep the invariant\<close>

lemma processing_of_simps [simp]:
  "processing_of [] = []"
  "processing_of (w # ws) = (if snd w = Processing then fst w # processing_of ws else processing_of ws)"
  "processing_of (ws @ ws') = processing_of ws @ processing_of ws'"
  by (simp_all add: processing_of_def)

lemma processing_of_subset: "set (processing_of ws) \<subseteq> fst ` set ws"
  by (auto simp: processing_of_def)

lemma pool_inv_start: "PacketsThreadPool n = Inr st \<Longrightarrow> pool_inv st"
  by (auto simp: PacketsThreadPool_def PriorityQueue_def Let_def pool_inv_def pool_packets_def queued_def processing_def
      queue_inv_def count_inv_def exclusive_def dag_after_txs_def setMaxWorkersCount_def packets_queue_new_def mask_new_def
      mask_ok_defs rel_defs table_inv_def level_inv_def order_inv_def blocks_ok_def table_ids_def order_ids_def um_get_or_def)

lemma packet_ok_id [simp]: "packet_ok (p\<lparr>pd_id := i\<rparr>) = packet_ok p"
  by (simp add: packet_ok_def packet_level_def packet_sig_def dagBlockFromDagPacket_def)

lemma pool_inv_push:
  assumes inv: "pool_inv st" and p: "packet_ok p" and id: "tp_packets_count st + 1 \<noteq> 0"
  shows "pool_inv (snd (tp_push (v, p) st))"
proof (cases "tp_stopProcessing st")
  case False
  let ?p = "p\<lparr>pd_id := tp_packets_count st\<rparr>" and ?st = "snd (tp_push (v, p) st)"
  have q: "queued ?st prio = queued st prio @ (if prio = pd_priority p then [?p] else [])" for prio
    using False by (simp add: tp_push_def Let_def queued_def pr_pushBack_def pq_pushBack_def)
  have w: "tp_workers ?st = tp_workers st" "processing ?st = processing st"
    "blocked_packets_mask (tp_queue ?st) = blocked_packets_mask (tp_queue st)" "tp_packets_count ?st = tp_packets_count st + 1"
    using False by (simp_all add: tp_push_def Let_def processing_def pr_pushBack_def)
  have mset: "mset (pool_packets ?st) = add_mset ?p (mset (pool_packets st))"
    by (cases "pd_priority p") (simp_all add: pool_packets_def q w)
  then have set: "set (pool_packets ?st) = insert ?p (set (pool_packets st))"
    by (metis set_mset_add_mset_insert set_mset_mset)
  have old: "\<forall>q\<in>set (pool_packets st). packet_ok q \<and> pd_id q < tp_packets_count st" using inv by (simp add: pool_inv_def)
  have less: "i < tp_packets_count st + 1" if "i \<le> tp_packets_count st" for i
    using that id unatSuc[of "tp_packets_count st"] by (simp add: word_less_nat_alt word_le_nat_alt add.commute)
  have "mset (map pd_id (pool_packets ?st)) = mset (map pd_id (?p # pool_packets st))" using mset by simp
  moreover have "distinct (map pd_id (?p # pool_packets st))" using inv old by (auto simp: pool_inv_def)
  ultimately have "distinct (map pd_id (pool_packets ?st))" by (blast dest: mset_eq_imp_distinct_iff)
  moreover have "queue_inv prio (packets_queues (tp_queue ?st) prio)" for prio
  proof -
    have "set (queued st prio) \<subseteq> set (pool_packets st)" by (cases prio) (auto simp: pool_packets_def)
    moreover have "queue_inv prio (packets_queues (tp_queue st) prio)" using inv by (simp add: pool_inv_def)
    ultimately show ?thesis
      using False old
      by (fastforce simp: tp_push_def Let_def pr_pushBack_def pq_pushBack_def queue_inv_def sorted_append queued_def subset_eq)
  qed
  moreover have "dag_after_txs (set (processing st)) (set (queued ?st Mid) \<union> set (processing st))"
  proof -
    have "\<forall>q\<in>set (processing st). pd_id q < tp_packets_count st"
      using old processing_of_subset[of "tp_workers st"] by (auto simp: processing_def pool_packets_def)
    moreover have "dag_after_txs (set (processing st)) (set (queued st Mid) \<union> set (processing st))"
      using inv by (simp add: pool_inv_def)
    ultimately show ?thesis by (auto simp: q dag_after_txs_def)
  qed
  moreover have "count_inv (tp_queue ?st) (tp_workers st)"
    using inv False by (simp add: pool_inv_def count_inv_def tp_push_def Let_def pr_pushBack_def pq_pushBack_def)
  moreover have "\<forall>q\<in>set (pool_packets ?st). packet_ok q \<and> pd_id q < tp_packets_count st + 1"
    using old p by (auto simp: set intro!: less intro: less_imp_le)
  ultimately show ?thesis using inv by (simp add: pool_inv_def w)
qed (use inv in \<open>simp add: tp_push_def\<close>)

lemma pool_inv_stop: "pool_inv st \<Longrightarrow> pool_inv (tp_stop st)"
  by (simp add: pool_inv_def tp_stop_def pool_packets_def queued_def processing_def)

text \<open>A taken packet is the first one of its queue that does not have to wait.\<close>

definition taken ::
  "packets_thread_pool \<Rightarrow> packet_priority \<Rightarrow> versioned_packet list \<Rightarrow> packet_data \<Rightarrow> versioned_packet list
    \<Rightarrow> packets_blocking_mask \<Rightarrow> packets_thread_pool" where
  "taken st prio front p rest m =
     (let r = tp_queue st; q = packets_queues r prio in
      st\<lparr>tp_queue := r\<lparr>act_total_workers_count := act_total_workers_count r + 1,
           packets_queues := (packets_queues r)(prio := q\<lparr>pq_packets := front @ rest, act_packets_count := act_packets_count q - 1,
             act_workers_count := act_workers_count q + 1\<rparr>),
           blocked_packets_mask := m\<rparr>,
         tp_workers := tp_workers st @ [(p, Processing)]\<rparr>)"

lemma queued_subset: "set (queued st prio) \<subseteq> set (pool_packets st)"
  by (cases prio) (auto simp: pool_packets_def)

lemma processing_subset: "set (processing st) \<subseteq> set (pool_packets st)"
  using processing_of_subset[of "tp_workers st"] by (auto simp: processing_def pool_packets_def)

lemma queued_fresh:
  assumes "pool_inv st" and "p \<in> set (queued st prio)" and "q \<in> set (processing st)"
  shows "pd_id q \<noteq> pd_id p"
proof -
  have "distinct (map pd_id (queued st High @ queued st Mid @ queued st Low) @ map pd_id (map fst (tp_workers st)))"
    using assms(1) by (simp add: pool_inv_def pool_packets_def)
  moreover have "pd_id p \<in> set (map pd_id (queued st High @ queued st Mid @ queued st Low))"
    using assms(2) by (cases prio) auto
  moreover have "pd_id q \<in> set (map pd_id (map fst (tp_workers st)))"
    using assms(3) processing_of_subset[of "tp_workers st"] by (auto simp: processing_def)
  ultimately show ?thesis unfolding distinct_append by (metis IntI empty_iff)
qed

lemma pool_waits:
  assumes inv: "pool_inv st" and "p \<in> set (queued st prio)"
  shows "isPacketBlocked e (blocked_packets_mask (tp_queue st)) p = Inr (must_wait e (set (processing st)) p)"
proof (rule isPacketBlocked_must_wait)
  show "mask_ok (blocked_packets_mask (tp_queue st)) (set (processing st))" "packet_ok p"
    using assms queued_subset[of st prio] by (auto simp: pool_inv_def)
  show "\<forall>q\<in>set (processing st). packet_ok q \<and> pd_id q \<noteq> pd_id p"
    using assms queued_fresh[OF assms] processing_subset[of st] by (auto simp: pool_inv_def)
qed

lemma pool_queues_agree: "pool_inv st \<Longrightarrow> queues_agree e (set (processing st)) (tp_queue st)"
  using pool_waits[of st] by (auto simp: queues_agree_def pool_inv_def queue_inv_def queued_def)

lemma runnable_split:
  assumes "runnable e W q"
  obtains front v rest where "pq_packets q = front @ v # rest" "takeWhile (must_wait e W \<circ> snd) (pq_packets q) = front"
    "dropWhile (must_wait e W \<circ> snd) (pq_packets q) = v # rest" "\<forall>x\<in>set front. must_wait e W (snd x)" "\<not> must_wait e W (snd v)"
proof -
  let ?w = "must_wait e W \<circ> snd"
  have "dropWhile ?w (pq_packets q) \<noteq> []" using assms by (auto simp: runnable_def)
  then obtain v rest where v: "dropWhile ?w (pq_packets q) = v # rest" by (cases "dropWhile ?w (pq_packets q)") auto
  moreover have "\<not> ?w v" using hd_dropWhile[of ?w "pq_packets q"] v by simp
  moreover have "pq_packets q = takeWhile ?w (pq_packets q) @ v # rest" using v by (metis takeWhile_dropWhile_id)
  moreover have "\<forall>x\<in>set (takeWhile ?w (pq_packets q)). must_wait e W (snd x)" by (auto dest: set_takeWhileD)
  ultimately show ?thesis using that by (metis comp_apply)
qed

lemma take_cases:
  assumes inv: "pool_inv st"
  defines "r \<equiv> tp_queue st" and "W \<equiv> set (processing st)"
  obtains (none) "tp_take e st = Inr None"
      "act_total_workers_count r < MAX_TOTAL_WORKERS_COUNT r \<Longrightarrow> \<forall>prio. runnable e W (packets_queues r prio)
        \<longrightarrow> maxWorkersCountReached (packets_queues r prio)"
  | (some) prio front v rest m where "tp_take e st = Inr (Some (taken st prio front (snd v) rest m))"
      "act_total_workers_count r < MAX_TOTAL_WORKERS_COUNT r" "pq_packets (packets_queues r prio) = front @ v # rest"
      "\<forall>x\<in>set front. must_wait e W (snd x)" "\<not> must_wait e W (snd v)" "mask_ok m (insert (snd v) W)"
proof -
  from pr_pop_cases[OF pool_queues_agree[OF inv], of e]
  consider "pr_pop e r = Inr (None, r)" "act_total_workers_count r < MAX_TOTAL_WORKERS_COUNT r \<longrightarrow>
      (\<forall>prio. runnable e W (packets_queues r prio) \<longrightarrow> maxWorkersCountReached (packets_queues r prio))"
    | prio where "act_total_workers_count r < MAX_TOTAL_WORKERS_COUNT r" "runnable e W (packets_queues r prio)"
      "pr_pop e r = Inr (Some (fst (pop_result e W prio r)), snd (pop_result e W prio r))"
    unfolding r_def W_def by blast
  then show ?thesis
  proof cases
    case 1
    then show ?thesis using none by (simp add: tp_take_def r_def)
  next
    case (2 prio)
    from runnable_split[OF 2(2)] obtain front v rest where v: "pq_packets (packets_queues r prio) = front @ v # rest"
      "takeWhile (must_wait e W \<circ> snd) (pq_packets (packets_queues r prio)) = front"
      "dropWhile (must_wait e W \<circ> snd) (pq_packets (packets_queues r prio)) = v # rest"
      "\<forall>x\<in>set front. must_wait e W (snd x)" "\<not> must_wait e W (snd v)" .
    have q: "snd v \<in> set (queued st prio)" using v(1) by (simp add: queued_def r_def)
    have prio: "pd_priority (snd v) = prio" using inv v(1) by (auto simp: pool_inv_def queue_inv_def r_def)
    have "\<forall>q\<in>W. packet_ok q \<and> pd_id q \<noteq> pd_id (snd v)" "packet_ok (snd v)"
      using inv queued_fresh[OF inv q] processing_subset[of st] queued_subset[of st prio] q by (auto simp: pool_inv_def W_def)
    then obtain m where m: "updateBlockingDependencies False (snd v) (blocked_packets_mask r) = Inr (updates_mask (pd_type (snd v)), m)"
      "mask_ok m (insert (snd v) W)"
      using start_packet[of "blocked_packets_mask r" W "snd v" e] inv v(5) by (auto simp: pool_inv_def r_def W_def)
    have "tp_take e st = Inr (Some (taken st prio front (snd v) rest m))"
      using 2(1,3) m(1) v(2,3) prio
      by (simp add: tp_take_def r_def[symmetric] pop_result_def Let_def updateDependenciesStart_def pool_assert_def taken_def
          incrementActWorkersCount_def)
    then show ?thesis using some[OF _ 2(1) v(1,4,5) m(2)] by blast
  qed
qed

lemma tx_never_waits: "pd_type t = kTransactionPacket \<Longrightarrow> \<not> must_wait e W t"
  by (auto simp: must_wait_def blocks_type_def one_at_a_time_def)

lemma exclusive_insert: "exclusive W \<Longrightarrow> \<not> must_wait e W p \<Longrightarrow> exclusive (insert p W)"
  unfolding exclusive_def must_wait_def blocks_type_def by (metis insertE)

lemma taken_simps [simp]:
  "queued (taken st prio front p rest m) prio' = (if prio' = prio then map snd front @ map snd rest else queued st prio')"
  "processing (taken st prio front p rest m) = processing st @ [p]"
  "tp_workers (taken st prio front p rest m) = tp_workers st @ [(p, Processing)]"
  "tp_packets_count (taken st prio front p rest m) = tp_packets_count st"
  "blocked_packets_mask (tp_queue (taken st prio front p rest m)) = m"
  by (auto simp: taken_def Let_def queued_def processing_def)

lemma dag_after_txs_take:
  assumes inv: "pool_inv st" and v: "pq_packets (packets_queues (tp_queue st) prio) = front @ v # rest"
    and wait: "\<forall>x\<in>set front. must_wait e (set (processing st)) (snd x)" and free: "\<not> must_wait e (set (processing st)) (snd v)"
  shows "dag_after_txs (insert (snd v) (set (processing st)))
    (set (queued (taken st prio front (snd v) rest m) Mid) \<union> insert (snd v) (set (processing st)))"
proof -
  let ?p = "snd v" and ?W = "set (processing st)"
  have q: "queued st prio = map snd front @ ?p # map snd rest" using v by (simp add: queued_def)
  then have p: "?p \<in> set (queued st prio)" by simp
  have ok: "packet_ok ?p" using inv queued_subset[of st prio] p by (auto simp: pool_inv_def)
  have prio: "pd_priority ?p = prio" using inv v by (auto simp: pool_inv_def queue_inv_def)
  have mid: "prio = Mid" if "pd_type ?p \<in> {kTransactionPacket, kDagBlockPacket}" using ok prio that by (auto simp: packet_ok_def)
  have old: "dag_after_txs ?W (set (queued st Mid) \<union> ?W)" using inv by (simp add: pool_inv_def)
  have "sorted (map (pd_id \<circ> snd) (front @ v # rest))" using inv v unfolding pool_inv_def queue_inv_def by metis
  then have "\<forall>x\<in>set rest. pd_id ?p \<le> pd_id (snd x)" by (simp add: sorted_append)
  moreover have "distinct (map pd_id (queued st prio))" using inv by (cases prio) (auto simp: pool_inv_def pool_packets_def)
  then have "pd_id ?p \<notin> pd_id ` snd ` set rest" by (simp add: q image_image)
  ultimately have behind: "pd_id ?p < pd_id t" if "t \<in> snd ` set rest" for t
    using that unfolding order_less_le by blast
  have new: "pd_id ?p < pd_id t"
    if t: "t \<in> set (queued (taken st prio front ?p rest m) Mid) \<union> insert ?p ?W" and ty: "pd_type ?p = kDagBlockPacket"
      "pd_type t = kTransactionPacket" "pd_from ?p = pd_from t" for t
  proof -
    have "t \<notin> snd ` set front" using wait tx_never_waits[OF ty(2)] by auto
    then consider "t \<in> snd ` set rest" | "t \<in> ?W" using t ty mid by auto
    then show ?thesis
    proof cases
      case 2
      then have "\<not> pd_id t < pd_id ?p" using free ty by (auto simp: must_wait_def blocks_peer_def)
      then show ?thesis using queued_fresh[OF inv p 2] by simp
    qed (rule behind)
  qed
  have "pd_id x < pd_id t"
    if "x \<in> ?W" "t \<in> set (queued (taken st prio front ?p rest m) Mid) \<union> insert ?p ?W" "pd_type x = kDagBlockPacket"
      "pd_type t = kTransactionPacket" "pd_from x = pd_from t" for x t
  proof -
    have "t \<in> set (queued st Mid) \<union> ?W" using that(2,4) mid q by (auto split: if_splits)
    then show ?thesis using old that by (simp add: dag_after_txs_def)
  qed
  then show ?thesis using new unfolding dag_after_txs_def by blast
qed

lemma pool_inv_take:
  assumes inv: "pool_inv st" and take: "tp_take e st = Inr (Some st')"
  shows "pool_inv st'"
proof (rule take_cases[OF inv, of e])
  fix prio front v rest m
  assume t: "tp_take e st = Inr (Some (taken st prio front (snd v) rest m))"
    and max: "act_total_workers_count (tp_queue st) < MAX_TOTAL_WORKERS_COUNT (tp_queue st)"
    and v: "pq_packets (packets_queues (tp_queue st) prio) = front @ v # rest"
    and wait: "\<forall>x\<in>set front. must_wait e (set (processing st)) (snd x)"
    and free: "\<not> must_wait e (set (processing st)) (snd v)" and m: "mask_ok m (insert (snd v) (set (processing st)))"
  let ?st = "taken st prio front (snd v) rest m"
  have st': "st' = ?st" using t take by simp
  have "mset (pool_packets ?st) = mset (pool_packets st)"
    using v by (cases prio) (simp_all add: pool_packets_def queued_def[of st])
  then have set: "set (pool_packets ?st) = set (pool_packets st)"
    and dist: "distinct (map pd_id (pool_packets ?st)) = distinct (map pd_id (pool_packets st))"
    by (metis set_mset_mset) (metis \<open>mset (pool_packets ?st) = mset (pool_packets st)\<close> mset_map mset_eq_imp_distinct_iff)
  have qi: "queue_inv prio (packets_queues (tp_queue st) prio)" using inv by (simp add: pool_inv_def)
  then have prio: "pd_priority (snd v) = prio" and "queue_inv prio' (packets_queues (tp_queue ?st) prio')" for prio'
    using v inv by (auto simp: queue_inv_def taken_def Let_def sorted_append pool_inv_def)
  moreover have "count_inv (tp_queue ?st) (tp_workers ?st)"
    using inv max prio by (auto simp: pool_inv_def count_inv_def taken_def Let_def)
  ultimately show "pool_inv st'"
    using inv m exclusive_insert[OF _ free] dag_after_txs_take[OF inv v wait free, of m]
    by (simp add: pool_inv_def st' set dist)
qed (use take in simp)

lemma distinct_submset: "mset xs \<subseteq># mset ys \<Longrightarrow> distinct ys \<Longrightarrow> distinct xs"
  by (metis distinct_append ex_mset mset_append mset_eq_imp_distinct_iff subset_mset.add_diff_inverse)

text \<open>A step that only takes workers away keeps the invariant when it keeps the mask and the counters right.\<close>

lemma pool_inv_mono:
  assumes inv: "pool_inv st" and mask: "mask_ok (blocked_packets_mask (tp_queue st')) (set (processing st'))"
    and counts: "count_inv (tp_queue st') (tp_workers st')" and proc: "set (processing st') \<subseteq> set (processing st)"
    and ws: "mset (map fst (tp_workers st')) \<subseteq># mset (map fst (tp_workers st))" and n: "tp_packets_count st' = tp_packets_count st"
    and q: "\<And>prio. pq_packets (packets_queues (tp_queue st') prio) = pq_packets (packets_queues (tp_queue st) prio)
      \<and> act_packets_count (packets_queues (tp_queue st') prio) = act_packets_count (packets_queues (tp_queue st) prio)"
  shows "pool_inv st'"
proof -
  have queued: "queued st' = queued st" using q by (auto simp: queued_def)
  have mset: "mset (pool_packets st') \<subseteq># mset (pool_packets st)" using ws by (simp add: pool_packets_def queued)
  then have "mset (map pd_id (pool_packets st')) \<subseteq># mset (map pd_id (pool_packets st))" by (simp add: image_mset_subseteq_mono)
  then have "distinct (map pd_id (pool_packets st'))"
    by (rule distinct_submset) (use inv in \<open>simp add: pool_inv_def\<close>)
  moreover have "set (pool_packets st') \<subseteq> set (pool_packets st)" using set_mset_mono[OF mset] by simp
  moreover have "exclusive (set (processing st'))"
    using inv proc unfolding pool_inv_def exclusive_def by (metis subsetD)
  moreover have "dag_after_txs (set (processing st')) (set (queued st Mid) \<union> set (processing st'))"
    using inv proc unfolding pool_inv_def dag_after_txs_def by blast
  moreover have "queue_inv prio (packets_queues (tp_queue st') prio)" for prio
    using inv q[of prio] by (simp add: pool_inv_def queue_inv_def)
  ultimately show ?thesis using inv mask counts n by (auto simp: pool_inv_def queued)
qed

lemma non_blocking_mask: "mask_ok m (insert p W) \<Longrightarrow> isNonBlockingPacket (pd_type p) \<Longrightarrow> mask_ok m W"
  by (cases "pd_type p") (simp_all add: update_simps)

lemma finish_unblock_mask:
  assumes total: "act_total_workers_count r > 0" and mask: "mask_ok (blocked_packets_mask r) (insert p W)"
    and new: "\<forall>q\<in>W. pd_id q \<noteq> pd_id p" and ok: "packet_ok p"
  shows "\<exists>m. finish_unblock p r = Inr (r\<lparr>blocked_packets_mask := m\<rparr>) \<and> mask_ok m W"
proof (cases "isNonBlockingPacket (pd_type p)")
  case True
  then show ?thesis
    using total non_blocking_mask[OF mask True] by (intro exI[of _ "blocked_packets_mask r"]) (simp add: finish_unblock_def pool_assert_def)
next
  case False
  then show ?thesis using total finish_packet[OF mask new ok] by (auto simp: finish_unblock_def pool_assert_def)
qed

lemma pool_finish:
  assumes inv: "pool_inv st" and i: "i < length (tp_workers st)"
  shows "\<exists>st'. tp_finish i st = Inr st' \<and> pool_inv st'"
proof -
  obtain p ph where pph: "tp_workers st ! i = (p, ph)" by (cases "tp_workers st ! i")
  define us where "us = take i (tp_workers st)"
  define vs where "vs = drop (Suc i) (tp_workers st)"
  have ws: "tp_workers st = us @ (p, ph) # vs" using id_take_nth_drop[OF i] by (simp add: us_def vs_def pph)
  have upd: "(tp_workers st)[i := w] = us @ w # vs" for w by (simp add: us_def vs_def upd_conv_take_nth_drop i)
  have counts: "count_inv (tp_queue st) (us @ (p, ph) # vs)" using inv ws by (simp add: pool_inv_def)
  note finish = tp_finish_def pph upd us_def[symmetric] vs_def[symmetric]
  show ?thesis
  proof (cases ph)
    case Processing
    let ?W = "set (processing_of us) \<union> set (processing_of vs)"
    have mask: "mask_ok (blocked_packets_mask (tp_queue st)) (insert p ?W)"
      using inv Processing by (simp add: pool_inv_def processing_def ws)
    have "distinct (map pd_id (map fst (us @ (p, ph) # vs)))" using inv by (simp add: pool_inv_def pool_packets_def ws)
    then have "pd_id p \<notin> pd_id ` (fst ` set us \<union> fst ` set vs)" by (simp add: image_Un image_image)
    then have new: "\<forall>q\<in>?W. pd_id q \<noteq> pd_id p" using processing_of_subset[of us] processing_of_subset[of vs]
      by (metis UnCI UnE image_eqI subsetD)
    have ok: "packet_ok p" using inv by (simp add: pool_inv_def pool_packets_def ws)
    have "act_total_workers_count (tp_queue st) > 0" using counts Processing by (simp add: count_inv_def)
    then obtain m where m: "finish_unblock p (tp_queue st) = Inr ((tp_queue st)\<lparr>blocked_packets_mask := m\<rparr>)" "mask_ok m ?W"
      using finish_unblock_mask[OF _ mask new ok] by blast
    let ?st = "st\<lparr>tp_queue := (tp_queue st)\<lparr>blocked_packets_mask := m\<rparr>, tp_workers := us @ (p, Unblocked) # vs\<rparr>"
    have "pool_inv ?st"
      by (rule pool_inv_mono[OF inv])
        (use m(2) counts Processing in \<open>auto simp: processing_def ws count_inv_def\<close>)
    then show ?thesis using m(1) Processing by (simp add: finish)
  next
    case Unblocked
    let ?st = "st\<lparr>tp_queue := finish_total (tp_queue st), tp_workers := us @ (p, TotalDone) # vs\<rparr>"
    have "pool_inv ?st"
      by (rule pool_inv_mono[OF inv])
        (use inv counts Unblocked in \<open>auto simp: processing_def ws count_inv_def finish_total_def pool_inv_def\<close>)
    then show ?thesis using Unblocked by (simp add: finish)
  next
    case TotalDone
    let ?q = "packets_queues (tp_queue st) (pd_priority p)"
    let ?r = "(tp_queue st)\<lparr>packets_queues := (packets_queues (tp_queue st))
      (pd_priority p := ?q\<lparr>act_workers_count := act_workers_count ?q - 1\<rparr>)\<rparr>"
    have "act_workers_count ?q > 0" using counts by (simp add: count_inv_def)
    then have fq: "finish_queue p (tp_queue st) = Inr ?r" by (simp add: finish_queue_def decrementActWorkersCount_def pool_assert_def)
    have "pool_inv (st\<lparr>tp_queue := ?r, tp_workers := us @ vs\<rparr>)"
      by (rule pool_inv_mono[OF inv])
        (use inv counts TotalDone in \<open>auto simp: processing_def ws count_inv_def pool_inv_def\<close>)
    then show ?thesis using fq TotalDone by (simp add: finish)
  qed
qed

lemma pool_inv_step: "pool_step st st' \<Longrightarrow> pool_inv st \<Longrightarrow> pool_inv st'"
proof (induction rule: pool_step.induct)
  case (finish i st st')
  then show ?case using pool_finish[of st i] by auto
qed (auto intro: pool_inv_push pool_inv_stop pool_inv_take)

lemma pool_inv_reachable: "pool_reachable n st \<Longrightarrow> pool_inv st"
  by (induction rule: pool_reachable.induct) (auto intro: pool_inv_start pool_inv_step)

text \<open>The limits are set once.\<close>

definition limits_inv :: "nat \<Rightarrow> packets_thread_pool \<Rightarrow> bool" where
  "limits_inv n st \<longleftrightarrow> MAX_TOTAL_WORKERS_COUNT (tp_queue st) = n \<and> n \<ge> 3 \<and> (\<forall>prio. kMaxWorkersCount (packets_queues (tp_queue st) prio) \<ge> 1)"

lemma limits_start: "PacketsThreadPool n = Inr st \<Longrightarrow> limits_inv n st"
  by (auto simp: PacketsThreadPool_def PriorityQueue_def Let_def limits_inv_def setMaxWorkersCount_def split: packet_priority.split)

lemma limits_step: "pool_step st st' \<Longrightarrow> pool_inv st \<Longrightarrow> limits_inv n st \<Longrightarrow> limits_inv n st'"
proof (induction rule: pool_step.induct)
  case (take e st st')
  then show ?case by (elim take_cases[of st e]) (auto simp: limits_inv_def taken_def Let_def)
next
  case (finish i st st')
  obtain p ph where "tp_workers st ! i = (p, ph)" by (cases "tp_workers st ! i")
  then show ?case
    using finish
    by (cases ph) (auto simp: limits_inv_def tp_finish_def finish_unblock_def finish_total_def finish_queue_def
        decrementActWorkersCount_def split: if_splits)
qed (auto simp: limits_inv_def tp_push_def Let_def pr_pushBack_def pq_pushBack_def tp_stop_def)

lemma limits_reachable: "pool_reachable n st \<Longrightarrow> limits_inv n st"
  by (induction rule: pool_reachable.induct) (auto intro: limits_start limits_step pool_inv_reachable)

end
