(* ===== verification/Packet_Pool_Props.thy ===== *)
theory Packet_Pool_Props
  imports Packet_Pool Vote_Codec_Props
begin

text \<open>The theorems on the packet thread pool.\<close>

section \<open>Runs that compute\<close>

text \<open>A sequence of events of the pool, and the state it leads to.\<close>

datatype pool_event = PushEvent packet_data | TakeEvent bool | FinishEvent nat

fun pool_exec :: "pool_event list \<Rightarrow> packets_thread_pool \<Rightarrow> packets_thread_pool option" where
  "pool_exec [] st = Some st"
| "pool_exec (PushEvent p # es) st =
     (if packet_ok p \<and> tp_packets_count st + 1 \<noteq> 0 then pool_exec es (snd (tp_push (0, p) st)) else None)"
| "pool_exec (TakeEvent e # es) st = (case tp_take e st of Inr (Some st') \<Rightarrow> pool_exec es st' | _ \<Rightarrow> None)"
| "pool_exec (FinishEvent i # es) st =
     (if i < length (tp_workers st) then (case tp_finish i st of Inr st' \<Rightarrow> pool_exec es st' | Inl _ \<Rightarrow> None) else None)"

lemma pool_exec_reachable: "pool_exec es st = Some st' \<Longrightarrow> pool_reachable n st \<Longrightarrow> pool_reachable n st'"
  by (induction es st rule: pool_exec.induct)
    (auto split: if_splits sum.splits option.splits intro: pool_reachable.step pool_step.intros)

definition pool_run :: "nat \<Rightarrow> pool_event list \<Rightarrow> packets_thread_pool option" where
  "pool_run n es = (case PacketsThreadPool n of Inr st \<Rightarrow> pool_exec es st | Inl _ \<Rightarrow> None)"

lemma pool_run_reachable: "pool_run n es = Some st \<Longrightarrow> pool_reachable n st"
  by (auto simp: pool_run_def split: sum.splits intro: pool_exec_reachable pool_reachable.start)

definition plain_packet :: "packet_type \<Rightarrow> packet_priority \<Rightarrow> packet_data" where
  "plain_packet t prio = \<lparr>pd_id = 0, pd_type = t, pd_priority = prio, pd_from = 7, pd_rlp = []\<rparr>"

lemma packet_reads_id [simp]:
  "packet_level (p\<lparr>pd_id := i\<rparr>) = packet_level p" "packet_sig (p\<lparr>pd_id := i\<rparr>) = packet_sig p"
  by (simp_all add: packet_level_def packet_sig_def dagBlockFromDagPacket_def cong: if_cong)

lemmas pool_run_defs = pool_run_def PacketsThreadPool_def PriorityQueue_def Let_def pool_assert_def setMaxWorkersCount_def
  packets_queue_new_def mask_new_def tp_push_def pr_pushBack_def pq_pushBack_def tp_take_def pr_pop_def all_priorities_def
  pq_empty_def pq_pop_def maxWorkersCountReached_def isPacketBlocked_def isPacketHardBlocked_def isPacketPeerOrderBlocked_def
  isDagBlockPacketBlockedByLevel_def isDagBlockPacketBlockedBySameDagBlock_def getSmallestDagLevelBeingProcessed_def
  updateDependenciesStart_def incrementActWorkersCount_def updateBlockingDependencies_def hard_update_def order_update_def
  markPacketAsHardBlocked_def markPacketAsPeerOrderBlocked_def setDagBlockLevelBeingProcessed_def setDagBlockBeingProcessed_def
  um_get_or_def canBorrowThread_def getActiveWorkersNum_def

lemma plain_packet_simps [simp]:
  "pd_type (plain_packet t prio) = t" "pd_priority (plain_packet t prio) = prio" "pd_from (plain_packet t prio) = 7"
  "t \<noteq> kDagBlockPacket \<Longrightarrow> packet_ok (plain_packet t prio) \<longleftrightarrow> getPacketPriority t = Inr prio"
  by (simp_all add: plain_packet_def packet_ok_def)

text \<open>A packet that carries an encoded dag block is well formed.\<close>

lemma dag_packet_ok:
  assumes "fits (dag_block_item b)" and "pd_type p = kDagBlockPacket" and "pd_priority p = Mid"
    and "pd_rlp p = encode (dag_block_item b)"
  shows "packet_ok p" and "packet_level p = Inr (db_level b)" and "packet_sig p = Inr (db_sig b)"
proof -
  have "itemCount (encode (dag_block_item b)) = Inr 8"
    using itemCount_encode[of "case dag_block_item b of Items ts \<Rightarrow> ts"] assms(1) by (simp add: dag_block_item_def del: encode.simps)
  then have "dagBlockFromDagPacket p = Inr (encode (dag_block_item b))" by (simp add: dagBlockFromDagPacket_def assms(4))
  then show "packet_level p = Inr (db_level b)" "packet_sig p = Inr (db_sig b)"
    using dag_block_extract[OF assms(1)] by (simp_all add: packet_level_def packet_sig_def)
  then show "packet_ok p" using assms(2,3) by (simp add: packet_ok_def)
qed

text \<open>A sync request and a transaction packet in progress, and a dag block in progress with a later transaction packet queued.\<close>

lemma two_packets_run:
  "\<exists>st p q. pool_reachable 3 st \<and> tp_workers st = [(p, Processing), (q, Processing)] \<and> pd_type p = kTransactionPacket
    \<and> pd_type q = kGetDagSyncPacket"
proof -
  have "\<exists>st. pool_run 3 [PushEvent (plain_packet kGetDagSyncPacket Low), PushEvent (plain_packet kTransactionPacket Mid),
      TakeEvent True, TakeEvent True] = Some st \<and>
      tp_workers st = [((plain_packet kTransactionPacket Mid)\<lparr>pd_id := 1\<rparr>, Processing),
        ((plain_packet kGetDagSyncPacket Low)\<lparr>pd_id := 0\<rparr>, Processing)]"
    by (simp add: pool_run_defs)
  then show ?thesis using pool_run_reachable by fastforce
qed

section \<open>No assertion fails\<close>



section \<open>Which packets are in progress together\<close>

text \<open>
  C5: Two workers never process at the same time two packets of a type that is served one at a time, two packets with the same dag
  block, or a dag block packet and a transaction packet that the same peer had sent before it.
\<close>

theorem pool_mutual_exclusion:
  assumes "pool_reachable n st" and "i < length (tp_workers st)" and "j < length (tp_workers st)" and "i \<noteq> j"
    and "tp_workers st ! i = (p, Processing)" and "tp_workers st ! j = (q, Processing)"
  shows "\<not> (one_at_a_time (pd_type p) \<and> pd_type q = pd_type p) \<and>
    \<not> (pd_type p = kDagBlockPacket \<and> pd_type q = kDagBlockPacket \<and> packet_sig p = packet_sig q) \<and>
    \<not> (pd_type p = kDagBlockPacket \<and> pd_type q = kTransactionPacket \<and> pd_from p = pd_from q \<and> pd_id q < pd_id p)"
proof -
  have inv: "pool_inv st" by (rule pool_inv_reachable[OF assms(1)])
  have pq: "p \<in> set (processing st)" "q \<in> set (processing st)"
    using assms(2,3,5,6) by (force simp: processing_def processing_of_def in_set_conv_nth)+
  have "distinct (map (pd_id \<circ> fst) (tp_workers st))" using inv by (simp add: pool_inv_def pool_packets_def)
  then have ids: "pd_id p \<noteq> pd_id q" using assms(2-6) by (fastforce simp: distinct_conv_nth)
  have one: "\<not> (one_at_a_time (pd_type p) \<and> pd_type q = pd_type p)"
    using inv pq ids unfolding pool_inv_def exclusive_def by metis
  have dag: False if t: "pd_type p = kDagBlockPacket" "pd_type q = kDagBlockPacket" and same: "packet_sig p = packet_sig q"
  proof -
    have "packet_ok p" using inv pq(1) processing_subset[of st] by (auto simp: pool_inv_def)
    then obtain s where s: "packet_sig p = Inr s" using t by (auto simp: packet_ok_def)
    then have "(s, pd_id p) \<in> sig_rel (set (processing st))" "(s, pd_id q) \<in> sig_rel (set (processing st))"
      using t pq same by (auto simp: sig_rel_def)
    then have "um_find (processing_dag_blocks (blocked_packets_mask (tp_queue st))) s = Some (pd_id p)"
      "um_find (processing_dag_blocks (blocked_packets_mask (tp_queue st))) s = Some (pd_id q)"
      using inv by (auto simp: pool_inv_def mask_ok_defs)
    then show False using ids by simp
  qed
  have "\<not> pd_id q < pd_id p"
    if "pd_type p = kDagBlockPacket" "pd_type q = kTransactionPacket" "pd_from p = pd_from q"
    using inv pq that unfolding pool_inv_def dag_after_txs_def by (metis UnI2 not_less_iff_gr_or_eq)
  then show ?thesis using one dag by blast
qed

theorem pool_mutual_exclusion_witness:
  "\<exists>st p q. pool_reachable 3 st \<and> tp_workers st = [(p, Processing), (q, Processing)] \<and> pd_type q = kGetDagSyncPacket
    \<and> \<not> (one_at_a_time (pd_type q) \<and> pd_type p = pd_type q)"
proof -
  obtain st p q where st: "pool_reachable 3 st" "tp_workers st = [(p, Processing), (q, Processing)]" "pd_type q = kGetDagSyncPacket"
    using two_packets_run by blast
  show ?thesis using st pool_mutual_exclusion[OF st(1), of 1 0 q p] by (intro exI[of _ st] exI[of _ p] exI[of _ q]) simp
qed

section \<open>A dag block waits for its transactions\<close>

text \<open>
  C8: When a dag block packet is being processed, no transaction packet that its peer had sent before it is still queued or being
  processed: the dag block never overtakes the transactions it may contain.
\<close>

theorem dag_block_after_transactions:
  assumes "pool_reachable n st" and "(p, Processing) \<in> set (tp_workers st)" and "pd_type p = kDagBlockPacket"
    and "t \<in> set (queued st prio) \<union> set (processing st)" and "pd_type t = kTransactionPacket" and "pd_from t = pd_from p"
  shows "pd_id p < pd_id t"
proof -
  have inv: "pool_inv st" by (rule pool_inv_reachable[OF assms(1)])
  have "p \<in> set (processing st)" using assms(2) by (force simp: processing_def processing_of_def)
  moreover have "t \<in> set (queued st Mid) \<union> set (processing st)"
  proof (cases "t \<in> set (queued st prio)")
    case True
    then have "packet_ok t" "pd_priority t = prio"
      using inv queued_subset[of st prio] by (auto simp: pool_inv_def queue_inv_def queued_def)
    then show ?thesis using assms(5) True by (simp add: packet_ok_def)
  qed (use assms(4) in blast)
  ultimately show ?thesis using inv assms(3,5,6) unfolding pool_inv_def dag_after_txs_def by metis
qed

theorem dag_block_after_transactions_witness:
  "\<exists>st p t. pool_reachable 3 st \<and> (p, Processing) \<in> set (tp_workers st) \<and> pd_type p = kDagBlockPacket \<and> t \<in> set (queued st Mid)
    \<and> pd_type t = kTransactionPacket \<and> pd_from t = pd_from p \<and> pd_id p < pd_id t"
proof -
  let ?b = "dag_block_init\<lparr>db_level := 3, db_tips := [1, 2]\<rparr>"
  define p where "p = (plain_packet kDagBlockPacket Mid)\<lparr>pd_rlp := encode (dag_block_item ?b)\<rparr>"
  define t where "t = plain_packet kTransactionPacket Mid"
  have p: "pd_type p = kDagBlockPacket" "pd_priority p = Mid" "pd_from p = 7" "pd_rlp p = encode (dag_block_item ?b)"
    by (simp_all add: p_def)
  note ok = dag_packet_ok[OF sample_block_fits p(1,2,4)]
  obtain st where st: "pool_run 3 [PushEvent p, PushEvent t, TakeEvent True] = Some st"
      "tp_workers st = [(p\<lparr>pd_id := 0\<rparr>, Processing)]" "queued st Mid = [t\<lparr>pd_id := 1\<rparr>]"
    using ok p(1-3) by (simp add: pool_run_defs queued_def t_def del: encode.simps)
  have "pd_id (p\<lparr>pd_id := 0\<rparr>) < pd_id (t\<lparr>pd_id := 1\<rparr>)"
    by (rule dag_block_after_transactions[OF pool_run_reachable[OF st(1)], where prio=Mid]) (use st p in \<open>simp_all add: t_def\<close>)
  then show ?thesis
    using st p pool_run_reachable[OF st(1)]
    by (intro exI[of _ st] exI[of _ "p\<lparr>pd_id := 0\<rparr>"] exI[of _ "t\<lparr>pd_id := 1\<rparr>"]) (simp add: t_def)
qed

section \<open>Packets that are not well formed\<close>

text \<open>
  C40: A dag block packet that a peer fills with a list of neither two nor eight items passes the constructor of \<open>PacketData\<close> and is
  queued; when the pool is idle the next worker that looks for a packet fails the assertion of \<open>dagBlockFromDagPacket\<close>. Whether
  the packet has the right size is checked nowhere before.
\<close>

theorem malformed_dag_packet_asserts:
  assumes "pool_reachable n st" and "\<not> tp_stopProcessing st" and "pool_packets st = []"
    and "PacketData kDagBlockPacket node b = Inr p" and "itemCount (pd_rlp p) = Inr k" and "k \<noteq> 2" and "k \<noteq> 8"
  shows "tp_take e (snd (tp_push (v, p) st)) = Inl PoolAssert"
proof -
  let ?st = "snd (tp_push (v, p) st)" and ?p = "p\<lparr>pd_id := tp_packets_count st\<rparr>"
  let ?r = "tp_queue ?st"
  have p: "pd_type p = kDagBlockPacket" "pd_priority p = Mid" using assms(4) by (auto simp: PacketData_def)
  have inv: "pool_inv st" "limits_inv n st" using assms(1) by (rule pool_inv_reachable, rule limits_reachable)
  have q: "pq_packets (packets_queues (tp_queue st) prio) = []" "act_packets_count (packets_queues (tp_queue st) prio) = 0"
    "act_workers_count (packets_queues (tp_queue st) prio) = 0" for prio
    using assms(3) inv(1) by (cases prio; simp add: pool_packets_def queued_def pool_inv_def queue_inv_def count_inv_def)+
  have w: "tp_workers st = []" "processing st = []" using assms(3) by (simp_all add: pool_packets_def processing_def)
  have mask: "mask_ok (blocked_packets_mask (tp_queue st)) {}" "act_total_workers_count (tp_queue st) = 0"
    using inv(1) w by (simp_all add: pool_inv_def count_inv_def)
  have "\<not> isPacketHardBlocked (blocked_packets_mask (tp_queue st)) ?p" using hard_blocked_iff[OF mask(1)] by simp
  moreover have "processing_dag_levels (blocked_packets_mask (tp_queue st)) = []"
    using mask(1) level_head(2)[of "processing_dag_levels (blocked_packets_mask (tp_queue st))"]
    by (auto simp: mask_ok_defs level_rel_def)
  moreover have "packet_sig ?p = Inl PoolAssert"
    using assms(5-7) by (simp add: packet_sig_def dagBlockFromDagPacket_def)
  ultimately have "isPacketBlocked e (blocked_packets_mask (tp_queue st)) ?p = Inl PoolAssert"
    by (simp add: isPacketBlocked_def isDagBlockPacketBlockedByLevel_def getSmallestDagLevelBeingProcessed_def
        isDagBlockPacketBlockedBySameDagBlock_def p)
  moreover have "0 < MAX_TOTAL_WORKERS_COUNT (tp_queue st)" "\<not> kMaxWorkersCount (packets_queues (tp_queue st) prio) \<le> 0" for prio
    using inv(2) by (auto simp: limits_inv_def dest: spec[of _ prio])
  ultimately show ?thesis
    using assms(2) by (simp add: tp_take_def tp_push_def Let_def pr_pushBack_def pq_pushBack_def pr_pop_def all_priorities_def
        pq_empty_def maxWorkersCountReached_def pq_pop_def p q mask(2))
qed

theorem malformed_dag_packet_asserts_witness:
  "\<exists>st p. PacketsThreadPool 3 = Inr st \<and> PacketData kDagBlockPacket 7 [0xc0] = Inr p
    \<and> tp_take True (snd (tp_push (0, p) st)) = Inl PoolAssert"
proof -
  have "encode (Items []) = [0xc0]" "fits (Items [])" by (simp_all add: fits_def size_prefix_def)
  then have rlp: "RLP [0xc0] VeryStrict = Inr [0xc0]" "itemCount [0xc0] = Inr 0"
    using RLP_encode[of "Items []"] itemCount_encode[of "[]"] by simp_all
  obtain st where st: "PacketsThreadPool 3 = Inr st" "\<not> tp_stopProcessing st" "pool_packets st = []"
    by (simp add: pool_run_defs pool_packets_def queued_def)
  define p where "p = \<lparr>pd_id = 0, pd_type = kDagBlockPacket, pd_priority = Mid, pd_from = 7, pd_rlp = [0xc0]\<rparr>"
  have p: "PacketData kDagBlockPacket 7 [0xc0] = Inr p" using rlp by (simp add: PacketData_def p_def)
  show ?thesis
    using st p rlp(2) malformed_dag_packet_asserts[OF pool_reachable.start[OF st(1)] st(2,3) p, of 0 True 0] by (simp add: p_def)
qed

section \<open>The reserved threads\<close>

text \<open>The states of a pool with five workers on the way to five busy ones.\<close>

definition queue_at :: "packet_data list \<Rightarrow> nat \<Rightarrow> nat \<Rightarrow> packets_queue" where
  "queue_at ps k w = \<lparr>pq_packets = map (Pair 0) ps, kMaxWorkersCount = k, act_workers_count = w, act_packets_count = length ps\<rparr>"

definition pool_at ::
  "packets_queue \<Rightarrow> packets_queue \<Rightarrow> packets_queue \<Rightarrow> packet_id list \<Rightarrow> u64 \<Rightarrow> packet_data list \<Rightarrow> packets_thread_pool" where
  "pool_at high mid low txs c ws = \<lparr>tp_stopProcessing = False, tp_packets_count = c,
     tp_queue = \<lparr>packets_queues = case_packet_priority high mid low,
       blocked_packets_mask = mask_new\<lparr>peer_order_blocked_packet_types := if txs = [] then [] else [(kDagBlockPacket, [(7, txs)])]\<rparr>,
       MAX_TOTAL_WORKERS_COUNT = 5, act_total_workers_count = length ws\<rparr>,
     tp_workers = map (\<lambda>p. (p, Processing)) ws\<rparr>"

lemma queues_upd:
  "(case_packet_priority h m l)(High := x) = case_packet_priority x m l"
  "(case_packet_priority h m l)(Mid := x) = case_packet_priority h x l"
  "(case_packet_priority h m l)(Low := x) = case_packet_priority h m x"
  by (auto simp: fun_eq_iff split: packet_priority.split)

definition vote_packet :: "packet_id \<Rightarrow> packet_data" where
  "vote_packet i = (plain_packet kVotePacket High)\<lparr>pd_id := i\<rparr>"

definition tx_packet :: "packet_id \<Rightarrow> packet_data" where
  "tx_packet i = (plain_packet kTransactionPacket Mid)\<lparr>pd_id := i\<rparr>"

lemmas at_defs = pool_at_def queue_at_def queues_upd vote_packet_def tx_packet_def pool_run_defs

lemma five_start: "PacketsThreadPool 5 = Inr (pool_at (queue_at [] 2 0) (queue_at [] 2 0) (queue_at [] 1 0) [] 0 [])"
  by (simp add: at_defs fun_eq_iff split: packet_priority.split)

lemma five_votes:
  "pool_exec [PushEvent (plain_packet kVotePacket High), PushEvent (plain_packet kVotePacket High), PushEvent (plain_packet kVotePacket High)]
     (pool_at (queue_at [] 2 0) mid low [] 0 []) = Some (pool_at (queue_at [vote_packet 0, vote_packet 1, vote_packet 2] 2 0) mid low [] 3 [])"
  by (simp add: at_defs)

lemma five_take_votes:
  "pool_exec [TakeEvent True, TakeEvent True]
     (pool_at (queue_at [vote_packet 0, vote_packet 1, vote_packet 2] 2 0) mid low [] 3 [])
   = Some (pool_at (queue_at [vote_packet 2] 2 2) mid low [] 3 [vote_packet 0, vote_packet 1])"
  by (simp add: at_defs numeral_2_eq_2 numeral_3_eq_3)

lemma five_borrow:
  "pool_exec [TakeEvent True]
     (pool_at (queue_at [vote_packet 2] 2 2) (queue_at [] 2 0) (queue_at [] 1 0) [] 3 [vote_packet 0, vote_packet 1])
   = Some (pool_at (queue_at [] 2 3) (queue_at [] 2 0) (queue_at [] 1 0) [] 3 [vote_packet 0, vote_packet 1, vote_packet 2])"
  by (simp add: at_defs numeral_2_eq_2 numeral_3_eq_3)

lemma five_txs:
  "pool_exec [PushEvent (plain_packet kTransactionPacket Mid), PushEvent (plain_packet kTransactionPacket Mid)]
     (pool_at high (queue_at [] 2 0) low [] 3 ws) = Some (pool_at high (queue_at [tx_packet 3, tx_packet 4] 2 0) low [] 5 ws)"
  by (simp add: at_defs)

lemma five_take_txs:
  "pool_exec [TakeEvent True, TakeEvent True]
     (pool_at (queue_at [] 2 3) (queue_at [tx_packet 3, tx_packet 4] 2 0) low [] 5 [vote_packet 0, vote_packet 1, vote_packet 2])
   = Some (pool_at (queue_at [] 2 3) (queue_at [] 2 2) low [3, 4] 5
       [vote_packet 0, vote_packet 1, vote_packet 2, tx_packet 3, tx_packet 4])"
  by (simp add: at_defs, simp only: numeral_2_eq_2)

text \<open>
  The rule that each priority keeps a thread for itself does not hold. With five workers the limits are two, two and one: three vote
  packets occupy three workers, the third on a borrowed thread, then two transaction packets occupy the other two, and a status
  packet of low priority, which waits for no other packet, is not taken although no packet of its priority is in progress.
\<close>

theorem low_priority_starved:
  "\<exists>st. pool_reachable 5 st \<and> map (\<lambda>(p, ph). (pd_priority p, ph)) (tp_workers st)
      = [(High, Processing), (High, Processing), (High, Processing), (Mid, Processing), (Mid, Processing)]
    \<and> map pd_type (queued st Low) = [kStatusPacket] \<and> \<not> must_wait True (set (processing st)) (hd (queued st Low))
    \<and> tp_take True st = Inr None"
proof -
  let ?ws = "[vote_packet 0, vote_packet 1, vote_packet 2, tx_packet 3, tx_packet 4]"
  let ?st = "pool_at (queue_at [] 2 3) (queue_at [] 2 2) (queue_at [] 1 0) [3, 4] 5 ?ws"
  let ?s = "plain_packet kStatusPacket Low"
  have "pool_reachable 5 ?st"
    by (rule pool_exec_reachable[OF five_take_txs] pool_exec_reachable[OF five_txs] pool_exec_reachable[OF five_borrow]
        pool_exec_reachable[OF five_take_votes] pool_exec_reachable[OF five_votes] pool_reachable.start[OF five_start])+
  then have "pool_reachable 5 (snd (tp_push (0, ?s) ?st))"
    by (rule pool_reachable.step[OF _ pool_step.push]) (simp_all add: pool_at_def)
  then show ?thesis
    by (rule exI[of _ "snd (tp_push (0, ?s) ?st)", OF conjI])
      (simp add: at_defs queued_def processing_def must_wait_def blocks_type_def one_at_a_time_def)
qed

section \<open>The pool refines a first-come pool\<close>

text \<open>
  What the pool promises, on the queued packets of each priority and the packets in progress: a packet arrives at the end of its queue,
  the first packet of a queue that does not have to wait is taken, or a packet is done.
\<close>

type_synonym pool_spec = "(packet_priority \<Rightarrow> packet_data list) \<times> packet_data list"

inductive spec_step :: "pool_spec \<Rightarrow> pool_spec \<Rightarrow> bool" where
  arrive: "spec_step (Q, W) (Q(pd_priority p := Q (pd_priority p) @ [p]), W)"
| serve: "Q prio = front @ p # rest \<Longrightarrow> \<forall>x\<in>set front. must_wait e (set W) x \<Longrightarrow> \<not> must_wait e (set W) p \<Longrightarrow>
    spec_step (Q, W) (Q(prio := front @ rest), W @ [p])"
| complete: "spec_step (Q, us @ p # vs) (Q, us @ vs)"

definition abs_pool :: "packets_thread_pool \<Rightarrow> pool_spec" where
  "abs_pool st = (queued st, processing st)"

lemma finish_effect:
  assumes "i < length (tp_workers st)" and "tp_finish i st = Inr st'"
  obtains us p ph vs where "tp_workers st = us @ (p, ph) # vs" "queued st' = queued st"
    "tp_workers st' = us @ (case ph of Processing \<Rightarrow> [(p, Unblocked)] | Unblocked \<Rightarrow> [(p, TotalDone)] | TotalDone \<Rightarrow> []) @ vs"
proof -
  obtain p ph where pph: "tp_workers st ! i = (p, ph)" by (cases "tp_workers st ! i")
  define us where "us = take i (tp_workers st)"
  define vs where "vs = drop (Suc i) (tp_workers st)"
  have ws: "tp_workers st = us @ (p, ph) # vs" using id_take_nth_drop[OF assms(1)] by (simp add: us_def vs_def pph)
  have upd: "(tp_workers st)[i := w] = us @ w # vs" for w by (simp add: us_def vs_def upd_conv_take_nth_drop assms(1))
  have "queued st' = queued st \<and>
      tp_workers st' = us @ (case ph of Processing \<Rightarrow> [(p, Unblocked)] | Unblocked \<Rightarrow> [(p, TotalDone)] | TotalDone \<Rightarrow> []) @ vs"
    using assms(2)
    by (cases ph) (auto simp: tp_finish_def pph upd us_def[symmetric] vs_def[symmetric] queued_def fun_eq_iff finish_unblock_def
        finish_total_def finish_queue_def decrementActWorkersCount_def split: if_splits)
  then show ?thesis using that ws by blast
qed

text \<open>
  C7: Every step of the pool, on its counters, its queues and the tables of its blocking mask, is a step of that abstract pool or leaves
  the abstract state as it is. In particular the mask finds the same packet to take as looking at the packets in progress.
\<close>

theorem pool_refines_spec:
  assumes "pool_reachable n st" and "pool_step st st'"
  shows "abs_pool st' = abs_pool st \<or> spec_step (abs_pool st) (abs_pool st')"
  using assms(2)
proof cases
  case (push p v)
  show ?thesis
  proof (cases "tp_stopProcessing st")
    case False
    let ?p = "p\<lparr>pd_id := tp_packets_count st\<rparr>"
    have "queued st' = (queued st)(pd_priority ?p := queued st (pd_priority ?p) @ [?p])" "processing st' = processing st"
      using False push by (auto simp: tp_push_def Let_def queued_def pr_pushBack_def pq_pushBack_def processing_def fun_eq_iff)
    then show ?thesis using arrive[of "queued st" "processing st" ?p] by (simp add: abs_pool_def)
  qed (use push in \<open>simp add: tp_push_def\<close>)
next
  case stop
  then show ?thesis by (simp add: abs_pool_def tp_stop_def queued_def processing_def fun_eq_iff)
next
  case (take e)
  show ?thesis
  proof (rule take_cases[OF pool_inv_reachable[OF assms(1)], of e])
    fix prio front v rest m
    assume t: "tp_take e st = Inr (Some (taken st prio front (snd v) rest m))"
      and v: "pq_packets (packets_queues (tp_queue st) prio) = front @ v # rest"
      and w: "\<forall>x\<in>set front. must_wait e (set (processing st)) (snd x)" "\<not> must_wait e (set (processing st)) (snd v)"
    have "queued st prio = map snd front @ snd v # map snd rest" using v by (simp add: queued_def)
    then have "spec_step (queued st, processing st)
        ((queued st)(prio := map snd front @ map snd rest), processing st @ [snd v])"
      by (rule serve[where e=e]) (use w in auto)
    moreover have "queued st' = (queued st)(prio := map snd front @ map snd rest)" "processing st' = processing st @ [snd v]"
      using t take by (auto simp: fun_eq_iff)
    ultimately show ?thesis by (simp add: abs_pool_def)
  qed (use take in simp)
next
  case (finish i)
  then obtain us p ph vs where f: "tp_workers st = us @ (p, ph) # vs" "queued st' = queued st"
    "tp_workers st' = us @ (case ph of Processing \<Rightarrow> [(p, Unblocked)] | Unblocked \<Rightarrow> [(p, TotalDone)] | TotalDone \<Rightarrow> []) @ vs"
    by (rule finish_effect)
  then show ?thesis
    using complete[of "queued st" "processing_of us" p "processing_of vs"] by (cases ph) (simp_all add: abs_pool_def processing_def)
qed

theorem pool_refines_spec_witness:
  "\<exists>st st'. pool_reachable 3 st \<and> tp_take True st = Inr (Some st') \<and> spec_step (abs_pool st) (abs_pool st')"
proof -
  obtain st st' where st: "pool_run 3 [PushEvent (plain_packet kTransactionPacket Mid)] = Some st" "tp_take True st = Inr (Some st')"
    "processing st' \<noteq> processing st"
    by (simp add: pool_run_defs processing_def)
  have "abs_pool st' \<noteq> abs_pool st" using st(3) by (simp add: abs_pool_def)
  then show ?thesis using st pool_refines_spec[OF pool_run_reachable[OF st(1)] pool_step.take[OF st(2)]] pool_run_reachable[OF st(1)] by blast
qed

section \<open>The pool drains\<close>

text \<open>What is left to do: four steps for a queued packet, and the steps its worker still has to make for one in progress.\<close>

fun phase_work :: "worker_phase \<Rightarrow> nat" where
  "phase_work Processing = 3"
| "phase_work Unblocked = 2"
| "phase_work TotalDone = 1"

lemma phase_work_pos [simp]: "phase_work ph \<noteq> 0"
  by (cases ph) simp_all

definition pool_work :: "packets_thread_pool \<Rightarrow> nat" where
  "pool_work st = 4 * (length (queued st High) + length (queued st Mid) + length (queued st Low))
     + sum_list (map (phase_work \<circ> snd) (tp_workers st))"

text \<open>Steps of the workers alone, while the period data queue is empty; a stopped pool takes no more packets.\<close>

inductive worker_step :: "packets_thread_pool \<Rightarrow> packets_thread_pool \<Rightarrow> bool" where
  take: "\<not> tp_stopProcessing st \<Longrightarrow> tp_take True st = Inr (Some st') \<Longrightarrow> worker_step st st'"
| finish: "i < length (tp_workers st) \<Longrightarrow> tp_finish i st = Inr st' \<Longrightarrow> worker_step st st'"

inductive worker_run :: "nat \<Rightarrow> packets_thread_pool \<Rightarrow> packets_thread_pool \<Rightarrow> bool" where
  none: "worker_run 0 st st"
| more: "worker_run k st st' \<Longrightarrow> worker_step st' st'' \<Longrightarrow> worker_run (Suc k) st st''"

lemma worker_step_pool: "worker_step st st' \<Longrightarrow> pool_step st st'"
  by (auto elim: worker_step.cases intro: pool_step.intros)

lemma worker_step_work:
  assumes "pool_inv st" and "worker_step st st'"
  shows "pool_work st = Suc (pool_work st')"
  using assms(2)
proof cases
  case take
  show ?thesis
  proof (rule take_cases[OF assms(1), of True])
    fix prio front v rest m
    assume "tp_take True st = Inr (Some (taken st prio front (snd v) rest m))"
      and "pq_packets (packets_queues (tp_queue st) prio) = front @ v # rest"
    then show ?thesis using take by (cases prio) (auto simp: pool_work_def queued_def[of st])
  qed (use take in simp)
next
  case (finish i)
  then obtain us p ph vs where "tp_workers st = us @ (p, ph) # vs" "queued st' = queued st"
    "tp_workers st' = us @ (case ph of Processing \<Rightarrow> [(p, Unblocked)] | Unblocked \<Rightarrow> [(p, TotalDone)] | TotalDone \<Rightarrow> []) @ vs"
    by (rule finish_effect)
  then show ?thesis by (cases ph) (simp_all add: pool_work_def)
qed

text \<open>With nothing in progress nothing has to wait and no limit is reached.\<close>

lemma worker_progress:
  assumes "pool_reachable n st" and "pool_work st > 0" and "\<not> tp_stopProcessing st"
  shows "\<exists>st'. worker_step st st'"
proof (cases "tp_workers st = []")
  case True
  have inv: "pool_inv st" "limits_inv n st" using assms(1) by (rule pool_inv_reachable, rule limits_reachable)
  let ?r = "tp_queue st"
  have idle: "processing st = []" "act_total_workers_count ?r < MAX_TOTAL_WORKERS_COUNT ?r"
      "\<not> maxWorkersCountReached (packets_queues ?r prio)" for prio
    using True inv by (auto simp: processing_def pool_inv_def count_inv_def limits_inv_def maxWorkersCountReached_def not_le Suc_le_eq)
  have run: "runnable True {} q \<longleftrightarrow> pq_packets q \<noteq> []" for q by (cases "pq_packets q") (auto simp: runnable_def must_wait_def)
  have "runnable True {} (packets_queues ?r High) \<or> runnable True {} (packets_queues ?r Mid) \<or> runnable True {} (packets_queues ?r Low)"
    using assms(2) True by (auto simp: pool_work_def queued_def run)
  then have "\<exists>prio. runnable True (set (processing st)) (packets_queues ?r prio)" using idle(1) by auto
  then show ?thesis using idle(2,3) by (metis take_cases[OF inv(1), of True] worker_step.take assms(3))
next
  case False
  then show ?thesis using pool_finish[OF pool_inv_reachable[OF assms(1)], of 0] by (auto intro: worker_step.finish)
qed

lemma worker_step_stop: "worker_step st st' \<Longrightarrow> tp_stopProcessing st' = tp_stopProcessing st"
proof (induction rule: worker_step.induct)
  case (finish i st st')
  then show ?case by (auto simp: tp_finish_def split: prod.splits worker_phase.splits)
qed (auto simp: tp_take_def split: option.splits)

lemma worker_run_work:
  "worker_run k st st' \<Longrightarrow> pool_reachable n st \<Longrightarrow>
    pool_reachable n st' \<and> pool_work st = k + pool_work st' \<and> tp_stopProcessing st' = tp_stopProcessing st"
proof (induction rule: worker_run.induct)
  case (more k st st' st'')
  then show ?case
    using worker_step_work[OF pool_inv_reachable more(2)] worker_step_stop[OF more(2)]
    by (auto intro: pool_reachable.step worker_step_pool)
qed simp



end
