(* ===== verification/State_Result.thy ===== *)
theory State_Result
  imports Prelude
begin

text \<open>
  Stateful code that can fail: an action takes the state and returns an error or a value with the new state.
  The combinators are those the PBFT manager is written with; \<open>sr_valid\<close> is the partial-correctness triple, and
  its rules carry an invariant through a composed action without unfolding it.
\<close>

type_synonym ('e, 's, 'a) sr = "'s \<Rightarrow> 'e + 'a \<times> 's"

section \<open>Actions\<close>

definition sr_return :: "'a \<Rightarrow> ('e, 's, 'a) sr" where
  "sr_return a s = Inr (a, s)"

definition sr_bind :: "('e, 's, 'a) sr \<Rightarrow> ('a \<Rightarrow> ('e, 's, 'b) sr) \<Rightarrow> ('e, 's, 'b) sr" where
  "sr_bind m f s = (case m s of Inl e \<Rightarrow> Inl e | Inr (a, s') \<Rightarrow> f a s')"

definition sr_then :: "('e, 's, 'a) sr \<Rightarrow> ('e, 's, 'b) sr \<Rightarrow> ('e, 's, 'b) sr" where
  "sr_then m n = sr_bind m (\<lambda>_. n)"

definition sr_with :: "('s \<Rightarrow> ('e, 's, 'a) sr) \<Rightarrow> ('e, 's, 'a) sr" where
  "sr_with f s = f s s"

definition sr_modify :: "('s \<Rightarrow> 's) \<Rightarrow> ('e, 's, unit) sr" where
  "sr_modify f s = Inr ((), f s)"

definition sr_fail :: "'e \<Rightarrow> ('e, 's, 'a) sr" where
  "sr_fail e s = Inl e"

definition sr_lift :: "'e + 'a \<Rightarrow> ('e, 's, 'a) sr" where
  "sr_lift r s = (case r of Inl e \<Rightarrow> Inl e | Inr a \<Rightarrow> Inr (a, s))"

definition sr_assert :: "'e \<Rightarrow> bool \<Rightarrow> ('e, 's, unit) sr" where
  "sr_assert e b = (if b then sr_return () else sr_fail e)"

definition sr_when :: "bool \<Rightarrow> ('e, 's, unit) sr \<Rightarrow> ('e, 's, unit) sr" where
  "sr_when b m = (if b then m else sr_return ())"

fun sr_seq :: "('e, 's, unit) sr list \<Rightarrow> ('e, 's, unit) sr" where
  "sr_seq [] = sr_return ()"
| "sr_seq (m # ms) = sr_then m (sr_seq ms)"

fun sr_for :: "'x list \<Rightarrow> ('x \<Rightarrow> ('e, 's, unit) sr) \<Rightarrow> ('e, 's, unit) sr" where
  "sr_for [] f = sr_return ()"
| "sr_for (x # xs) f = sr_then (f x) (sr_for xs f)"

lemmas sr_defs = sr_return_def sr_bind_def sr_then_def sr_with_def sr_modify_def sr_fail_def sr_lift_def
  sr_assert_def sr_when_def

text \<open>The results of the combinators, as rewrite rules on a successful run.\<close>

lemma sr_Inr [simp]:
  "sr_return a s = Inr r \<longleftrightarrow> r = (a, s)"
  "sr_bind m f s = Inr r \<longleftrightarrow> (\<exists>b t. m s = Inr (b, t) \<and> f b t = Inr r)"
  "sr_then m n s = Inr r \<longleftrightarrow> (\<exists>b t. m s = Inr (b, t) \<and> n t = Inr r)"
  "sr_with g s = Inr r \<longleftrightarrow> g s s = Inr r"
  "sr_modify h s = Inr u \<longleftrightarrow> u = ((), h s)"
  "sr_fail e s \<noteq> Inr r"
  "sr_lift x s = Inr r \<longleftrightarrow> (\<exists>c. x = Inr c \<and> r = (c, s))"
  "sr_assert e p s = Inr u \<longleftrightarrow> p \<and> u = ((), s)"
  by (auto simp: sr_defs split: sum.splits)

section \<open>Triples\<close>

definition sr_valid :: "('s \<Rightarrow> bool) \<Rightarrow> ('e, 's, 'a) sr \<Rightarrow> ('a \<Rightarrow> 's \<Rightarrow> bool) \<Rightarrow> bool" where
  "sr_valid P m Q \<longleftrightarrow> (\<forall>s a s'. P s \<longrightarrow> m s = Inr (a, s') \<longrightarrow> Q a s')"

lemma sr_validI: "(\<And>s a s'. P s \<Longrightarrow> m s = Inr (a, s') \<Longrightarrow> Q a s') \<Longrightarrow> sr_valid P m Q"
  by (simp add: sr_valid_def)

lemma sr_validD: "sr_valid P m Q \<Longrightarrow> P s \<Longrightarrow> m s = Inr (a, s') \<Longrightarrow> Q a s'"
  by (simp add: sr_valid_def)

lemma sr_valid_weaken:
  "sr_valid P m Q \<Longrightarrow> (\<And>s. P' s \<Longrightarrow> P s) \<Longrightarrow> (\<And>a s. Q a s \<Longrightarrow> Q' a s) \<Longrightarrow> sr_valid P' m Q'"
  unfolding sr_valid_def by blast

lemma sr_valid_bind:
  "sr_valid P m R \<Longrightarrow> (\<And>a. sr_valid (R a) (f a) Q) \<Longrightarrow> sr_valid P (sr_bind m f) Q"
  unfolding sr_valid_def by (simp add: split_paired_Ex) blast

lemma sr_valid_with: "(\<And>s. P s \<Longrightarrow> sr_valid (\<lambda>t. t = s) (f s) Q) \<Longrightarrow> sr_valid P (sr_with f) Q"
  unfolding sr_valid_def by simp

text \<open>An action that keeps a predicate.\<close>

definition sr_keeps :: "('s \<Rightarrow> bool) \<Rightarrow> ('e, 's, 'a) sr \<Rightarrow> bool" where
  "sr_keeps I m \<longleftrightarrow> sr_valid I m (\<lambda>_. I)"

named_theorems keeps_intros \<open>actions that keep a predicate\<close>

lemma sr_keepsI: "(\<And>s a s'. I s \<Longrightarrow> m s = Inr (a, s') \<Longrightarrow> I s') \<Longrightarrow> sr_keeps I m"
  by (simp add: sr_keeps_def sr_valid_def)

lemma sr_keepsD: "sr_keeps I m \<Longrightarrow> m s = Inr (a, s') \<Longrightarrow> I s \<Longrightarrow> I s'"
  by (simp add: sr_keeps_def sr_valid_def)

lemma sr_keeps_basic [keeps_intros]:
  "sr_keeps I (sr_return a)" "sr_keeps I (sr_fail e)" "sr_keeps I (sr_lift r)" "sr_keeps I (sr_assert e b)"
  by (auto intro!: sr_keepsI)

lemma sr_keeps_bind [keeps_intros]:
  "sr_keeps I m \<Longrightarrow> (\<And>a. sr_keeps I (f a)) \<Longrightarrow> sr_keeps I (sr_bind m f)"
  unfolding sr_keeps_def by (rule sr_valid_bind)

lemma sr_keeps_then [keeps_intros]: "sr_keeps I m \<Longrightarrow> sr_keeps I n \<Longrightarrow> sr_keeps I (sr_then m n)"
  unfolding sr_then_def by (rule sr_keeps_bind)

lemma sr_keeps_with [keeps_intros]: "(\<And>s. sr_keeps I (f s)) \<Longrightarrow> sr_keeps I (sr_with f)"
  unfolding sr_keeps_def sr_valid_def by simp

lemma sr_keeps_modify [keeps_intros]: "(\<And>s. I s \<Longrightarrow> I (g s)) \<Longrightarrow> sr_keeps I (sr_modify g)"
  by (auto intro!: sr_keepsI)

lemma sr_keeps_if [keeps_intros]:
  "(b \<Longrightarrow> sr_keeps I m) \<Longrightarrow> (\<not> b \<Longrightarrow> sr_keeps I n) \<Longrightarrow> sr_keeps I (if b then m else n)"
  by simp

lemma sr_keeps_when [keeps_intros]: "(b \<Longrightarrow> sr_keeps I m) \<Longrightarrow> sr_keeps I (sr_when b m)"
  by (simp add: sr_when_def sr_keeps_basic)

lemma sr_keeps_option [keeps_intros]:
  "sr_keeps I m \<Longrightarrow> (\<And>x. r = Some x \<Longrightarrow> sr_keeps I (f x)) \<Longrightarrow> sr_keeps I (case r of None \<Rightarrow> m | Some x \<Rightarrow> f x)"
  by (cases r) simp_all

lemma sr_keeps_for [keeps_intros]: "(\<And>x. x \<in> set xs \<Longrightarrow> sr_keeps I (f x)) \<Longrightarrow> sr_keeps I (sr_for xs f)"
  by (induction xs) (auto intro!: keeps_intros)

lemma sr_keeps_seq [keeps_intros]: "(\<And>m. m \<in> set ms \<Longrightarrow> sr_keeps I m) \<Longrightarrow> sr_keeps I (sr_seq ms)"
  by (induction ms) (auto intro!: keeps_intros)

lemma sr_keeps_prod [keeps_intros]: "(\<And>x y. sr_keeps I (f x y)) \<Longrightarrow> sr_keeps I (case p of (x, y) \<Rightarrow> f x y)"
  by (cases p) simp

lemma sr_keeps_list [keeps_intros]:
  "sr_keeps I m \<Longrightarrow> (\<And>x xs. sr_keeps I (f x xs)) \<Longrightarrow> sr_keeps I (case l of [] \<Rightarrow> m | x # xs \<Rightarrow> f x xs)"
  by (cases l) simp_all

lemma sr_keeps_nested [keeps_intros]:
  "(\<And>x y z. sr_keeps I (f x y z q)) \<Longrightarrow> sr_keeps I ((case p of (x, y, z) \<Rightarrow> f x y z) q)"
  by (cases p) simp

lemma sr_valid_then: "sr_valid P m (\<lambda>_. R) \<Longrightarrow> sr_valid R n Q \<Longrightarrow> sr_valid P (sr_then m n) Q"
  unfolding sr_then_def by (rule sr_valid_bind)

lemma sr_valid_any_with: "(\<And>s. sr_valid P (f s) Q) \<Longrightarrow> sr_valid P (sr_with f) Q"
  unfolding sr_valid_def by simp

lemma sr_valid_modify: "(\<And>s. P s \<Longrightarrow> Q () (g s)) \<Longrightarrow> sr_valid P (sr_modify g) Q"
  by (auto intro!: sr_validI)

lemma sr_valid_True: "sr_valid P m (\<lambda>_ _. True)"
  by (auto intro!: sr_validI)

lemmas keeps_flow = sr_keeps_basic sr_keeps_bind sr_keeps_then sr_keeps_with sr_keeps_if sr_keeps_when
  sr_keeps_option sr_keeps_prod sr_keeps_list sr_keeps_nested

section \<open>Actions that move the state along a relation\<close>

definition sr_moves :: "('s \<Rightarrow> 's \<Rightarrow> bool) \<Rightarrow> ('e, 's, 'a) sr \<Rightarrow> bool" where
  "sr_moves R m \<longleftrightarrow> (\<forall>s a s'. m s = Inr (a, s') \<longrightarrow> R s s')"

lemma sr_movesI: "(\<And>s a s'. m s = Inr (a, s') \<Longrightarrow> R s s') \<Longrightarrow> sr_moves R m"
  by (simp add: sr_moves_def)

lemma sr_movesD: "sr_moves R m \<Longrightarrow> m s = Inr (a, s') \<Longrightarrow> R s s'"
  by (simp add: sr_moves_def)

text \<open>For a preorder the composed actions move along it when their parts do.\<close>

locale action_frame =
  fixes R :: "'s \<Rightarrow> 's \<Rightarrow> bool"
  assumes refl: "R s s" and trans: "R s t \<Longrightarrow> R t u \<Longrightarrow> R s u"
begin

lemma moves_basic: "sr_moves R (sr_return a)" "sr_moves R (sr_fail e)" "sr_moves R (sr_lift r)" "sr_moves R (sr_assert e b)"
  by (auto intro!: sr_movesI simp: refl)

lemma moves_bind: "sr_moves R m \<Longrightarrow> (\<And>a. sr_moves R (f a)) \<Longrightarrow> sr_moves R (sr_bind m f)"
  by (rule sr_movesI) (auto dest!: sr_movesD intro: trans)

lemma moves_then: "sr_moves R m \<Longrightarrow> sr_moves R n \<Longrightarrow> sr_moves R (sr_then m n)"
  unfolding sr_then_def by (rule moves_bind)

lemma moves_with: "(\<And>s. sr_moves R (f s)) \<Longrightarrow> sr_moves R (sr_with f)"
  by (rule sr_movesI) (auto dest: sr_movesD)

lemma moves_modify: "(\<And>s. R s (g s)) \<Longrightarrow> sr_moves R (sr_modify g)"
  by (rule sr_movesI) auto

lemma moves_if: "sr_moves R m \<Longrightarrow> sr_moves R n \<Longrightarrow> sr_moves R (if b then m else n)"
  by simp

lemma moves_when: "sr_moves R m \<Longrightarrow> sr_moves R (sr_when b m)"
  by (simp add: sr_when_def moves_basic)

lemma moves_option: "sr_moves R m \<Longrightarrow> (\<And>x. sr_moves R (f x)) \<Longrightarrow> sr_moves R (case r of None \<Rightarrow> m | Some x \<Rightarrow> f x)"
  by (cases r) simp_all

lemma moves_prod: "(\<And>x y. sr_moves R (f x y)) \<Longrightarrow> sr_moves R (case p of (x, y) \<Rightarrow> f x y)"
  by (cases p) simp

lemma moves_nested: "(\<And>x y z. sr_moves R (f x y z q)) \<Longrightarrow> sr_moves R ((case p of (x, y, z) \<Rightarrow> f x y z) q)"
  by (cases p) simp

lemma moves_list: "sr_moves R m \<Longrightarrow> (\<And>x xs. sr_moves R (f x xs)) \<Longrightarrow> sr_moves R (case l of [] \<Rightarrow> m | x # xs \<Rightarrow> f x xs)"
  by (cases l) simp_all

lemmas flow = moves_basic moves_bind moves_then moves_with moves_modify moves_if moves_when moves_option moves_prod
  moves_nested moves_list

end

end
