(* ===== verification/Pbft_Chain.thy ===== *)
theory Pbft_Chain
  imports Vote_Manager Transaction_Types State_Result
begin

text \<open>
  The data of the PBFT chain, \<open>core_libs/consensus/src/pbft\<close>: the head of the chain with what is stored of it
  (\<open>pbft_chain.cpp\<close>), the proposed blocks (\<open>proposed_blocks.cpp\<close>) and the queue of synced period data
  (\<open>period_data_queue.cpp\<close>), and the hardfork switches of \<open>config/hardfork.cpp\<close> the PBFT manager asks. The
  JSON text of the chain head is the tuple of its fields.
\<close>

section \<open>Blocks\<close>

text \<open>The extra data of a block is modelled by its optional pillar block hash; its version fields are not read.\<close>

record pbft_block =
  pb_hash :: h256
  pb_prev :: h256
  pb_pivot :: h256
  pb_order_hash :: h256
  pb_final_chain_hash :: h256
  pb_period :: pbft_period
  pb_reward_votes :: "h256 list"
  pb_extra_data :: "h256 option option"

text \<open>What the manager reads of a dag block, and the data of one period.\<close>

record dag_info =
  di_hash :: h256
  di_gas :: u64
  di_trxs :: "h256 list"

record pillar_vote =
  pv_hash :: h256
  pv_period :: pbft_period
  pv_block_hash :: h256
  pv_voter :: addr_t

record period_data =
  pd_blk :: pbft_block
  pd_prev_cert_votes :: "pbft_vote list"
  pd_dag_blocks :: "dag_info list"
  pd_transactions :: "transaction list"
  pd_pillar_votes :: "pillar_vote list option"

datatype pbft_error = PbftAssert | VmError vm_error | EmptyAccess | DivideByZero | Waiting | Uncaught

type_synonym 'a pbft_result = "pbft_error + 'a"

section \<open>The chain\<close>

record pbft_chain =
  pc_head_hash :: h256
  pc_size :: u64
  pc_non_empty_size :: u64
  pc_last_hash :: h256
  pc_last_anchor :: h256

text \<open>
  The columns of the database the chain and its period data use (\<open>storage.cpp\<close>): the heads by their hash, each
  \<open>head_hash\<close>, \<open>size\<close>, \<open>non_empty_size\<close> and \<open>last_pbft_block_hash\<close>; the period of a block hash; the data of a
  period; the period and position of finalized dag blocks and transactions; the hashes of those not finalized.
\<close>

record chain_db =
  cdb_heads :: "(h256, h256 \<times> u64 \<times> u64 \<times> h256) umap"
  cdb_block_period :: "(h256, u64) umap"
  cdb_period_data :: "(u64, period_data) umap"
  cdb_dag_period :: "(h256, u64 \<times> u32) umap"
  cdb_trx_location :: "(h256, u64 \<times> u32) umap"
  cdb_dag_blocks :: "h256 list"
  cdb_transactions :: "h256 list"

text \<open>The two loops of \<open>savePeriodData\<close> number the entries from 0.\<close>

fun save_positions :: "u64 \<Rightarrow> u32 \<Rightarrow> h256 list \<Rightarrow> (h256, u64 \<times> u32) umap \<Rightarrow> (h256, u64 \<times> u32) umap" where
  "save_positions period pos [] m = m"
| "save_positions period pos (h # hs) m = save_positions period (pos + 1) hs (um_put h (period, pos) m)"

definition savePeriodData :: "period_data \<Rightarrow> chain_db \<Rightarrow> chain_db" where
  "savePeriodData d db =
     (let period = pb_period (pd_blk d); dags = map di_hash (pd_dag_blocks d); trxs = map trx_hash (pd_transactions d) in
      db\<lparr>cdb_block_period := um_put (pb_hash (pd_blk d)) period (cdb_block_period db),
         cdb_dag_blocks := filter (\<lambda>h. h \<notin> set dags) (cdb_dag_blocks db),
         cdb_dag_period := save_positions period 0 dags (cdb_dag_period db),
         cdb_transactions := filter (\<lambda>h. h \<notin> set trxs) (cdb_transactions db),
         cdb_trx_location := save_positions period 0 trxs (cdb_trx_location db),
         cdb_period_data := um_put period d (cdb_period_data db)\<rparr>)"

definition pbftBlockInDb :: "chain_db \<Rightarrow> h256 \<Rightarrow> bool" where
  "pbftBlockInDb db h \<longleftrightarrow> um_find (cdb_block_period db) h \<noteq> None"

definition getPbftBlock :: "chain_db \<Rightarrow> h256 \<Rightarrow> pbft_block option" where
  "getPbftBlock db h =
     (case um_find (cdb_block_period db) h of
        None \<Rightarrow> None
      | Some period \<Rightarrow> map_option pd_blk (um_find (cdb_period_data db) period))"

definition getDagBlockPeriod :: "chain_db \<Rightarrow> h256 \<Rightarrow> bool \<times> pbft_period" where
  "getDagBlockPeriod db h = (case um_find (cdb_dag_period db) h of None \<Rightarrow> (False, 0) | Some (p, _) \<Rightarrow> (True, p))"

definition pc_empty :: pbft_chain where
  "pc_empty = \<lparr>pc_head_hash = 0, pc_size = 0, pc_non_empty_size = 0, pc_last_hash = 0, pc_last_anchor = 0\<rparr>"

definition getPbftBlockInChain :: "chain_db \<Rightarrow> h256 \<Rightarrow> pbft_block pbft_result" where
  "getPbftBlockInChain db h = (case getPbftBlock db h of None \<Rightarrow> Inl PbftAssert | Some b \<Rightarrow> Inr b)"

definition findPbftBlockInChain :: "chain_db \<Rightarrow> h256 \<Rightarrow> bool" where
  "findPbftBlockInChain db h \<longleftrightarrow> pbftBlockInDb db h"

text \<open>The loop of the constructor back to the last block with an anchor; \<open>None\<close> if it does not end.\<close>

partial_function (option) anchor_loop :: "chain_db \<Rightarrow> pbft_block \<Rightarrow> h256 pbft_result option" where
  "anchor_loop db b =
     (if pb_pivot b \<noteq> 0 then Some (Inr (pb_pivot b))
      else if pb_prev b = 0 then Some (Inr (pb_pivot b))
      else
        (case getPbftBlockInChain db (pb_prev b) of
           Inl e \<Rightarrow> Some (Inl e)
         | Inr b' \<Rightarrow> anchor_loop db b'))"

definition getJsonStr :: "pbft_chain \<Rightarrow> h256 \<times> u64 \<times> u64 \<times> h256" where
  "getJsonStr c = (pc_head_hash c, pc_size c, pc_non_empty_size c, pc_last_hash c)"

definition getJsonStrForBlock :: "pbft_chain \<Rightarrow> h256 \<Rightarrow> bool \<Rightarrow> h256 \<times> u64 \<times> u64 \<times> h256" where
  "getJsonStrForBlock c block_hash null_anchor =
     (pc_head_hash c, pc_size c + 1, (if \<not> null_anchor then pc_non_empty_size c + 1 else pc_non_empty_size c), block_hash)"

definition PbftChain :: "chain_db \<Rightarrow> (pbft_chain \<times> chain_db) pbft_result option" where
  "PbftChain db =
     (case um_find (cdb_heads db) (pc_head_hash pc_empty) of
        None \<Rightarrow>
          Some (Inr (pc_empty, db\<lparr>cdb_heads := um_put (pc_head_hash pc_empty) (getJsonStr pc_empty) (cdb_heads db)\<rparr>))
      | Some (head_hash, sz, non_empty, last_hash) \<Rightarrow>
          let c = \<lparr>pc_head_hash = head_hash, pc_size = sz, pc_non_empty_size = non_empty, pc_last_hash = last_hash, pc_last_anchor = 0\<rparr> in
          if last_hash \<noteq> 0 then
            (case getPbftBlockInChain db last_hash of
               Inl e \<Rightarrow> Some (Inl e)
             | Inr b \<Rightarrow>
                 (case anchor_loop db b of
                    None \<Rightarrow> None
                  | Some (Inl e) \<Rightarrow> Some (Inl e)
                  | Some (Inr a) \<Rightarrow> Some (Inr (c\<lparr>pc_last_anchor := a\<rparr>, db))))
          else Some (Inr (c, db)))"

definition updatePbftChain :: "h256 \<Rightarrow> h256 \<Rightarrow> pbft_chain \<Rightarrow> pbft_chain" where
  "updatePbftChain pbft_block_hash anchor_hash c =
     (let c1 = c\<lparr>pc_size := pc_size c + 1\<rparr>;
          c2 = (if anchor_hash \<noteq> kNullBlockHash
                then c1\<lparr>pc_non_empty_size := pc_non_empty_size c1 + 1, pc_last_anchor := anchor_hash\<rparr> else c1)
      in c2\<lparr>pc_last_hash := pbft_block_hash\<rparr>)"

definition checkPbftBlockValidation :: "pbft_chain \<Rightarrow> pbft_block \<Rightarrow> bool" where
  "checkPbftBlockValidation c b \<longleftrightarrow> pc_size c + 1 = pb_period b \<and> pb_prev b = pc_last_hash c"

text \<open>What a push writes for the chain, \<open>pushPbftBlock_\<close>: the head for the new block, the data of its period, and the head in memory.\<close>

definition chain_commit :: "period_data \<Rightarrow> pbft_chain \<times> chain_db \<Rightarrow> pbft_chain \<times> chain_db" where
  "chain_commit d cdb =
     (let b = pd_blk d; (c, db) = cdb;
          db1 = db\<lparr>cdb_heads := um_put (pc_head_hash c) (getJsonStrForBlock c (pb_hash b) (pb_pivot b = kNullBlockHash)) (cdb_heads db)\<rparr>
      in (updatePbftChain (pb_hash b) (pb_pivot b) c, savePeriodData d db1))"

section \<open>Proposed blocks\<close>

type_synonym proposed_blocks = "(pbft_period, (h256, pbft_block \<times> bool) umap) omap"

text \<open>The stored proposed blocks are the second state; without \<open>save_to_db\<close> the block is only kept in memory.\<close>

definition pushProposedPbftBlock ::
  "pbft_block \<Rightarrow> bool \<Rightarrow> proposed_blocks \<times> (h256, pbft_block) umap \<Rightarrow> bool \<times> proposed_blocks \<times> (h256, pbft_block) umap" where
  "pushProposedPbftBlock b save_to_db s =
     (let blocks = um_get_or [] (fst s) (pb_period b);
          db = (if save_to_db then um_put (pb_hash b) b (snd s) else snd s)
      in if um_find blocks (pb_hash b) = None
         then (True, om_put (pb_period b) (um_put (pb_hash b) (b, False) blocks) (fst s), db)
         else (False, om_put (pb_period b) blocks (fst s), db))"

text \<open>
  A period without blocks fails the assertion; a block that is not filed under its period is a write through the
  end iterator, \<open>EmptyAccess\<close>.
\<close>

definition markBlockAsValid :: "pbft_block \<Rightarrow> proposed_blocks \<Rightarrow> proposed_blocks pbft_result" where
  "markBlockAsValid b pb =
     (case um_find pb (pb_period b) of
        None \<Rightarrow> Inl PbftAssert
      | Some blocks \<Rightarrow>
          (case um_find blocks (pb_hash b) of
             None \<Rightarrow> Inl EmptyAccess
           | Some (b', _) \<Rightarrow> Inr (om_put (pb_period b) (um_put (pb_hash b) (b', True) blocks) pb)))"

definition getPbftProposedBlock :: "proposed_blocks \<Rightarrow> pbft_period \<Rightarrow> h256 \<Rightarrow> (pbft_block \<times> bool) option" where
  "getPbftProposedBlock pb period block_hash =
     (case um_find pb period of None \<Rightarrow> None | Some blocks \<Rightarrow> um_find blocks block_hash)"

definition isInProposedBlocks :: "proposed_blocks \<Rightarrow> pbft_period \<Rightarrow> h256 \<Rightarrow> bool" where
  "isInProposedBlocks pb period block_hash \<longleftrightarrow>
     (case um_find pb period of None \<Rightarrow> False | Some blocks \<Rightarrow> um_find blocks block_hash \<noteq> None)"

fun cleanupProposedPbftBlocksByPeriod ::
  "pbft_period \<Rightarrow> proposed_blocks \<times> (h256, pbft_block) umap \<Rightarrow> proposed_blocks \<times> (h256, pbft_block) umap" where
  "cleanupProposedPbftBlocksByPeriod period ([], db) = ([], db)"
| "cleanupProposedPbftBlocksByPeriod period ((p, blocks) # pb, db) =
     (if p < period then cleanupProposedPbftBlocksByPeriod period (pb, fold (\<lambda>e. um_erase (fst e)) blocks db)
      else ((p, blocks) # pb, db))"

text \<open>The message is the list of the old periods with the number of their blocks.\<close>

definition checkOldBlocksPresence :: "proposed_blocks \<Rightarrow> pbft_period \<Rightarrow> (pbft_period \<times> nat) list option" where
  "checkOldBlocksPresence pb current_period =
     (let msg = map (\<lambda>e. (fst e, length (snd e))) (takeWhile (\<lambda>e. fst e < current_period) pb)
      in if msg = [] then None else Some msg)"

definition getProposedBlocks :: "proposed_blocks \<Rightarrow> (pbft_period, pbft_block list) omap" where
  "getProposedBlocks pb = filter (\<lambda>e. snd e \<noteq> []) (map (\<lambda>e. (fst e, map (fst \<circ> snd) (snd e))) pb)"

section \<open>The queue of synced period data\<close>

record period_data_queue =
  pdq_queue :: "(period_data \<times> 512 word) list"
  pdq_period :: u64
  pdq_last_cert_votes :: "pbft_vote list"

definition pdq_new :: period_data_queue where
  "pdq_new = \<lparr>pdq_queue = [], pdq_period = 0, pdq_last_cert_votes = []\<rparr>"

definition pdq_size :: "period_data_queue \<Rightarrow> nat" where
  "pdq_size q =
     (if pdq_last_cert_votes q \<noteq> [] \<or> length (pdq_queue q) = 0 then length (pdq_queue q) else length (pdq_queue q) - 1)"

definition pdq_empty :: "period_data_queue \<Rightarrow> bool" where
  "pdq_empty q \<longleftrightarrow> pdq_queue q = []"

definition pdq_clear :: "period_data_queue \<Rightarrow> period_data_queue" where
  "pdq_clear q = q\<lparr>pdq_period := 0, pdq_queue := [], pdq_last_cert_votes := []\<rparr>"

definition pdq_push ::
  "period_data \<Rightarrow> 512 word \<Rightarrow> u64 \<Rightarrow> pbft_vote list \<Rightarrow> period_data_queue \<Rightarrow> bool \<times> period_data_queue" where
  "pdq_push d node max_pbft_size cert_votes q =
     (let period = pb_period (pd_blk d) in
      if period \<noteq> max (pdq_period q) max_pbft_size + 1 \<and> (pdq_queue q = [] \<and> period \<noteq> max_pbft_size + 2) then (False, q)
      else
        let q1 = (if max_pbft_size > pdq_period q \<and> pdq_queue q \<noteq> [] then q\<lparr>pdq_queue := []\<rparr> else q) in
        (True, q1\<lparr>pdq_period := period, pdq_queue := pdq_queue q1 @ [(d, node)], pdq_last_cert_votes := cert_votes\<rparr>))"

definition pdq_pop ::
  "period_data_queue \<Rightarrow> ((period_data \<times> pbft_vote list \<times> 512 word) \<times> period_data_queue) pbft_result" where
  "pdq_pop q =
     (case pdq_queue q of
        [] \<Rightarrow> Inl EmptyAccess
      | (d, node) # rest \<Rightarrow>
          (case rest of
             (d', _) # _ \<Rightarrow> Inr ((d, pd_prev_cert_votes d', node), q\<lparr>pdq_queue := rest\<rparr>)
           | [] \<Rightarrow> Inr ((d, pdq_last_cert_votes q, node), q\<lparr>pdq_queue := [], pdq_period := 0, pdq_last_cert_votes := []\<rparr>)))"

definition lastPbftBlock :: "period_data_queue \<Rightarrow> pbft_block option" where
  "lastPbftBlock q = (if pdq_queue q \<noteq> [] then Some (pd_blk (fst (last (pdq_queue q)))) else None)"

definition cleanOldData :: "u64 \<Rightarrow> period_data_queue \<Rightarrow> period_data_queue" where
  "cleanOldData period q = q\<lparr>pdq_queue := dropWhile (\<lambda>e. pb_period (pd_blk (fst e)) < period) (pdq_queue q)\<rparr>"

section \<open>Hardfork switches\<close>

text \<open>
  The intervals are divisors. \<open>FicusHardforkConfig::validate\<close> refuses an interval below 2; nothing checks
  \<open>lambda_change_interval\<close>, and the theorems do not depend on the value at 0.
\<close>

record ficus_config =
  ficus_block_num :: u64
  pillar_blocks_interval :: u64

record cacti_config =
  cacti_block_num :: u64
  lambda_min :: u32
  lambda_max :: u32
  lambda_default :: u32
  lambda_change_interval :: u32
  lambda_change :: u32
  block_propagation_min :: u32
  block_propagation_max :: u32
  consensus_delay :: u32

definition firstPillarBlockPeriod :: "ficus_config \<Rightarrow> u64" where
  "firstPillarBlockPeriod f = (if ficus_block_num f \<noteq> 0 then ficus_block_num f else pillar_blocks_interval f)"

definition isFicusHardfork :: "ficus_config \<Rightarrow> u64 \<Rightarrow> bool" where
  "isFicusHardfork f period \<longleftrightarrow> period \<ge> ficus_block_num f"

definition isPillarBlockPeriod :: "ficus_config \<Rightarrow> u64 \<Rightarrow> bool \<Rightarrow> bool" where
  "isPillarBlockPeriod f period skip_first \<longleftrightarrow> period \<ge> ficus_block_num f \<and>
     period \<ge> firstPillarBlockPeriod f + (if skip_first then 1 else 0) * pillar_blocks_interval f \<and>
     period mod pillar_blocks_interval f = 0"

definition isPbftWithPillarBlockPeriod :: "ficus_config \<Rightarrow> u64 \<Rightarrow> bool" where
  "isPbftWithPillarBlockPeriod f period \<longleftrightarrow> period \<ge> firstPillarBlockPeriod f \<and> period mod pillar_blocks_interval f = 1"

definition isOnCactiHardfork :: "cacti_config \<Rightarrow> u64 \<Rightarrow> bool" where
  "isOnCactiHardfork c block_number \<longleftrightarrow> block_number \<ge> cacti_block_num c"

definition isDynamicLambdaChangeInterval :: "cacti_config \<Rightarrow> u64 \<Rightarrow> bool" where
  "isDynamicLambdaChangeInterval c block_number \<longleftrightarrow>
     (block_number > cacti_block_num c \<and> block_number mod ucast (lambda_change_interval c) = 0) \<or> lambda_change_interval c = 1"

end
