(* ===== verification/Pbft_Manager.thy ===== *)
theory Pbft_Manager
  imports Pbft_Chain
begin

text \<open>
  The state of the PBFT manager (\<open>core_libs/consensus/src/pbft/pbft_manager.cpp\<close>) and the operations that move it
  between steps, rounds and periods, with the columns of the database they write. The final chain, the DAG manager,
  the transaction manager, the pillar chain, the network and the clock answer through the environment; the vote
  manager and the PBFT chain are their models. One operation happens at one instant \<open>pe_now\<close>. A wait that does not
  end in the environment is the error \<open>Waiting\<close>. A batch is shown as applied where it is committed.
\<close>

section \<open>Environment\<close>

datatype gossip =
    GossipVote pbft_vote "pbft_block option" bool
  | GossipVotesBundle "pbft_vote list" bool
  | GossipPillarVote bool
  | MaliciousPeer "512 word"
  | SyncStatePeriod u64

record pbft_env =
  pe_vote :: vote_env
  pe_now :: int
  pe_net :: bool
  pe_syncing :: bool
  pe_own_pillar_vote :: bool
  pe_lambda_ms :: u32
  pe_dag_blocks_size :: u32
  pe_ghost_path_move_back :: u32
  pe_pbft_gas_limit :: u64
  pe_dag_gas_limit :: u64
  pe_cornus_block_num :: u64
  pe_cornus_dag_gas_limit :: u64
  pe_cornus_pbft_gas_limit :: u64
  pe_ficus :: ficus_config
  pe_cacti :: cacti_config
  pe_dag_genesis :: h256
  pe_last_block_number :: u64
  pe_delegation_delay :: u64
  pe_dpos_eligible :: "u64 \<Rightarrow> addr_t \<Rightarrow> bool call"
  pe_final_chain_hash :: "pbft_period \<Rightarrow> h256 option"
  pe_ghost :: "h256 \<Rightarrow> h256 list"
  pe_dag_order :: "h256 \<Rightarrow> pbft_period \<Rightarrow> h256 list"
  pe_dag_block :: "h256 \<Rightarrow> dag_info option"
  pe_non_finalized :: "(u64 \<times> h256 list) list"
  pe_nonfinalized_trx :: "h256 list \<Rightarrow> transaction list"
  pe_pillar_block :: "(pbft_period \<times> h256) option"
  pe_create_pillar_block :: "pbft_period \<Rightarrow> h256 option"
  pe_finalize_pillar :: "h256 \<Rightarrow> pillar_vote list"
  pe_place_pillar_vote :: "pbft_period \<Rightarrow> h256 \<Rightarrow> addr_t \<Rightarrow> bool"
  pe_validate_pillar_vote :: "pillar_vote \<Rightarrow> bool"
  pe_add_pillar_vote :: "pillar_vote \<Rightarrow> u64"
  pe_pillar_threshold :: "pbft_period \<Rightarrow> u64 option"
  pe_voter_index_hash :: "pbft_vote \<Rightarrow> u64 \<Rightarrow> h256"
  pe_sha3 :: "8 word list \<Rightarrow> h256"
  pe_block_digest :: "pbft_block \<Rightarrow> addr_t \<Rightarrow> h256"
  pe_random :: nat

section \<open>State\<close>

datatype PbftStates = value_proposal_state | filter_state | certify_state | finish_state | finish_polling_state

record pbft_db =
  pdb_chain :: chain_db
  pdb_proposed :: "(h256, pbft_block) umap"
  pdb_round :: "u32 option"
  pdb_step :: "u32 option"
  pdb_lambda :: "u32 option"
  pdb_executed :: "bool option"
  pdb_next_voted_soft :: "bool option"
  pdb_next_voted_null :: "bool option"
  pdb_cert_voted :: "(pbft_round \<times> pbft_block) option"
  pdb_rounds_count :: "u32 option"
  pdb_period_lambda :: "(pbft_period, u32) omap"

record pbft_manager =
  pm_state :: PbftStates
  pm_round :: pbft_round
  pm_step :: pbft_step
  pm_lambda :: int
  pm_dynamic_lambda :: u32
  pm_rounds_count :: u32
  pm_broadcast_votes :: u32
  pm_rebroadcast_votes :: u32
  pm_broadcast_reward_votes :: u32
  pm_rebroadcast_reward_votes :: u32
  pm_cert_voted :: "pbft_block option"
  pm_broadcasted :: "(h256, pbft_step list) omap"
  pm_round_start :: int
  pm_period_start :: int
  pm_second_finish_start :: int
  pm_next_step_time :: int
  pm_executed :: bool
  pm_next_voted_value :: bool
  pm_next_voted_null :: bool
  pm_go_finish :: bool
  pm_loop_back_finish :: bool
  pm_pillar_vote_period :: pbft_period
  pm_sync_queue :: period_data_queue
  pm_proposed :: proposed_blocks
  pm_wallets :: "(bool \<times> addr_t) list"
  pm_wallets_period :: pbft_period
  pm_anchor_cache :: "(h256, dag_info list) umap"
  pm_chain :: pbft_chain
  pm_vm :: vote_manager
  pm_db :: pbft_db
  pm_sent :: "gossip list"

type_synonym 'a pm = "(pbft_error, pbft_manager, 'a) sr"

definition kPollingIntervalMs :: int where "kPollingIntervalMs = 100"
definition kMaxSteps :: pbft_step where "kMaxSteps = 13"
definition kMaxExponentialLambda :: int where "kMaxExponentialLambda = 60000"
definition kBroadcastVotesLambdaTime :: u32 where "kBroadcastVotesLambdaTime = 20"
definition kRebroadcastVotesLambdaTime :: u32 where "kRebroadcastVotesLambdaTime = 60"

text \<open>The vote manager asks the chain for its size.\<close>

definition venv :: "pbft_env \<Rightarrow> pbft_manager \<Rightarrow> vote_env" where
  "venv env s = (pe_vote env)\<lparr>ve_chain_size := pc_size (pm_chain s)\<rparr>"

definition vm_result :: "vm_error + 'a \<Rightarrow> 'a pm" where
  "vm_result r = sr_lift (map_sum VmError id r)"

definition vm_action :: "(vote_manager \<Rightarrow> vm_error + 'a \<times> vote_manager) \<Rightarrow> 'a pm" where
  "vm_action f s = (case f (pm_vm s) of Inl e \<Rightarrow> Inl (VmError e) | Inr (a, m) \<Rightarrow> Inr (a, s\<lparr>pm_vm := m\<rparr>))"

definition pm_send :: "gossip \<Rightarrow> pbft_manager \<Rightarrow> pbft_manager" where
  "pm_send g s = s\<lparr>pm_sent := pm_sent s @ [g]\<rparr>"

definition set_db :: "(pbft_db \<Rightarrow> pbft_db) \<Rightarrow> pbft_manager \<Rightarrow> pbft_manager" where
  "set_db f s = s\<lparr>pm_db := f (pm_db s)\<rparr>"

section \<open>Database fields\<close>

text \<open>A missing field is 1, a missing status false.\<close>

definition getPbftMgrField :: "u32 option \<Rightarrow> u32" where
  "getPbftMgrField f = (case f of Some v \<Rightarrow> v | None \<Rightarrow> 1)"

definition getPbftMgrStatus :: "bool option \<Rightarrow> bool" where
  "getPbftMgrStatus f = (case f of Some v \<Rightarrow> v | None \<Rightarrow> False)"

definition getRoundsCountDynamicLambda :: "pbft_db \<Rightarrow> u32" where
  "getRoundsCountDynamicLambda db = (case pdb_rounds_count db of Some v \<Rightarrow> v | None \<Rightarrow> 0)"

definition getPeriodLambda :: "pbft_db \<Rightarrow> pbft_period \<Rightarrow> bool \<Rightarrow> u32 option" where
  "getPeriodLambda db period find_closest =
     (if find_closest then
        (case filter (\<lambda>e. fst e \<le> period) (pdb_period_lambda db) of [] \<Rightarrow> None | es \<Rightarrow> Some (snd (last es)))
      else um_find (pdb_period_lambda db) period)"

definition getPbftPeriod :: "pbft_manager \<Rightarrow> pbft_period" where
  "getPbftPeriod s = pc_size (pm_chain s) + 1"

definition setPbftRound :: "pbft_round \<Rightarrow> pbft_manager \<Rightarrow> pbft_manager" where
  "setPbftRound round s = set_db (\<lambda>db. db\<lparr>pdb_round := Some round\<rparr>) s\<lparr>pm_round := round\<rparr>"

definition waitForPeriodFinalization :: "pbft_env \<Rightarrow> unit pm" where
  "waitForPeriodFinalization env =
     sr_with (\<lambda>s. sr_assert Waiting (pc_size (pm_chain s) \<le> pe_last_block_number env + pe_delegation_delay env))"

section \<open>Wallets\<close>

definition EligibleWallets :: "addr_t list \<Rightarrow> (bool \<times> addr_t) list" where
  "EligibleWallets wallets = map (Pair False) wallets"

fun set_eligible :: "pbft_env \<Rightarrow> pbft_period \<Rightarrow> (bool \<times> addr_t) list \<Rightarrow> (bool \<times> addr_t) list pbft_result" where
  "set_eligible env period [] = Inr []"
| "set_eligible env period ((_, w) # ws) =
     (case pe_dpos_eligible env period w of
        Ret b \<Rightarrow> (case set_eligible env period ws of Inl e \<Rightarrow> Inl e | Inr ws' \<Rightarrow> Inr ((b, w) # ws'))
      | _ \<Rightarrow> Inl Uncaught)"

definition updateWalletsEligibility :: "pbft_env \<Rightarrow> pbft_period \<Rightarrow> unit pm" where
  "updateWalletsEligibility env period =
     sr_with (\<lambda>s.
       sr_then (sr_assert PbftAssert (pm_wallets_period s < period \<or> period = 0))
       (sr_then (sr_assert PbftAssert (period \<le> pe_last_block_number env + pe_delegation_delay env))
       (sr_bind (sr_lift (set_eligible env period (pm_wallets s))) (\<lambda>ws.
        sr_modify (\<lambda>s. s\<lparr>pm_wallets := ws, pm_wallets_period := period\<rparr>)))))"

definition getWallets :: "pbft_period \<Rightarrow> (bool \<times> addr_t) list pm" where
  "getWallets current_pbft_period =
     sr_with (\<lambda>s.
       sr_then (sr_assert PbftAssert (pm_wallets_period s = current_pbft_period - 1)) (sr_return (pm_wallets s)))"

definition getCurrentDposTotalVotesCount :: "pbft_env \<Rightarrow> pbft_manager \<Rightarrow> u64 option pbft_result" where
  "getCurrentDposTotalVotesCount env s =
     (case ve_dpos_total (pe_vote env) (pc_size (pm_chain s)) of
        Ret n \<Rightarrow> Inr (Some n) | ErrFutureBlock \<Rightarrow> Inr None | ErrOther \<Rightarrow> Inl Uncaught)"

fun sum_votes :: "pbft_env \<Rightarrow> u64 \<Rightarrow> (bool \<times> addr_t) list \<Rightarrow> u64 \<Rightarrow> u64 option pbft_result" where
  "sum_votes env chain_size [] n = Inr (Some n)"
| "sum_votes env chain_size ((eligible, w) # ws) n =
     (if \<not> eligible then sum_votes env chain_size ws n
      else
        (case ve_dpos_votes (pe_vote env) chain_size w of
           Ret k \<Rightarrow> sum_votes env chain_size ws (n + k) | ErrFutureBlock \<Rightarrow> Inr None | ErrOther \<Rightarrow> Inl Uncaught))"

definition getCurrentNodeVotesCount :: "pbft_env \<Rightarrow> u64 option pm" where
  "getCurrentNodeVotesCount env =
     sr_with (\<lambda>s.
       sr_then (sr_assert Waiting (pm_wallets_period s = pc_size (pm_chain s)))
       (sr_bind (getWallets (getPbftPeriod s)) (\<lambda>ws. sr_lift (sum_votes env (pc_size (pm_chain s)) ws 0))))"

definition canParticipateInConsensus :: "pbft_env \<Rightarrow> pbft_period \<Rightarrow> addr_t \<Rightarrow> bool pbft_result" where
  "canParticipateInConsensus env period node_addr =
     (case pe_dpos_eligible env period node_addr of
        Ret b \<Rightarrow> Inr b | ErrFutureBlock \<Rightarrow> Inr False | ErrOther \<Rightarrow> Inl Uncaught)"

section \<open>Steps and lambda\<close>

text \<open>The new value of \<open>current_round_lambda_\<close> at an odd step from \<open>kMaxSteps\<close> on.\<close>

definition backoff_lambda :: "pbft_env \<Rightarrow> pbft_step \<Rightarrow> pbft_step \<Rightarrow> int \<Rightarrow> int" where
  "backoff_lambda env network_next_voting_step step current =
     (let default_lambda = uint (pe_lambda_ms env);
          l = (if step = kMaxSteps then default_lambda else current)
      in if network_next_voting_step > step \<and> network_next_voting_step - step \<ge> kMaxSteps - 4 then default_lambda
         else if l < kMaxExponentialLambda then min (l * 2) kMaxExponentialLambda
         else l)"

definition setPbftStep :: "pbft_env \<Rightarrow> pbft_step \<Rightarrow> pbft_manager \<Rightarrow> pbft_manager" where
  "setPbftStep env pbft_step s =
     (let s1 = (set_db (\<lambda>db. db\<lparr>pdb_step := Some pbft_step\<rparr>) s)\<lparr>pm_step := pbft_step\<rparr> in
      if kMaxSteps \<le> pbft_step \<and> pbft_step mod 2 \<noteq> 0 then
        s1\<lparr>pm_lambda := backoff_lambda env
             (getNetworkTplusOneNextVotingStep (pm_vm s1) (getPbftPeriod s1) (pm_round s1)) pbft_step (pm_lambda s1)\<rparr>
      else s1)"

definition getRoundLambda :: "pbft_env \<Rightarrow> pbft_manager \<Rightarrow> pbft_round \<Rightarrow> u32" where
  "getRoundLambda env s round = (if round = 1 then pm_dynamic_lambda s else lambda_default (pe_cacti env))"

definition adjustDynamicLambda :: "pbft_env \<Rightarrow> pbft_period \<Rightarrow> pbft_round \<Rightarrow> pbft_manager \<Rightarrow> pbft_manager" where
  "adjustDynamicLambda env finalized_period finalized_round s =
     (let cfg = pe_cacti env;
          s1 = s\<lparr>pm_rounds_count := pm_rounds_count s + finalized_round\<rparr>;
          s2 = (if isDynamicLambdaChangeInterval cfg finalized_period then
                  (let s' = (if pm_rounds_count s1 = lambda_change_interval cfg \<and> pm_dynamic_lambda s1 > lambda_min cfg then
                               (let d = pm_dynamic_lambda s1 - lambda_change cfg
                                in s1\<lparr>pm_dynamic_lambda := (if d < lambda_min cfg then lambda_min cfg else d)\<rparr>)
                             else s1)
                   in s'\<lparr>pm_rounds_count := 0\<rparr>)
                else s1);
          s3 = (if finalized_round > 1 \<and> pm_dynamic_lambda s2 < lambda_max cfg then
                  (let d = pm_dynamic_lambda s2 + lambda_change cfg
                   in s2\<lparr>pm_dynamic_lambda := (if d > lambda_max cfg then lambda_max cfg else d)\<rparr>)
                else s2)
      in set_db (\<lambda>db. db\<lparr>pdb_rounds_count := Some (pm_rounds_count s3), pdb_lambda := Some (pm_dynamic_lambda s3)\<rparr>) s3)"

definition getPbftDeadline :: "pbft_env \<Rightarrow> pbft_manager \<Rightarrow> int" where
  "getPbftDeadline env s =
     (if isOnCactiHardfork (pe_cacti env) (getPbftPeriod s) then
        let block_propagation =
              (if pm_round s > 1 then uint (block_propagation_max (pe_cacti env)) else uint (block_propagation_min (pe_cacti env)))
        in max (4 * pm_lambda s) block_propagation
      else 4 * pm_lambda s)"

definition calcBlocksPerYear :: "u32 \<Rightarrow> u32 \<Rightarrow> u32 pbft_result" where
  "calcBlocksPerYear lambda_ms delay_ms =
     (let year_ms = 365 * 24 * 60 * 60 * 1000 :: u64; expected_block_time = 2 * lambda_ms + delay_ms
      in if expected_block_time = 0 then Inl DivideByZero else Inr (ucast (year_ms div ucast expected_block_time)))"

definition getGasLimits :: "pbft_env \<Rightarrow> u64 \<Rightarrow> u64 \<times> u64" where
  "getGasLimits env block_number =
     (if block_number \<ge> pe_cornus_block_num env then (pe_cornus_dag_gas_limit env, pe_cornus_pbft_gas_limit env)
      else (pe_dag_gas_limit env, pe_pbft_gas_limit env))"

section \<open>Rounds and periods\<close>

text \<open>\<open>resetPbftConsensus\<close> up to the committed batch and the reset flags.\<close>

definition reset_round :: "pbft_env \<Rightarrow> pbft_round \<Rightarrow> pbft_manager \<Rightarrow> pbft_manager" where
  "reset_round env round s =
     (let s1 = s\<lparr>pm_broadcasted := [], pm_broadcast_votes := 1, pm_rebroadcast_votes := 1,
                 pm_round := round, pm_step := 1, pm_state := value_proposal_state\<rparr>;
          s2 = s1\<lparr>pm_lambda := (if isOnCactiHardfork (pe_cacti env) (getPbftPeriod s1)
                                then uint (getRoundLambda env s1 round) else uint (pe_lambda_ms env))\<rparr>;
          s3 = set_db (\<lambda>db. db\<lparr>pdb_round := Some round, pdb_step := Some 1,
                              pdb_next_voted_null := Some False, pdb_next_voted_soft := Some False,
                              pdb_cert_voted := (if pm_cert_voted s2 \<noteq> None then None else pdb_cert_voted db)\<rparr>) s2
      in s3\<lparr>pm_cert_voted := None, pm_vm := clearOwnVerifiedVotes (pm_vm s3),
            pm_next_voted_null := False, pm_next_voted_value := False\<rparr>)"

definition resetPbftConsensus :: "pbft_env \<Rightarrow> pbft_round \<Rightarrow> unit pm" where
  "resetPbftConsensus env round =
     sr_then (sr_modify (reset_round env round))
     (sr_then (sr_with (\<lambda>s. sr_when (pm_executed s)
        (sr_then (waitForPeriodFinalization env)
          (sr_modify (\<lambda>s. (set_db (\<lambda>db. db\<lparr>pdb_executed := Some False\<rparr>) s)\<lparr>pm_executed := False\<rparr>)))))
     (sr_then (sr_with (\<lambda>s. vm_action (\<lambda>m. map_sum id (Pair ()) (setCurrentPbftPeriodAndRound (getPbftPeriod s) round m))))
     (sr_modify (\<lambda>s. s\<lparr>pm_round_start := pe_now env\<rparr>))))"

definition cleanup_proposed :: "pbft_period \<Rightarrow> pbft_manager \<Rightarrow> pbft_manager" where
  "cleanup_proposed period s =
     (case cleanupProposedPbftBlocksByPeriod period (pm_proposed s, pdb_proposed (pm_db s)) of
        (pb, db) \<Rightarrow> set_db (\<lambda>d. d\<lparr>pdb_proposed := db\<rparr>) s\<lparr>pm_proposed := pb\<rparr>)"

definition advancePeriod :: "pbft_env \<Rightarrow> bool pm" where
  "advancePeriod env =
     sr_then (resetPbftConsensus env 1)
     (sr_then (sr_modify (\<lambda>s. s\<lparr>pm_broadcast_reward_votes := 1, pm_rebroadcast_reward_votes := 1, pm_period_start := pe_now env\<rparr>))
     (sr_with (\<lambda>s. let chain_size = pc_size (pm_chain s) in
       sr_then (updateWalletsEligibility env chain_size)
       (sr_then (sr_modify (\<lambda>s. s\<lparr>pm_vm := vm_cleanupVotesByPeriod chain_size (pm_vm s)\<rparr>))
       (sr_then (sr_modify (cleanup_proposed (chain_size + 1))) (sr_return True))))))"

definition advanceRound :: "pbft_env \<Rightarrow> bool pm" where
  "advanceRound env =
     sr_with (\<lambda>s.
       case determineNewRound (pm_vm s) (getPbftPeriod s) (pm_round s) of
         None \<Rightarrow> sr_return False
       | Some new_round \<Rightarrow>
           sr_then (sr_assert PbftAssert (new_round > pm_round s))
           (sr_then (resetPbftConsensus env new_round) (sr_return True)))"

section \<open>State changes\<close>

definition reset_next_voted :: "pbft_manager \<Rightarrow> pbft_manager" where
  "reset_next_voted s =
     (set_db (\<lambda>db. db\<lparr>pdb_next_voted_soft := Some False, pdb_next_voted_null := Some False\<rparr>) s)
       \<lparr>pm_next_voted_value := False, pm_next_voted_null := False\<rparr>"

definition setFilterState :: "pbft_env \<Rightarrow> pbft_manager \<Rightarrow> pbft_manager" where
  "setFilterState env s =
     (let s1 = setPbftStep env (pm_step s + 1) (s\<lparr>pm_state := filter_state\<rparr>) in s1\<lparr>pm_next_step_time := 2 * pm_lambda s1\<rparr>)"

definition setCertifyState :: "pbft_env \<Rightarrow> pbft_manager \<Rightarrow> pbft_manager" where
  "setCertifyState env s =
     (let s1 = setPbftStep env (pm_step s + 1) (s\<lparr>pm_state := certify_state\<rparr>) in s1\<lparr>pm_next_step_time := 2 * pm_lambda s1\<rparr>)"

definition setFinishState :: "pbft_env \<Rightarrow> pbft_manager \<Rightarrow> pbft_manager" where
  "setFinishState env s =
     (let s1 = setPbftStep env (pm_step s + 1) (s\<lparr>pm_state := finish_state\<rparr>) in s1\<lparr>pm_next_step_time := getPbftDeadline env s1\<rparr>)"

definition setFinishPollingState :: "pbft_env \<Rightarrow> pbft_manager \<Rightarrow> pbft_manager" where
  "setFinishPollingState env s =
     (let s1 = reset_next_voted (setPbftStep env (pm_step s + 1) (s\<lparr>pm_state := finish_polling_state\<rparr>))
      in s1\<lparr>pm_second_finish_start := pe_now env, pm_next_step_time := pm_next_step_time s1 + kPollingIntervalMs\<rparr>)"

definition loopBackFinishState :: "pbft_env \<Rightarrow> pbft_manager \<Rightarrow> pbft_manager" where
  "loopBackFinishState env s =
     (let s1 = reset_next_voted (setPbftStep env (pm_step s + 1) (s\<lparr>pm_state := finish_state\<rparr>))
      in s1\<lparr>pm_next_step_time := pm_next_step_time s1 + kPollingIntervalMs\<rparr>)"

end
