(* ===== verification/Pbft_Blocks.thy ===== *)
theory Pbft_Blocks
  imports Pbft_Manager Rlp_Codec
begin

text \<open>
  The blocks of the PBFT manager: the checks a proposed block must pass, the choice of the leader block, the choice
  of the anchor and the new block a node proposes, and the reordering of the transactions of a period.
  \<open>generatePbftBlock\<close> catches what the final chain throws; here such an exception ends the run.
\<close>

section \<open>Order hash and weight\<close>

definition list_at :: "'a list \<Rightarrow> nat \<Rightarrow> 'a pbft_result" where
  "list_at xs i = (if i < length xs then Inr (xs ! i) else Inl EmptyAccess)"

definition calculateOrderHash :: "pbft_env \<Rightarrow> h256 list \<Rightarrow> h256 pbft_result" where
  "calculateOrderHash env dag_block_hashes =
     (if dag_block_hashes = [] then Inr kNullBlockHash
      else
        (case rlp_enc (put_all (appendList 1 # appendList (length dag_block_hashes) # map put_hash dag_block_hashes)) of
           Inl _ \<Rightarrow> Inl Uncaught
         | Inr out \<Rightarrow> Inr (pe_sha3 env out)))"

definition checkBlockWeight :: "pbft_env \<Rightarrow> dag_info list \<Rightarrow> pbft_period \<Rightarrow> bool" where
  "checkBlockWeight env dag_blocks period =
     (let total_weight = fold (\<lambda>d (value :: u256). value + ucast (di_gas d)) dag_blocks 0
      in \<not> ucast (snd (getGasLimits env period)) < total_weight)"

section \<open>Validation\<close>

datatype PbftStateRootValidation = Valid | Missing | Invalid

definition validateFinalChainHash :: "pbft_env \<Rightarrow> pbft_block \<Rightarrow> PbftStateRootValidation" where
  "validateFinalChainHash env b =
     (case pe_final_chain_hash env (pb_period b) of
        None \<Rightarrow> Missing
      | Some h \<Rightarrow> if pb_final_chain_hash b \<noteq> h then Invalid else Valid)"

definition validatePbftBlockExtraData :: "pbft_env \<Rightarrow> pbft_block \<Rightarrow> bool" where
  "validatePbftBlockExtraData env b =
     (if isFicusHardfork (pe_ficus env) (pb_period b) then
        (case pb_extra_data b of
           None \<Rightarrow> False
         | Some pillar_block_hash \<Rightarrow>
             if isPbftWithPillarBlockPeriod (pe_ficus env) (pb_period b) then pillar_block_hash \<noteq> None
             else pillar_block_hash = None)
      else pb_extra_data b = None)"

definition validatePillarDataInPeriodData :: "pbft_env \<Rightarrow> period_data \<Rightarrow> bool" where
  "validatePillarDataInPeriodData env d =
     (if \<not> validatePbftBlockExtraData env (pd_blk d) then False
      else if isPbftWithPillarBlockPeriod (pe_ficus env) (pb_period (pd_blk d)) then pd_pillar_votes d \<noteq> None
      else pd_pillar_votes d = None)"

text \<open>The check of the pillar block hash inside \<open>validatePbftBlock\<close>.\<close>

definition check_pillar_hash :: "pbft_env \<Rightarrow> pbft_block \<Rightarrow> bool pbft_result" where
  "check_pillar_hash env b =
     (if isPbftWithPillarBlockPeriod (pe_ficus env) (pb_period b) then
        (case pe_pillar_block env of
           None \<Rightarrow> Inr False
         | Some (_, h) \<Rightarrow>
             (case pb_extra_data b of
                Some (Some h') \<Rightarrow> Inr (h' = h)
              | _ \<Rightarrow> Inl EmptyAccess))
      else Inr True)"

fun get_dag_blocks :: "pbft_env \<Rightarrow> h256 list \<Rightarrow> dag_info list pbft_result" where
  "get_dag_blocks env [] = Inr []"
| "get_dag_blocks env (h # hs) =
     (case pe_dag_block env h of
        None \<Rightarrow> Inl PbftAssert
      | Some d \<Rightarrow> (case get_dag_blocks env hs of Inl e \<Rightarrow> Inl e | Inr ds \<Rightarrow> Inr (d # ds)))"

text \<open>The part of \<open>validatePbftBlock\<close> for an anchor that is not in the cache.\<close>

definition validate_anchor :: "pbft_env \<Rightarrow> pbft_block \<Rightarrow> bool pm" where
  "validate_anchor env b =
     (let anchor = pb_pivot b; dag_blocks_order = pe_dag_order env anchor (pb_period b) in
      if dag_blocks_order = [] then sr_return False
      else
        sr_bind (sr_lift (calculateOrderHash env dag_blocks_order)) (\<lambda>calculated_order_hash.
        if calculated_order_hash \<noteq> pb_order_hash b then sr_return False
        else
          sr_bind (sr_lift (get_dag_blocks env dag_blocks_order)) (\<lambda>dags.
          sr_then (sr_modify (\<lambda>s. s\<lparr>pm_anchor_cache := um_put anchor dags (pm_anchor_cache s)\<rparr>))
          (sr_with (\<lambda>s.
            if pc_last_hash (pm_chain s) \<noteq> 0 then
              sr_bind (sr_lift (getPbftBlockInChain (pdb_chain (pm_db s)) (pc_last_hash (pm_chain s)))) (\<lambda>prev_pbft_block.
              let ghost = pe_ghost env (pb_pivot prev_pbft_block) in
              if length ghost > 1 \<and> anchor \<noteq> ghost ! 1 \<and> \<not> checkBlockWeight env dags (pb_period b)
              then sr_then (sr_modify (\<lambda>s. s\<lparr>pm_anchor_cache := um_erase anchor (pm_anchor_cache s)\<rparr>)) (sr_return False)
              else sr_return True)
            else sr_return True)))))"

definition validatePbftBlock :: "pbft_env \<Rightarrow> pbft_block \<Rightarrow> bool pm" where
  "validatePbftBlock env b =
     sr_with (\<lambda>s.
       if \<not> checkPbftBlockValidation (pm_chain s) b then sr_return False
       else if validateFinalChainHash env b \<noteq> Valid then sr_return False
       else
         sr_bind (vm_result (checkRewardVotes (pm_vm s) (pb_period b) (pb_reward_votes b) False)) (\<lambda>reward_votes.
         if \<not> fst reward_votes then sr_return False
         else if \<not> validatePbftBlockExtraData env b then sr_return False
         else
           sr_bind (sr_lift (check_pillar_hash env b)) (\<lambda>pillar_ok.
           if \<not> pillar_ok then sr_return False
           else if pb_pivot b = kNullBlockHash then sr_return True
           else if um_find (pm_anchor_cache s) (pb_pivot b) \<noteq> None then sr_return True
           else validate_anchor env b)))"

definition getValidPbftProposedBlock ::
  "pbft_env \<Rightarrow> proposed_blocks \<Rightarrow> pbft_period \<Rightarrow> h256 \<Rightarrow> (pbft_block option \<times> proposed_blocks) pm" where
  "getValidPbftProposedBlock env pb period block_hash =
     (case getPbftProposedBlock pb period block_hash of
        None \<Rightarrow> sr_return (None, pb)
      | Some (block, validated) \<Rightarrow>
          if validated then sr_return (Some block, pb)
          else
            sr_bind (validatePbftBlock env block) (\<lambda>ok.
            if \<not> ok then sr_return (None, pb)
            else sr_bind (sr_lift (markBlockAsValid block pb)) (\<lambda>pb'. sr_return (Some block, pb'))))"

text \<open>The same on the manager's own \<open>proposed_blocks_\<close>.\<close>

definition valid_proposed :: "pbft_env \<Rightarrow> pbft_period \<Rightarrow> h256 \<Rightarrow> pbft_block option pm" where
  "valid_proposed env period block_hash =
     sr_with (\<lambda>s.
       sr_bind (getValidPbftProposedBlock env (pm_proposed s) period block_hash) (\<lambda>r.
       sr_then (sr_modify (\<lambda>s. s\<lparr>pm_proposed := snd r\<rparr>)) (sr_return (fst r))))"

section \<open>The leader block\<close>

fun lowest_hash_loop :: "(u64 \<Rightarrow> h256) \<Rightarrow> nat \<Rightarrow> u64 \<Rightarrow> h256 \<Rightarrow> h256" where
  "lowest_hash_loop f 0 i lowest = lowest"
| "lowest_hash_loop f (Suc k) i lowest =
     (let tmp = f i in lowest_hash_loop f k (i + 1) (if lowest > tmp then tmp else lowest))"

text \<open>
  \<open>i \<le> vote->getWeight()\<close> compares with an \<open>optional\<close>: without a weight the loop does not run. A weight of
  \<open>2 ^ 64 - 1\<close> would never end the loop of the code; it has one pass per vote of the voter.
\<close>

definition getProposal :: "pbft_env \<Rightarrow> pbft_vote \<Rightarrow> h256" where
  "getProposal env v =
     (let f = pe_voter_index_hash env v
      in lowest_hash_loop f (case v_weight v of None \<Rightarrow> 0 | Some w \<Rightarrow> unat w - 1) 2 (f 1))"

definition leader_candidates :: "pbft_env \<Rightarrow> pbft_vote list \<Rightarrow> (h256, pbft_vote) omap" where
  "leader_candidates env propose_votes =
     fold (\<lambda>v. om_put (getProposal env v) v) (filter (\<lambda>v. v_block v \<noteq> kNullBlockHash) propose_votes) []"

fun leader_loop ::
  "pbft_env \<Rightarrow> (h256 \<times> pbft_vote) list \<Rightarrow> (pbft_block \<times> pbft_vote) option \<Rightarrow> proposed_blocks
     \<Rightarrow> ((pbft_block \<times> pbft_vote) option \<times> proposed_blocks) pm" where
  "leader_loop env [] empty_leader pb = sr_return (empty_leader, pb)"
| "leader_loop env ((_, v) # rest) empty_leader pb =
     sr_with (\<lambda>s.
       if findPbftBlockInChain (pdb_chain (pm_db s)) (v_block v) then leader_loop env rest empty_leader pb
       else
         sr_bind (getValidPbftProposedBlock env pb (v_period v) (v_block v)) (\<lambda>r.
         case fst r of
           None \<Rightarrow> leader_loop env rest empty_leader (snd r)
         | Some b \<Rightarrow>
             if pb_pivot b = kNullBlockHash
             then leader_loop env rest (if empty_leader = None then Some (b, v) else empty_leader) (snd r)
             else sr_return (Some (b, v), snd r)))"

definition identifyLeaderBlock ::
  "pbft_env \<Rightarrow> proposed_blocks \<Rightarrow> pbft_vote list \<Rightarrow> ((pbft_block \<times> pbft_vote) option \<times> proposed_blocks) pm" where
  "identifyLeaderBlock env pb propose_votes =
     (if propose_votes = [] then sr_return (None, pb)
      else leader_loop env (leader_candidates env propose_votes) None pb)"

section \<open>A new block\<close>

definition createPbftBlockExtraData :: "pbft_env \<Rightarrow> pbft_period \<Rightarrow> h256 option option" where
  "createPbftBlockExtraData env pbft_period =
     (if isPbftWithPillarBlockPeriod (pe_ficus env) pbft_period then
        (case pe_pillar_block env of
           None \<Rightarrow> None
         | Some (period, h) \<Rightarrow> if period \<noteq> pbft_period - 1 then None else Some (Some h))
      else Some None)"

definition make_block ::
  "pbft_env \<Rightarrow> h256 \<Rightarrow> h256 \<Rightarrow> h256 \<Rightarrow> h256 \<Rightarrow> pbft_period \<Rightarrow> h256 list \<Rightarrow> h256 option option \<Rightarrow> addr_t \<Rightarrow> pbft_block" where
  "make_block env prev anchor order_hash final_hash period reward_votes extra_data wallet =
     (let b = \<lparr>pb_hash = 0, pb_prev = prev, pb_pivot = anchor, pb_order_hash = order_hash, pb_final_chain_hash = final_hash,
               pb_period = period, pb_reward_votes = reward_votes, pb_extra_data = extra_data\<rparr>
      in b\<lparr>pb_hash := pe_block_digest env b wallet\<rparr>)"

text \<open>The loop over the wallets: the blocks and propose votes of those whose vote is new.\<close>

fun own_proposals ::
  "pbft_env \<Rightarrow> (addr_t \<Rightarrow> pbft_block) \<Rightarrow> pbft_period \<Rightarrow> addr_t list \<Rightarrow> proposed_blocks \<Rightarrow> pbft_vote list
     \<Rightarrow> (proposed_blocks \<times> pbft_vote list) pm" where
  "own_proposals env mk period [] pb votes = sr_return (pb, votes)"
| "own_proposals env mk period (w # ws) pb votes =
     sr_with (\<lambda>s.
       sr_bind (vm_result (generateVoteWithWeight (venv env s) (pb_hash (mk w)) propose_vote period (pm_round s) (pm_step s) w))
       (\<lambda>r. case r of
          None \<Rightarrow> own_proposals env mk period ws pb votes
        | Some v \<Rightarrow>
            if \<not> fst (isUniqueVote (pm_vm s) v) then own_proposals env mk period ws pb votes
            else own_proposals env mk period ws (fst (snd (pushProposedPbftBlock (mk w) False (pb, [])))) (votes @ [v])))"

definition push_proposed :: "pbft_block \<Rightarrow> bool \<Rightarrow> pbft_manager \<Rightarrow> pbft_manager" where
  "push_proposed b save_to_db s =
     (case pushProposedPbftBlock b save_to_db (pm_proposed s, pdb_proposed (pm_db s)) of
        (_, pb, db) \<Rightarrow> set_db (\<lambda>d. d\<lparr>pdb_proposed := db\<rparr>) (s\<lparr>pm_proposed := pb\<rparr>))"

definition generatePbftBlock ::
  "pbft_env \<Rightarrow> pbft_period \<Rightarrow> h256 \<Rightarrow> h256 \<Rightarrow> h256 \<Rightarrow> h256 option option \<Rightarrow> addr_t list
     \<Rightarrow> (pbft_block \<times> pbft_vote list \<times> pbft_vote) option pm" where
  "generatePbftBlock env propose_period prev anchor order_hash extra_data eligible_wallets =
     sr_with (\<lambda>s.
       sr_bind (vm_result (getRewardVotes (pm_vm s))) (\<lambda>reward_votes.
       sr_then (sr_assert PbftAssert
         (propose_period > 1 \<longrightarrow> reward_votes \<noteq> [] \<and> v_period (hd reward_votes) = propose_period - 1))
       (case pe_final_chain_hash env propose_period of
          None \<Rightarrow> sr_return None
        | Some final_hash \<Rightarrow>
            let hashes = map v_hash reward_votes;
                mk = make_block env prev anchor order_hash final_hash propose_period hashes extra_data
            in if eligible_wallets \<noteq> [] \<and> \<not> distinct hashes then sr_return None
               else
                 sr_bind (own_proposals env mk propose_period eligible_wallets [] []) (\<lambda>(pb, votes).
                 sr_bind (identifyLeaderBlock env pb votes) (\<lambda>r.
                 case fst r of
                   None \<Rightarrow> sr_return None
                 | Some (b, v) \<Rightarrow>
                     sr_bind (sr_with (\<lambda>s. vm_action (addVerifiedVote (venv env s) v))) (\<lambda>added.
                     if \<not> added then sr_return None
                     else
                       sr_then (sr_modify (push_proposed b True))
                       (sr_then (sr_modify (\<lambda>s. s\<lparr>pm_vm := saveOwnVerifiedVote v (pm_vm s)\<rparr>))
                       (sr_return (Some (b, reward_votes, v))))))))))"

definition processProposedBlock :: "pbft_block \<Rightarrow> pbft_manager \<Rightarrow> pbft_manager" where
  "processProposedBlock b s =
     (if isInProposedBlocks (pm_proposed s) (pb_period b) (pb_hash b) then s else push_proposed b True s)"

section \<open>The anchor\<close>

fun findClosestAnchor :: "h256 list \<Rightarrow> h256 list \<Rightarrow> nat \<Rightarrow> h256 pbft_result" where
  "findClosestAnchor ghost dag_order 0 = list_at ghost 1"
| "findClosestAnchor ghost dag_order (Suc i) =
     (case list_at dag_order i of
        Inl e \<Rightarrow> Inl e
      | Inr h \<Rightarrow> if h \<in> set ghost then Inr h else findClosestAnchor ghost dag_order i)"

function ghost_loop :: "h256 \<Rightarrow> h256 list \<Rightarrow> nat \<Rightarrow> nat" where
  "ghost_loop last_anchor ghost i =
     (if i < length ghost - 1 \<and> ghost ! i = last_anchor then ghost_loop last_anchor ghost (Suc i) else i)"
  by auto
termination by (relation "measure (\<lambda>(a, g, i). length g - i)") auto

declare ghost_loop.simps [simp del]

definition ghost_choice :: "pbft_env \<Rightarrow> h256 \<Rightarrow> h256 list \<Rightarrow> h256 pbft_result" where
  "ghost_choice env last_anchor ghost =
     (if length ghost \<le> unat (pe_dag_blocks_size env) then
        let start = (if length ghost < unat (pe_ghost_path_move_back env + 1) then 0
                     else of_nat (length ghost) - 1 - ucast (pe_ghost_path_move_back env) :: u64)
        in list_at ghost (ghost_loop last_anchor ghost (unat start))
      else list_at ghost (unat (pe_dag_blocks_size env - 1)))"

fun weight_loop :: "pbft_env \<Rightarrow> pbft_period \<Rightarrow> h256 list \<Rightarrow> u256 \<Rightarrow> nat \<Rightarrow> nat pbft_result" where
  "weight_loop env period [] total_weight included = Inr included"
| "weight_loop env period (h # hs) total_weight included =
     (case pe_dag_block env h of
        None \<Rightarrow> Inl PbftAssert
      | Some d \<Rightarrow>
          if total_weight + ucast (di_gas d) > ucast (snd (getGasLimits env period)) then Inr included
          else weight_loop env period hs (total_weight + ucast (di_gas d)) (included + 1))"

text \<open>From the chosen ghost block to the anchor and its order; \<open>None\<close> proposes the null anchor.\<close>

definition anchor_choice :: "pbft_env \<Rightarrow> pbft_period \<Rightarrow> h256 \<Rightarrow> (h256 \<times> h256 list) option pbft_result" where
  "anchor_choice env period last_anchor =
     (let ghost = pe_ghost env last_anchor in
      if ghost = [] then Inr None
      else
        (case ghost_choice env last_anchor ghost of
           Inl e \<Rightarrow> Inl e
         | Inr chosen \<Rightarrow>
             if chosen = pe_dag_genesis env then Inr None
             else if chosen = last_anchor \<and> pe_non_finalized env = [] then Inr None
             else
               (case (if chosen = last_anchor then list_at (snd (last (pe_non_finalized env))) 0 else Inr chosen) of
                  Inl e \<Rightarrow> Inl e
                | Inr anchor \<Rightarrow>
                    let order = pe_dag_order env anchor period in
                    if order = [] then Inl PbftAssert
                    else
                      (case weight_loop env period order 0 0 of
                         Inl e \<Rightarrow> Inl e
                       | Inr included \<Rightarrow>
                           if included \<noteq> length order then
                             (case findClosestAnchor ghost order included of
                                Inl e \<Rightarrow> Inl e
                              | Inr closest \<Rightarrow> Inr (Some (closest, pe_dag_order env closest period)))
                           else Inr (Some (anchor, order))))))"

fun sortition_wallets :: "pbft_period \<Rightarrow> pbft_round \<Rightarrow> vote_env \<Rightarrow> (bool \<times> addr_t) list \<Rightarrow> addr_t list pbft_result" where
  "sortition_wallets period rnd ve [] = Inr []"
| "sortition_wallets period rnd ve ((eligible, w) # ws) =
     (if \<not> eligible then sortition_wallets period rnd ve ws
      else
        (case genAndValidateVrfSortition ve period rnd w of
           Inl e \<Rightarrow> Inl (VmError e)
         | Inr ok \<Rightarrow>
             (case sortition_wallets period rnd ve ws of
                Inl e \<Rightarrow> Inl e
              | Inr rest \<Rightarrow> Inr (if ok then w # rest else rest))))"

definition proposePbftBlock :: "pbft_env \<Rightarrow> (pbft_block \<times> pbft_vote list \<times> pbft_vote) option pm" where
  "proposePbftBlock env =
     sr_with (\<lambda>s. let period = getPbftPeriod s in
       sr_bind (getWallets period) (\<lambda>ws.
       sr_bind (sr_lift (sortition_wallets period (pm_round s) (venv env s) ws)) (\<lambda>eligible_wallets.
       let prev = pc_last_hash (pm_chain s);
           last_anchor = (if pc_last_anchor (pm_chain s) = kNullBlockHash then pe_dag_genesis env else pc_last_anchor (pm_chain s));
           ficus = isFicusHardfork (pe_ficus env) period;
           extra_data = (if ficus then createPbftBlockExtraData env period else None)
       in if ficus \<and> extra_data = None then sr_return None
          else
            sr_bind (sr_lift (anchor_choice env period last_anchor)) (\<lambda>r.
            case r of
              None \<Rightarrow> generatePbftBlock env period prev kNullBlockHash kNullBlockHash extra_data eligible_wallets
            | Some (anchor, order) \<Rightarrow>
                sr_bind (sr_lift (calculateOrderHash env order)) (\<lambda>order_hash.
                generatePbftBlock env period prev anchor order_hash extra_data eligible_wallets)))))"

section \<open>Reordering transactions\<close>

text \<open>
  The accounts whose nonces go down, each with the position of its last transaction. Positions are counted by a
  32-bit loop variable in the code; a period has fewer transactions, and their senders have been recovered before.
\<close>

fun reverse_accounts ::
  "nat \<Rightarrow> transaction list \<Rightarrow> (addr_t, nat) umap \<Rightarrow> (addr_t, u256) umap \<Rightarrow> (addr_t, nat) umap" where
  "reverse_accounts i [] ro nonces = ro"
| "reverse_accounts i (t # ts) ro nonces =
     (case um_find ro (trx_sender t) of
        Some _ \<Rightarrow> reverse_accounts (Suc i) ts (um_put (trx_sender t) i ro) nonces
      | None \<Rightarrow>
          (case um_find nonces (trx_sender t) of
             None \<Rightarrow> reverse_accounts (Suc i) ts ro (um_put (trx_sender t) (trx_nonce t) nonces)
           | Some n \<Rightarrow>
               if n < trx_nonce t then reverse_accounts (Suc i) ts ro (um_put (trx_sender t) (trx_nonce t) nonces)
               else if n > trx_nonce t then reverse_accounts (Suc i) ts (um_put (trx_sender t) i ro) nonces
               else reverse_accounts (Suc i) ts ro nonces))"

text \<open>\<open>std::multimap::insert\<close>: after the entries with the same key.\<close>

fun mm_insert :: "u256 \<Rightarrow> 'v \<Rightarrow> (u256 \<times> 'v) list \<Rightarrow> (u256 \<times> 'v) list" where
  "mm_insert k v [] = [(k, v)]"
| "mm_insert k v ((k', v') # m) = (if k < k' then (k, v) # (k', v') # m else (k', v') # mm_insert k v m)"

fun place_transactions ::
  "(addr_t, nat) umap \<Rightarrow> nat \<Rightarrow> transaction list \<Rightarrow> (addr_t, (u256 \<times> transaction) list) umap \<Rightarrow> transaction list
     \<Rightarrow> transaction list" where
  "place_transactions ro i [] ant ordered = ordered"
| "place_transactions ro i (t # ts) ant ordered =
     (case um_find ro (trx_sender t) of
        None \<Rightarrow> place_transactions ro (Suc i) ts ant (ordered @ [t])
      | Some pos \<Rightarrow>
          let m = mm_insert (trx_nonce t) t (um_get_or [] ant (trx_sender t));
              ant' = um_put (trx_sender t) m ant
          in place_transactions ro (Suc i) ts ant' (if pos = i then ordered @ map snd m else ordered))"

definition reorderTransactions :: "transaction list \<Rightarrow> transaction list" where
  "reorderTransactions transactions =
     (let ro = reverse_accounts 0 transactions [] []
      in if ro \<noteq> [] then place_transactions ro 0 transactions [] [] else transactions)"

end
