(* ===== verification/Pbft_Voting.thy ===== *)
theory Pbft_Voting
  imports Pbft_Blocks
begin

text \<open>
  The voting steps of the PBFT manager: placing the votes of the wallets, the five states of a round, the broadcast
  of votes, and the start from the database.
\<close>

section \<open>Gossip\<close>

definition note_broadcast :: "pbft_vote \<Rightarrow> pbft_manager \<Rightarrow> pbft_manager" where
  "note_broadcast v s =
     s\<lparr>pm_broadcasted := om_put (v_block v) (um_get_or [] (pm_broadcasted s) (v_block v) @ [v_step v]) (pm_broadcasted s)\<rparr>"

definition gossipVote :: "pbft_env \<Rightarrow> pbft_vote \<Rightarrow> pbft_block option \<Rightarrow> bool \<Rightarrow> unit pm" where
  "gossipVote env v voted_block rebroadcast =
     sr_then (sr_assert PbftAssert (case voted_block of None \<Rightarrow> True | Some b \<Rightarrow> v_block v = pb_hash b))
     (sr_when (pe_net env) (sr_modify (pm_send (GossipVote v voted_block rebroadcast))))"

definition gossipNewOwnVote :: "pbft_env \<Rightarrow> pbft_vote \<Rightarrow> pbft_block option \<Rightarrow> unit pm" where
  "gossipNewOwnVote env v voted_block =
     sr_then (gossipVote env v voted_block (v_type v = propose_vote)) (sr_modify (note_broadcast v))"

definition gossipNewOwnVotesBundle :: "pbft_env \<Rightarrow> pbft_vote list \<Rightarrow> unit pm" where
  "gossipNewOwnVotesBundle env votes =
     sr_when (pe_net env) (sr_modify (\<lambda>s. fold note_broadcast votes (pm_send (GossipVotesBundle votes False) s)))"

section \<open>Placing votes\<close>

text \<open>The pillar block to vote for, decided before the loop over the wallets.\<close>

definition pillar_vote_target :: "pbft_env \<Rightarrow> pbft_manager \<Rightarrow> pbft_period \<Rightarrow> pbft_block option \<Rightarrow> h256 option pbft_result" where
  "pillar_vote_target env s period pbft_block =
     (if isPbftWithPillarBlockPeriod (pe_ficus env) period \<and> pm_pillar_vote_period s < period then
        (case pbft_block of
           Some b \<Rightarrow> (case pb_extra_data b of None \<Rightarrow> Inl EmptyAccess | Some h \<Rightarrow> Inr h)
         | None \<Rightarrow>
             Inr (case pe_pillar_block env of
                    Some (p, h) \<Rightarrow> if p = period - 1 then Some h else None
                  | None \<Rightarrow> None))
      else Inr None)"

text \<open>One wallet of the loop; the accumulator is \<open>success\<close> and \<open>valid_votes\<close>.\<close>

definition place_wallet_vote ::
  "pbft_env \<Rightarrow> PbftVoteTypes \<Rightarrow> pbft_period \<Rightarrow> pbft_round \<Rightarrow> pbft_step \<Rightarrow> h256 \<Rightarrow> pbft_block option \<Rightarrow> h256 option
     \<Rightarrow> addr_t \<Rightarrow> bool \<times> pbft_vote list \<Rightarrow> (bool \<times> pbft_vote list) pm" where
  "place_wallet_vote env ty period rnd step block_hash pbft_block pillar wallet acc =
     sr_with (\<lambda>s.
       sr_bind (vm_result (generateVoteWithWeight (venv env s) block_hash ty period rnd step wallet)) (\<lambda>r.
       case r of
         None \<Rightarrow> sr_return acc
       | Some v \<Rightarrow>
           sr_bind (vm_action (addVerifiedVote (venv env s) v)) (\<lambda>added.
           if \<not> added then sr_return acc
           else
             sr_then (sr_when (ty = propose_vote) (gossipNewOwnVote env v pbft_block))
             (sr_then (sr_modify (\<lambda>s. s\<lparr>pm_vm := saveOwnVerifiedVote v (pm_vm s)\<rparr>))
             (sr_then (sr_modify (\<lambda>s. case pillar of
                  None \<Rightarrow> s
                | Some h \<Rightarrow> if pe_place_pillar_vote env period h wallet then s\<lparr>pm_pillar_vote_period := period\<rparr> else s))
             (sr_return (True, if ty = propose_vote then snd acc else snd acc @ [v])))))))"

fun place_votes ::
  "(addr_t \<Rightarrow> bool \<times> pbft_vote list \<Rightarrow> (bool \<times> pbft_vote list) pm) \<Rightarrow> (bool \<times> addr_t) list
     \<Rightarrow> bool \<times> pbft_vote list \<Rightarrow> (bool \<times> pbft_vote list) pm" where
  "place_votes f [] acc = sr_return acc"
| "place_votes f ((eligible, w) # ws) acc =
     (if \<not> eligible then place_votes f ws acc else sr_bind (f w acc) (place_votes f ws))"

definition genAndPlaceVote ::
  "pbft_env \<Rightarrow> PbftVoteTypes \<Rightarrow> pbft_period \<Rightarrow> pbft_round \<Rightarrow> pbft_step \<Rightarrow> h256 \<Rightarrow> pbft_block option \<Rightarrow> bool pm" where
  "genAndPlaceVote env ty period rnd step block_hash pbft_block =
     sr_then (sr_assert PbftAssert
       (case pbft_block of None \<Rightarrow> True | Some b \<Rightarrow> pb_period b = period \<and> pb_hash b = block_hash))
     (sr_with (\<lambda>s.
       sr_bind (sr_lift (pillar_vote_target env s period pbft_block)) (\<lambda>pillar.
       sr_bind (getWallets period) (\<lambda>ws.
       sr_bind (place_votes (place_wallet_vote env ty period rnd step block_hash pbft_block pillar) ws (False, [])) (\<lambda>acc.
       sr_then (case snd acc of
                  [] \<Rightarrow> sr_return ()
                | [v] \<Rightarrow> gossipNewOwnVote env v pbft_block
                | vs \<Rightarrow> gossipNewOwnVotesBundle env vs)
       (sr_return (fst acc)))))))"

definition genAndPlaceProposeVote :: "pbft_env \<Rightarrow> pbft_block \<Rightarrow> pbft_vote list \<Rightarrow> bool pm" where
  "genAndPlaceProposeVote env b reward_votes =
     sr_with (\<lambda>s.
       if pb_period b \<noteq> getPbftPeriod s then sr_return False
       else
         sr_then (sr_when (pe_net env) (sr_modify (pm_send (GossipVotesBundle reward_votes False))))
         (genAndPlaceVote env propose_vote (getPbftPeriod s) (pm_round s) (pm_step s) (pb_hash b) (Some b)))"

section \<open>The five states\<close>

definition two_t_block :: "pbft_manager \<Rightarrow> pbft_round \<Rightarrow> TwoTPlusOneVotedBlockType \<Rightarrow> h256 option" where
  "two_t_block s rnd ty = getTwoTPlusOneVotedBlockHash (pm_vm s) (getPbftPeriod s) rnd ty"

definition proposeBlock :: "pbft_env \<Rightarrow> unit pm" where
  "proposeBlock env =
     sr_with (\<lambda>s.
       if pm_round s = 1 \<or> two_t_block s (pm_round s - 1) NextVotedNullBlock \<noteq> None then
         sr_bind (proposePbftBlock env) (\<lambda>r.
         case r of
           None \<Rightarrow> sr_return ()
         | Some (b, reward_votes, v) \<Rightarrow>
             sr_then (sr_when (pe_net env) (sr_modify (pm_send (GossipVotesBundle reward_votes False))))
             (gossipNewOwnVote env v (Some b)))
       else
         (case two_t_block s (pm_round s - 1) NextVotedBlock of
            None \<Rightarrow> sr_fail PbftAssert
          | Some h \<Rightarrow>
              sr_then (sr_assert PbftAssert (pm_round s > 1))
              (sr_bind (valid_proposed env (getPbftPeriod s) h) (\<lambda>r.
               case r of
                 None \<Rightarrow> sr_return ()
               | Some b \<Rightarrow>
                   sr_bind (sr_with (\<lambda>s. vm_result (checkRewardVotes (pm_vm s) (pb_period b) (pb_reward_votes b) True)))
                   (\<lambda>votes. if \<not> fst votes then sr_return ()
                            else sr_then (genAndPlaceProposeVote env b (snd votes)) (sr_return ()))))))"

definition identifyBlock :: "pbft_env \<Rightarrow> unit pm" where
  "identifyBlock env =
     sr_with (\<lambda>s. let period = getPbftPeriod s in
       if pm_round s = 1 \<or> two_t_block s (pm_round s - 1) NextVotedNullBlock \<noteq> None then
         sr_bind (identifyLeaderBlock env (pm_proposed s) (getProposalVotes (pm_vm s) period (pm_round s))) (\<lambda>r.
         sr_then (sr_modify (\<lambda>s. s\<lparr>pm_proposed := snd r\<rparr>))
         (case fst r of
            None \<Rightarrow> sr_return ()
          | Some (b, _) \<Rightarrow>
              sr_then (sr_assert PbftAssert (pb_period b = period))
              (sr_then (genAndPlaceVote env soft_vote (pb_period b) (pm_round s) (pm_step s) (pb_hash b) (Some b)) (sr_return ()))))
       else
         (case two_t_block s (pm_round s - 1) NextVotedBlock of
            None \<Rightarrow> sr_return ()
          | Some h \<Rightarrow>
              sr_bind (valid_proposed env period h) (\<lambda>r.
              case r of
                None \<Rightarrow> sr_return ()
              | Some b \<Rightarrow> sr_then (genAndPlaceVote env soft_vote period (pm_round s) (pm_step s) h (Some b)) (sr_return ()))))"

definition place_cert_vote :: "pbft_env \<Rightarrow> unit pm" where
  "place_cert_vote env =
     sr_with (\<lambda>s. let period = getPbftPeriod s in
       case two_t_block s (pm_round s) SoftVotedBlock of
         None \<Rightarrow> sr_return ()
       | Some h \<Rightarrow>
           sr_bind (valid_proposed env period h) (\<lambda>r.
           case r of
             None \<Rightarrow> sr_return ()
           | Some b \<Rightarrow>
               sr_bind (genAndPlaceVote env cert_vote (pb_period b) (pm_round s) (pm_step s) (pb_hash b) (Some b)) (\<lambda>ok.
               if \<not> ok then sr_return ()
               else
                 sr_modify (\<lambda>s'. (set_db (\<lambda>db. db\<lparr>pdb_cert_voted := Some (pm_round s, b)\<rparr>) s')\<lparr>pm_cert_voted := Some b\<rparr>))))"

text \<open>
  The debug message of the expired step reads \<open>getPbftTwoTPlusOne(...).value()\<close>, which throws when the threshold is
  unknown and may fill its cache.
\<close>

definition certifyBlock :: "pbft_env \<Rightarrow> unit pm" where
  "certifyBlock env =
     sr_with (\<lambda>s.
       let elapsed = pe_now env - pm_round_start s;
           go_finish = (elapsed > getPbftDeadline env s - kPollingIntervalMs)
       in sr_then (sr_modify (\<lambda>s. s\<lparr>pm_go_finish := go_finish\<rparr>))
          (if go_finish then
             sr_bind (vm_action (getPbftTwoTPlusOne (venv env s) (getPbftPeriod s - 1) soft_vote)) (\<lambda>r.
             sr_assert Uncaught (r \<noteq> None))
           else if elapsed < 2 * pm_lambda s then sr_return ()
           else if pm_cert_voted s \<noteq> None then sr_return ()
           else place_cert_vote env))"

definition firstFinish :: "pbft_env \<Rightarrow> unit pm" where
  "firstFinish env =
     sr_with (\<lambda>s. let period = getPbftPeriod s; rnd = pm_round s in
       case pm_cert_voted s of
         Some b \<Rightarrow>
           sr_then (sr_assert PbftAssert (pb_period b = period))
           (sr_then (genAndPlaceVote env next_vote (pb_period b) rnd (pm_step s) (pb_hash b) (Some b)) (sr_return ()))
       | None \<Rightarrow>
           if 2 \<le> rnd \<and> two_t_block s (rnd - 1) NextVotedNullBlock \<noteq> None
           then sr_then (genAndPlaceVote env next_vote period rnd (pm_step s) kNullBlockHash None) (sr_return ())
           else
             (case two_t_block s (rnd - 1) NextVotedBlock of
                Some h \<Rightarrow>
                  sr_bind (valid_proposed env period h) (\<lambda>r.
                  case r of
                    None \<Rightarrow> sr_return ()
                  | Some b \<Rightarrow> sr_then (genAndPlaceVote env next_vote period rnd (pm_step s) h (Some b)) (sr_return ()))
              | None \<Rightarrow>
                  sr_then (sr_assert PbftAssert (two_t_block s (rnd - 1) NextVotedNullBlock = None))
                  (sr_then (genAndPlaceVote env next_vote period rnd (pm_step s) kNullBlockHash None) (sr_return ()))))"

definition next_vote_soft_voted_block :: "pbft_env \<Rightarrow> unit pm" where
  "next_vote_soft_voted_block env =
     sr_with (\<lambda>s. let period = getPbftPeriod s in
       if pm_next_voted_value s then sr_return ()
       else
         (case two_t_block s (pm_round s) SoftVotedBlock of
            None \<Rightarrow> sr_return ()
          | Some h \<Rightarrow>
              sr_bind (valid_proposed env period h) (\<lambda>r.
              case r of
                None \<Rightarrow> sr_return ()
              | Some b \<Rightarrow>
                  sr_bind (genAndPlaceVote env next_vote period (pm_round s) (pm_step s) h (Some b)) (\<lambda>ok.
                  sr_when ok (sr_modify (\<lambda>s.
                    (set_db (\<lambda>db. db\<lparr>pdb_next_voted_soft := Some True\<rparr>) s)\<lparr>pm_next_voted_value := True\<rparr>))))))"

definition next_vote_null_block :: "pbft_env \<Rightarrow> unit pm" where
  "next_vote_null_block env =
     sr_with (\<lambda>s.
       if pm_cert_voted s \<noteq> None \<or> pm_next_voted_null s \<or> pm_round s < 2 then sr_return ()
       else if two_t_block s (pm_round s - 1) NextVotedNullBlock = None then sr_return ()
       else
         sr_bind (genAndPlaceVote env next_vote (getPbftPeriod s) (pm_round s) (pm_step s) kNullBlockHash None) (\<lambda>ok.
         sr_when ok (sr_modify (\<lambda>s.
           (set_db (\<lambda>db. db\<lparr>pdb_next_voted_null := Some True\<rparr>) s)\<lparr>pm_next_voted_null := True\<rparr>))))"

definition secondFinish :: "pbft_env \<Rightarrow> unit pm" where
  "secondFinish env =
     sr_then (next_vote_soft_voted_block env)
     (sr_then (next_vote_null_block env)
     (sr_modify (\<lambda>s. s\<lparr>pm_loop_back_finish :=
        (pe_now env - pm_second_finish_start s > 2 * (pm_lambda s - kPollingIntervalMs))\<rparr>)))"

text \<open>The body of \<open>run\<close> after \<open>stateOperations_\<close>, up to \<open>sleep_\<close>, which only waits.\<close>

definition poll_again :: "pbft_manager \<Rightarrow> pbft_manager" where
  "poll_again s = s\<lparr>pm_next_step_time := pm_next_step_time s + kPollingIntervalMs\<rparr>"

definition run_state :: "pbft_env \<Rightarrow> unit pm" where
  "run_state env =
     sr_with (\<lambda>s. case pm_state s of
         value_proposal_state \<Rightarrow> sr_then (proposeBlock env) (sr_modify (setFilterState env))
       | filter_state \<Rightarrow> sr_then (identifyBlock env) (sr_modify (setCertifyState env))
       | certify_state \<Rightarrow>
           sr_then (certifyBlock env) (sr_modify (\<lambda>s. if pm_go_finish s then setFinishState env s else poll_again s))
       | finish_state \<Rightarrow> sr_then (firstFinish env) (sr_modify (setFinishPollingState env))
       | finish_polling_state \<Rightarrow>
           sr_then (secondFinish env) (sr_modify (\<lambda>s. if pm_loop_back_finish s then loopBackFinishState env s else poll_again s)))"

section \<open>Broadcast\<close>

definition gossip_votes :: "pbft_vote list \<Rightarrow> bool \<Rightarrow> pbft_manager \<Rightarrow> pbft_manager" where
  "gossip_votes votes rebroadcast s = (if votes \<noteq> [] then pm_send (GossipVotesBundle votes rebroadcast) s else s)"

definition stuckPeriodBroadcastVotes :: "pbft_env \<Rightarrow> bool \<Rightarrow> unit pm" where
  "stuckPeriodBroadcastVotes env rebroadcast =
     sr_with (\<lambda>s.
       sr_bind (vm_result (getRewardVotes (pm_vm s))) (\<lambda>reward_votes.
       sr_then (sr_modify (gossip_votes reward_votes rebroadcast))
       (sr_then (sr_modify (fold (\<lambda>v s'. pm_send (GossipVote v
            (map_option fst (getPbftProposedBlock (pm_proposed s) (v_period v) (v_block v))) rebroadcast) s') (vm_own_votes (pm_vm s))))
       (sr_when (pe_own_pillar_vote env) (sr_modify (pm_send (GossipPillarVote rebroadcast)))))))"

definition two_t_votes :: "pbft_manager \<Rightarrow> pbft_round \<Rightarrow> TwoTPlusOneVotedBlockType \<Rightarrow> pbft_vote list pm" where
  "two_t_votes s rnd ty =
     sr_lift (map_sum (\<lambda>_. PbftAssert) id (getTwoTPlusOneVotedBlockVotes (vm_votes (pm_vm s)) (getPbftPeriod s) rnd ty))"

definition stuckRoundBroadcastVotes :: "pbft_env \<Rightarrow> bool \<Rightarrow> unit pm" where
  "stuckRoundBroadcastVotes env rebroadcast =
     sr_then (stuckPeriodBroadcastVotes env rebroadcast)
     (sr_with (\<lambda>s. let send = (\<lambda>rnd ty. sr_bind (two_t_votes s rnd ty) (\<lambda>vs. sr_modify (gossip_votes vs rebroadcast))) in
       sr_then (send (pm_round s) SoftVotedBlock)
       (sr_when (pm_round s > 1)
         (sr_then (send (pm_round s - 1) NextVotedBlock) (send (pm_round s - 1) NextVotedNullBlock)))))"

definition broadcastVotes :: "pbft_env \<Rightarrow> unit pm" where
  "broadcastVotes env =
     (if \<not> pe_net env then sr_return ()
      else
        sr_with (\<lambda>s.
          let lambdas = (\<lambda>start. (pe_now env - start) div pm_lambda s);
              due = (\<lambda>start time counter. lambdas start > uint (time * counter))
          in sr_then (sr_assert DivideByZero (pm_lambda s \<noteq> 0))
          (if due (pm_round_start s) kRebroadcastVotesLambdaTime (pm_rebroadcast_votes s) then
             sr_then (stuckRoundBroadcastVotes env True)
               (sr_modify (\<lambda>s. s\<lparr>pm_rebroadcast_votes := pm_rebroadcast_votes s + 1, pm_broadcast_votes := pm_broadcast_votes s + 1\<rparr>))
           else if due (pm_round_start s) kBroadcastVotesLambdaTime (pm_broadcast_votes s) then
             sr_then (stuckRoundBroadcastVotes env False)
               (sr_modify (\<lambda>s. s\<lparr>pm_broadcast_votes := pm_broadcast_votes s + 1\<rparr>))
           else if due (pm_period_start s) kRebroadcastVotesLambdaTime (pm_rebroadcast_reward_votes s) then
             sr_then (stuckPeriodBroadcastVotes env True)
               (sr_modify (\<lambda>s. s\<lparr>pm_rebroadcast_reward_votes := pm_rebroadcast_reward_votes s + 1,
                                pm_broadcast_reward_votes := pm_broadcast_reward_votes s + 1\<rparr>))
           else if due (pm_period_start s) kBroadcastVotesLambdaTime (pm_broadcast_reward_votes s) then
             sr_then (stuckPeriodBroadcastVotes env False)
               (sr_modify (\<lambda>s. s\<lparr>pm_broadcast_reward_votes := pm_broadcast_reward_votes s + 1\<rparr>))
           else sr_return ())))"

section \<open>Start\<close>

text \<open>\<open>initialState\<close> up to the step: the lambdas, then the state for the stored round and step.\<close>

definition init_lambda :: "pbft_env \<Rightarrow> unit pm" where
  "init_lambda env =
     sr_with (\<lambda>s.
       let chain_size = getPbftPeriod s - 1; rnd = getPbftMgrField (pdb_round (pm_db s)) in
       if isOnCactiHardfork (pe_cacti env) chain_size then
         sr_then (sr_modify (\<lambda>s. s\<lparr>pm_rounds_count := getRoundsCountDynamicLambda (pm_db s)\<rparr>))
         (sr_then (if 1 \<le> chain_size then
                     sr_then (sr_assert PbftAssert (getPbftMgrField (pdb_lambda (pm_db s)) \<noteq> 1))
                       (sr_modify (\<lambda>s. s\<lparr>pm_dynamic_lambda := getPbftMgrField (pdb_lambda (pm_db s))\<rparr>))
                   else sr_modify (\<lambda>s. s\<lparr>pm_dynamic_lambda := lambda_max (pe_cacti env)\<rparr>))
         (sr_modify (\<lambda>s. s\<lparr>pm_lambda := uint (getRoundLambda env s rnd)\<rparr>)))
       else sr_modify (\<lambda>s. s\<lparr>pm_lambda := uint (pe_lambda_ms env)\<rparr>))"

definition init_state_step :: "pbft_env \<Rightarrow> pbft_manager \<Rightarrow> pbft_manager" where
  "init_state_step env s =
     (let rnd = getPbftMgrField (pdb_round (pm_db s)); step = getPbftMgrField (pdb_step (pm_db s)) in
      if rnd = 1 \<and> step = 1 then setPbftStep env step (s\<lparr>pm_state := value_proposal_state\<rparr>)
      else if step < 4 then setPbftStep env 4 (s\<lparr>pm_state := finish_state\<rparr>)
      else if step mod 2 = 0 then setPbftStep env step (s\<lparr>pm_state := finish_state\<rparr>)
      else setPbftStep env step (s\<lparr>pm_state := finish_polling_state, pm_second_finish_start := pe_now env\<rparr>))"

definition initialState :: "pbft_env \<Rightarrow> unit pm" where
  "initialState env =
     sr_with (\<lambda>s0. let rnd = getPbftMgrField (pdb_round (pm_db s0)); period = getPbftPeriod s0 in
       sr_then (init_lambda env)
       (sr_then (sr_modify (init_state_step env))
       (sr_then (sr_modify (\<lambda>s. s\<lparr>pm_round := rnd\<rparr>))
       (sr_then (sr_modify (\<lambda>s. fold (\<lambda>e. push_proposed (snd e) False) (pdb_proposed (pm_db s)) s))
       (sr_then (sr_modify (\<lambda>s. case pdb_cert_voted (pm_db s) of
            None \<Rightarrow> s
          | Some (cert_round, b) \<Rightarrow>
              (let s1 = push_proposed b True s in
               if period = pb_period b \<and> rnd = cert_round then s1\<lparr>pm_cert_voted := Some b\<rparr> else s1)))
       (sr_then (sr_modify (\<lambda>s. s\<lparr>pm_executed := getPbftMgrStatus (pdb_executed (pm_db s)),
                                  pm_next_voted_value := getPbftMgrStatus (pdb_next_voted_soft (pm_db s)),
                                  pm_next_voted_null := getPbftMgrStatus (pdb_next_voted_null (pm_db s)),
                                  pm_round_start := pe_now env, pm_period_start := pe_now env, pm_next_step_time := 0\<rparr>))
       (sr_then (vm_action (\<lambda>m. map_sum id (Pair ()) (setCurrentPbftPeriodAndRound period rnd m)))
       (waitForPeriodFinalization env))))))))"

end
