(* ===== verification/Pbft_Sync.thy ===== *)
theory Pbft_Sync
  imports Pbft_Voting
begin

text \<open>
  Blocks that enter the chain: pushing a block with its cert votes, the blocks of the sync queue with the checks they
  pass, and one pass of the daemon's loop. What a push hands to the DAG manager, the transaction manager, the
  sortition parameters and the final chain is outside; a lookup that fails there is an assertion here.
\<close>

section \<open>Pushing a block\<close>

definition finalize :: "pbft_env \<Rightarrow> period_data \<Rightarrow> unit pm" where
  "finalize env d =
     sr_assert PbftAssert (pb_pivot (pd_blk d) \<noteq> 0 \<longrightarrow> pe_dag_block env (pb_pivot (pd_blk d)) \<noteq> None)"

definition place_pillar_votes :: "pbft_env \<Rightarrow> pbft_period \<Rightarrow> h256 \<Rightarrow> (bool \<times> addr_t) list \<Rightarrow> pbft_manager \<Rightarrow> pbft_manager" where
  "place_pillar_votes env period h ws s =
     fold (\<lambda>(eligible, w) s. if eligible \<and> pe_place_pillar_vote env period h w then s\<lparr>pm_pillar_vote_period := period\<rparr> else s) ws s"

definition processPillarBlock :: "pbft_env \<Rightarrow> pbft_period \<Rightarrow> unit pm" where
  "processPillarBlock env current_pbft_chain_size =
     sr_then (sr_assert PbftAssert (pe_last_block_number env \<ge> current_pbft_chain_size - pe_delegation_delay env))
     (case pe_create_pillar_block env current_pbft_chain_size of
        None \<Rightarrow> sr_return ()
      | Some h \<Rightarrow>
          sr_bind (getWallets (current_pbft_chain_size + 1)) (\<lambda>ws.
          sr_modify (place_pillar_votes env (current_pbft_chain_size + 1) h ws)))"

text \<open>The first batch of \<open>pushPbftBlock_\<close>, the new reward votes and the chain head in memory.\<close>

definition store_block :: "pbft_env \<Rightarrow> period_data \<Rightarrow> pbft_vote \<Rightarrow> unit pm" where
  "store_block env d v =
     sr_then (sr_with (\<lambda>s. vm_action (\<lambda>m. map_sum id (Pair ())
       (resetRewardVotes (v_period v) (v_round v) (v_step v) (v_block v) m))))
     (sr_modify (\<lambda>s.
       case chain_commit d (pm_chain s, pdb_chain (pm_db s)) of
         (c, db) \<Rightarrow> (set_db (\<lambda>d. d\<lparr>pdb_chain := db\<rparr>) s)\<lparr>pm_chain := c, pm_anchor_cache := []\<rparr>))"

definition save_period_lambda :: "pbft_period \<Rightarrow> u32 \<Rightarrow> pbft_manager \<Rightarrow> pbft_manager" where
  "save_period_lambda period block_lambda s =
     (if getPeriodLambda (pm_db s) (period - 1) True = Some block_lambda then s
      else set_db (\<lambda>db. db\<lparr>pdb_period_lambda := om_put period block_lambda (pdb_period_lambda db)\<rparr>) s)"

definition update_lambda :: "pbft_env \<Rightarrow> pbft_period \<Rightarrow> pbft_round \<Rightarrow> unit pm" where
  "update_lambda env period rnd =
     (if isOnCactiHardfork (pe_cacti env) period then
        sr_with (\<lambda>s. let block_lambda = getRoundLambda env s rnd in
          sr_then (sr_modify (save_period_lambda period block_lambda))
          (sr_bind (sr_lift (calcBlocksPerYear block_lambda (consensus_delay (pe_cacti env)))) (\<lambda>blocks_per_year.
           sr_modify (adjustDynamicLambda env period rnd))))
      else sr_return ())"

definition commit_block :: "pbft_env \<Rightarrow> period_data \<Rightarrow> pbft_vote \<Rightarrow> bool pm" where
  "commit_block env d v =
     (let period = pb_period (pd_blk d) in
      sr_then (store_block env d v)
      (sr_then (update_lambda env period (v_round v))
      (sr_then (finalize env d)
      (sr_then (sr_modify (\<lambda>s. (set_db (\<lambda>db. db\<lparr>pdb_executed := Some True\<rparr>) s)\<lparr>pm_executed := True\<rparr>))
      (sr_then (advancePeriod env)
      (sr_then (sr_with (\<lambda>s. sr_when (isPillarBlockPeriod (pe_ficus env) period False)
         (sr_then (sr_assert PbftAssert (period = pc_size (pm_chain s))) (processPillarBlock env period))))
      (sr_return True)))))))"

definition pushPbftBlock :: "pbft_env \<Rightarrow> period_data \<Rightarrow> pbft_vote list \<Rightarrow> bool pm" where
  "pushPbftBlock env d cert_votes =
     sr_with (\<lambda>s. let b = pd_blk d in
       if pbftBlockInDb (pdb_chain (pm_db s)) (pb_hash b) then
         sr_then (sr_assert PbftAssert (map_option pb_hash (pm_cert_voted s) \<noteq> Some (pb_hash b))) (sr_return False)
       else
         (case cert_votes of
            [] \<Rightarrow> sr_fail PbftAssert
          | v # _ \<Rightarrow>
              sr_then (sr_assert PbftAssert (pb_hash b = v_block v))
              (let d1 = d\<lparr>pd_transactions := reorderTransactions (pd_transactions d)\<rparr> in
               if isPbftWithPillarBlockPeriod (pe_ficus env) (pb_period b) then
                 (case pb_extra_data b of
                    Some (Some h) \<Rightarrow>
                      let pillar_votes = pe_finalize_pillar env h in
                      if pillar_votes = [] then sr_return False
                      else commit_block env (d1\<lparr>pd_pillar_votes := Some pillar_votes\<rparr>) v
                  | _ \<Rightarrow> sr_fail EmptyAccess)
               else commit_block env d1 v)))"

definition pushCertVotedPbftBlockIntoChain :: "pbft_env \<Rightarrow> pbft_block \<Rightarrow> pbft_vote list \<Rightarrow> bool pm" where
  "pushCertVotedPbftBlockIntoChain env b cert_votes =
     sr_with (\<lambda>s.
       sr_bind (if pb_pivot b \<noteq> kNullBlockHash then
                  (case um_find (pm_anchor_cache s) (pb_pivot b) of
                     None \<Rightarrow> sr_fail PbftAssert
                   | Some dags \<Rightarrow> sr_return (dags, pe_nonfinalized_trx env (rev (remdups (rev (concat (map di_trxs dags)))))))
                else sr_return ([], [])) (\<lambda>(dags, trxs).
       sr_bind (vm_result (checkRewardVotes (pm_vm s) (pb_period b) (pb_reward_votes b) True)) (\<lambda>reward_votes.
       if \<not> fst reward_votes then sr_return False
       else
         pushPbftBlock env \<lparr>pd_blk = b, pd_prev_cert_votes = snd reward_votes, pd_dag_blocks = dags, pd_transactions = trxs,
           pd_pillar_votes = None\<rparr> cert_votes)))"

definition tryPushCertVotesBlock :: "pbft_env \<Rightarrow> bool pm" where
  "tryPushCertVotesBlock env =
     sr_with (\<lambda>s.
       sr_bind (two_t_votes s (pm_round s) CertVotedBlock) (\<lambda>cert_votes.
       case cert_votes of
         [] \<Rightarrow> sr_return False
       | v # _ \<Rightarrow>
           sr_bind (valid_proposed env (getPbftPeriod s) (v_block v)) (\<lambda>r.
           case r of
             None \<Rightarrow> sr_return False
           | Some b \<Rightarrow> pushCertVotedPbftBlockIntoChain env b cert_votes)))"

section \<open>Checks of synced blocks\<close>

text \<open>
  The loop over the cert votes: whether all passed, the votes with their weights, and the sum of the weights. What
  \<open>addVerifiedVote\<close> answers is not read.
\<close>

fun cert_votes_loop ::
  "pbft_env \<Rightarrow> pbft_block \<Rightarrow> bool \<Rightarrow> nat \<Rightarrow> pbft_period \<Rightarrow> pbft_round \<Rightarrow> nat \<Rightarrow> pbft_vote list \<Rightarrow> pbft_vote list \<Rightarrow> u64
     \<Rightarrow> (bool \<times> pbft_vote list \<times> u64) pm" where
  "cert_votes_loop env b strict_validation vote_to_validate period rnd i [] done votes_weight =
     sr_return (True, done, votes_weight)"
| "cert_votes_loop env b strict_validation vote_to_validate period rnd i (v # vs) done votes_weight =
     (if v_period v \<noteq> period \<or> v_round v \<noteq> rnd \<or> v_type v \<noteq> cert_vote \<or> v_step v \<noteq> 3 \<or> v_block v \<noteq> pb_hash b
      then sr_return (False, done, votes_weight)
      else
        sr_with (\<lambda>s.
          sr_bind (vm_action (\<lambda>m. map_sum id (\<lambda>(verdict, v', m'). ((verdict, v'), m'))
            (validateVote (venv env s) v (strict_validation \<or> i = vote_to_validate) m))) (\<lambda>(verdict, v').
          if verdict \<noteq> ValidVote then sr_return (False, done, votes_weight)
          else
            (case v_weight v' of
               None \<Rightarrow> sr_fail PbftAssert
             | Some w \<Rightarrow>
                 sr_then (vm_action (addVerifiedVote (venv env s) v'))
                 (cert_votes_loop env b strict_validation vote_to_validate period rnd (Suc i) vs (done @ [v']) (votes_weight + w))))))"

definition validatePbftBlockCertVotes :: "pbft_env \<Rightarrow> pbft_block \<Rightarrow> pbft_vote list \<Rightarrow> (bool \<times> pbft_vote list) pm" where
  "validatePbftBlockCertVotes env b cert_votes =
     (case cert_votes of
        [] \<Rightarrow> sr_fail DivideByZero
      | first # _ \<Rightarrow>
          if pb_period b \<noteq> v_period first then sr_return (False, cert_votes)
          else
            sr_bind (cert_votes_loop env b (pb_period b mod 100 = 0) (pe_random env mod length cert_votes)
                       (v_period first) (v_round first) 0 cert_votes [] 0) (\<lambda>(ok, votes, votes_weight).
            if \<not> ok then sr_return (False, cert_votes)
            else
              sr_bind (sr_with (\<lambda>s. vm_action (getPbftTwoTPlusOne (venv env s) (v_period first - 1) cert_vote))) (\<lambda>r.
              case r of
                None \<Rightarrow> sr_return (False, votes)
              | Some two_t_plus_one \<Rightarrow> sr_return (\<not> votes_weight < two_t_plus_one, votes))))"

fun pillar_votes_loop :: "pbft_env \<Rightarrow> pbft_period \<Rightarrow> h256 \<Rightarrow> pillar_vote list \<Rightarrow> u64 \<Rightarrow> u64 option" where
  "pillar_votes_loop env period pillar_hash [] votes_weight = Some votes_weight"
| "pillar_votes_loop env period pillar_hash (v # vs) votes_weight =
     (if pv_period v \<noteq> period \<or> pv_block_hash v \<noteq> pillar_hash \<or> \<not> pe_validate_pillar_vote env v \<or> pe_add_pillar_vote env v = 0
      then None
      else pillar_votes_loop env period pillar_hash vs (votes_weight + pe_add_pillar_vote env v))"

definition validatePbftBlockPillarVotes :: "pbft_env \<Rightarrow> period_data \<Rightarrow> bool pbft_result" where
  "validatePbftBlockPillarVotes env d =
     (let period = pb_period (pd_blk d) in
      case pd_pillar_votes d of
        None \<Rightarrow> Inr False
      | Some [] \<Rightarrow> Inr False
      | Some votes \<Rightarrow>
          (case pe_pillar_block env of
             None \<Rightarrow> Inl EmptyAccess
           | Some (pillar_period, pillar_hash) \<Rightarrow>
               if pillar_period + 1 \<noteq> period then Inr False
               else
                 (case pillar_votes_loop env period pillar_hash votes 0 of
                    None \<Rightarrow> Inr False
                  | Some votes_weight \<Rightarrow>
                      (case pe_pillar_threshold env (period - 1) of
                         None \<Rightarrow> Inr False
                       | Some threshold \<Rightarrow> Inr (\<not> votes_weight < threshold)))))"

section \<open>The sync queue\<close>

definition set_queue :: "(period_data_queue \<Rightarrow> period_data_queue) \<Rightarrow> pbft_manager \<Rightarrow> pbft_manager" where
  "set_queue f s = s\<lparr>pm_sync_queue := f (pm_sync_queue s)\<rparr>"

definition pbftSyncingPeriod :: "pbft_manager \<Rightarrow> pbft_period" where
  "pbftSyncingPeriod s = max (pdq_period (pm_sync_queue s)) (pc_size (pm_chain s))"

definition lastPbftBlockHashFromQueueOrChain :: "pbft_manager \<Rightarrow> h256" where
  "lastPbftBlockHashFromQueueOrChain s =
     (case lastPbftBlock (pm_sync_queue s) of
        Some b \<Rightarrow> if pb_period b \<ge> getPbftPeriod s then pb_hash b else pc_last_hash (pm_chain s)
      | None \<Rightarrow> pc_last_hash (pm_chain s))"

definition periodDataQueuePush :: "period_data \<Rightarrow> 512 word \<Rightarrow> pbft_vote list \<Rightarrow> pbft_manager \<Rightarrow> pbft_manager" where
  "periodDataQueuePush d node_id cert_votes s =
     set_queue (\<lambda>q. snd (pdq_push d node_id (pc_size (pm_chain s)) cert_votes q)) s"

text \<open>Clear the queue and report the peer.\<close>

definition malicious_peer :: "512 word \<Rightarrow> pbft_manager \<Rightarrow> pbft_manager" where
  "malicious_peer node_id s = pm_send (MaliciousPeer node_id) (set_queue pdq_clear s)"

text \<open>
  The cert votes of a popped block are the very objects the next block of the queue has as the votes of its
  predecessor, so the weights that the validation sets are seen there.
\<close>

definition share_weights :: "pbft_vote list \<Rightarrow> period_data_queue \<Rightarrow> period_data_queue" where
  "share_weights votes q =
     (case pdq_queue q of
        [] \<Rightarrow> q
      | (d, node) # rest \<Rightarrow> q\<lparr>pdq_queue := (d\<lparr>pd_prev_cert_votes := votes\<rparr>, node) # rest\<rparr>)"

text \<open>\<open>processPeriodData\<close> from the reward votes on; its log-only transaction checks are left out.\<close>

definition check_votes_and_pillar ::
  "pbft_env \<Rightarrow> period_data \<Rightarrow> pbft_vote list \<Rightarrow> 512 word \<Rightarrow> (period_data \<times> pbft_vote list) option pm" where
  "check_votes_and_pillar env d cert_votes node_id =
     (let b = pd_blk d; reject = sr_then (sr_modify (malicious_peer node_id)) (sr_return None) in
      sr_bind (sr_with (\<lambda>s. vm_result (checkRewardVotes (pm_vm s) (pb_period b) (pb_reward_votes b) True))) (\<lambda>reward_votes.
      if \<not> fst reward_votes then reject
      else
        let d1 = (case pd_prev_cert_votes d of
                    [] \<Rightarrow> d
                  | v # _ \<Rightarrow> if v_weight v = None then d\<lparr>pd_prev_cert_votes := snd reward_votes\<rparr> else d)
        in sr_bind (validatePbftBlockCertVotes env b cert_votes) (\<lambda>(ok, votes).
           if \<not> ok then reject
           else
             sr_then (sr_modify (set_queue (share_weights votes)))
             (if \<not> validatePillarDataInPeriodData env d1 then reject
              else if \<not> isPbftWithPillarBlockPeriod (pe_ficus env) (pb_period b) then sr_return (Some (d1, votes))
              else
                sr_bind (sr_lift (validatePbftBlockPillarVotes env d1)) (\<lambda>pillar_ok.
                if pillar_ok then sr_return (Some (d1, votes)) else reject)))))"

definition processPeriodData :: "pbft_env \<Rightarrow> (period_data \<times> pbft_vote list) option pm" where
  "processPeriodData env =
     sr_with (\<lambda>s.
       sr_bind (sr_lift (pdq_pop (pm_sync_queue s))) (\<lambda>((d, cert_votes, node_id), q).
       let b = pd_blk d; reject = sr_then (sr_modify (malicious_peer node_id)) (sr_return None) in
       sr_then (sr_modify (\<lambda>s. s\<lparr>pm_sync_queue := q\<rparr>))
       (if findPbftBlockInChain (pdb_chain (pm_db s)) (pb_hash b) then sr_return None
        else
          sr_then (sr_assert PbftAssert (pe_net env))
          (if pb_prev b \<noteq> pc_last_hash (pm_chain s) then
             sr_bind (sr_lift (getPbftBlockInChain (pdb_chain (pm_db s)) (pc_last_hash (pm_chain s)))) (\<lambda>last_block.
             if pb_period b \<le> pb_period last_block then sr_return None else reject)
           else
             (case validateFinalChainHash env b of
                Missing \<Rightarrow> sr_fail Waiting
              | Invalid \<Rightarrow> reject
              | Valid \<Rightarrow> check_votes_and_pillar env d cert_votes node_id)))))"

text \<open>Every pass takes one block out of the queue, so the length of the queue is enough fuel.\<close>

fun sync_loop :: "pbft_env \<Rightarrow> nat \<Rightarrow> unit pm" where
  "sync_loop env 0 = sr_return ()"
| "sync_loop env (Suc n) =
     sr_with (\<lambda>s.
       if pdq_size (pm_sync_queue s) = 0 then sr_return ()
       else
         sr_bind (processPeriodData env) (\<lambda>r.
         case r of
           None \<Rightarrow> sync_loop env n
         | Some (d, votes) \<Rightarrow>
             sr_bind (pushPbftBlock env d votes) (\<lambda>pushed.
             if pushed then
               sr_then (sr_with (\<lambda>s. sr_modify (pm_send (SyncStatePeriod (pbftSyncingPeriod s))))) (sync_loop env n)
             else sr_return ())))"

definition pushSyncedPbftBlocksIntoChain :: "pbft_env \<Rightarrow> unit pm" where
  "pushSyncedPbftBlocksIntoChain env =
     (if \<not> pe_net env then sr_return ()
      else
        sr_then (sr_modify (\<lambda>s. set_queue (cleanOldData (getPbftPeriod s)) s))
        (sr_with (\<lambda>s. sync_loop env (length (pdq_queue (pm_sync_queue s))))))"

section \<open>The daemon\<close>

definition stateOperations :: "pbft_env \<Rightarrow> bool pm" where
  "stateOperations env =
     sr_then (pushSyncedPbftBlocksIntoChain env)
     (sr_bind (if pe_net env \<and> \<not> pe_syncing env then sr_then (broadcastVotes env) (tryPushCertVotesBlock env)
               else sr_return False) (\<lambda>pushed.
      if pushed then sr_return True
      else
        sr_bind (advanceRound env) (\<lambda>advanced.
        if advanced then sr_return True
        else
          sr_with (\<lambda>s. sr_bind (getWallets (getPbftPeriod s)) (\<lambda>ws. sr_return (\<not> list_ex fst ws))))))"

text \<open>One pass of the loop in \<open>run\<close>.\<close>

definition run :: "pbft_env \<Rightarrow> unit pm" where
  "run env = sr_bind (stateOperations env) (\<lambda>restart. if restart then sr_return () else run_state env)"

end
