(* ===== verification/Pbft_Frames.thy ===== *)
theory Pbft_Frames
  imports Pbft_Sync
begin

text \<open>
  What the actions of the PBFT manager leave alone. \<open>pm_core\<close> is the part of the state only rounds, periods and
  pushed blocks change; every voting action keeps any predicate on it.
\<close>

section \<open>The core\<close>

definition pm_core where
  "pm_core s = (pm_state s, pm_round s, pm_step s, pm_cert_voted s, pm_chain s, pm_dynamic_lambda s, pm_rounds_count s,
     pdb_chain (pm_db s), pdb_cert_voted (pm_db s))"

definition core_rel :: "pbft_manager \<Rightarrow> pbft_manager \<Rightarrow> bool" where
  "core_rel s s' \<longleftrightarrow> pm_core s' = pm_core s"

abbreviation core_keeps :: "'a pm \<Rightarrow> bool" where
  "core_keeps m \<equiv> sr_moves core_rel m"

interpretation core: action_frame core_rel
  by unfold_locales (simp_all add: core_rel_def)

named_theorems core_intros \<open>actions that keep the core\<close>

lemmas [core_intros] = core.flow

lemma core_eq: "core_keeps m \<Longrightarrow> m s = Inr (a, s') \<Longrightarrow> pm_core s' = pm_core s"
  by (auto dest: sr_movesD simp: core_rel_def)

lemma core_vm_action [core_intros]: "core_keeps (vm_action f)"
  by (auto simp: core_rel_def vm_action_def pm_core_def intro!: sr_movesI split: sum.splits)

lemma core_vm_result [core_intros]: "core_keeps (vm_result r)"
  by (auto simp: vm_result_def intro: core_intros)

section \<open>Voting actions\<close>

lemma core_waits [core_intros]: "core_keeps (getWallets p)" "core_keeps (waitForPeriodFinalization env)"
  "core_keeps (updateWalletsEligibility env p)"
  unfolding getWallets_def waitForPeriodFinalization_def updateWalletsEligibility_def Let_def
  by (intro core_intros; (simp add: core_rel_def; fail | simp add: core_rel_def pm_core_def set_db_def split: option.split))+

lemma core_validate [core_intros]: "core_keeps (validatePbftBlock env b)"
  unfolding validatePbftBlock_def validate_anchor_def Let_def
  by (intro core_intros; (simp add: core_rel_def; fail | simp add: core_rel_def pm_core_def set_db_def split: option.split))

lemma core_getValid [core_intros]:
  "core_keeps (getValidPbftProposedBlock env pb p h)" "core_keeps (valid_proposed env p h)"
  unfolding getValidPbftProposedBlock_def valid_proposed_def Let_def
  by (intro core_intros; (simp add: core_rel_def; fail | simp add: core_rel_def pm_core_def set_db_def split: option.split))+

lemma core_leader [core_intros]: "core_keeps (identifyLeaderBlock env pb vs)"
proof -
  have "core_keeps (leader_loop env cs e pb)" for cs e pb
    by (induction cs arbitrary: e pb) (auto intro!: core_intros)
  then show ?thesis unfolding identifyLeaderBlock_def Let_def by (intro core_intros) blast+
qed

lemma push_proposed_core [simp]: "pm_core (push_proposed b save s) = pm_core s"
  by (simp add: push_proposed_def pm_core_def set_db_def split: prod.splits)

lemma core_generate [core_intros]: "core_keeps (generatePbftBlock env p prev a oh x ws)"
proof -
  have "core_keeps (own_proposals env mk p ws pb vs)" for mk ws pb vs
    by (induction ws arbitrary: pb vs) (auto intro!: core_intros)
  then show ?thesis unfolding generatePbftBlock_def Let_def by (intro core_intros; (simp add: core_rel_def; fail | simp add: core_rel_def pm_core_def set_db_def split: option.split))
qed

lemma core_propose [core_intros]: "core_keeps (proposePbftBlock env)"
  unfolding proposePbftBlock_def Let_def by (intro core_intros)

lemma core_send [simp]: "pm_core (pm_send g s) = pm_core s" "pm_core (note_broadcast v s) = pm_core s"
  by (simp_all add: pm_send_def note_broadcast_def pm_core_def)

lemma core_fold [simp]: "(\<And>x s. pm_core (f x s) = pm_core s) \<Longrightarrow> pm_core (fold f xs s) = pm_core s"
  by (induction xs arbitrary: s) simp_all

lemma core_gossip [core_intros]:
  "core_keeps (gossipVote env v b r)" "core_keeps (gossipNewOwnVote env v b)" "core_keeps (gossipNewOwnVotesBundle env vs)"
  unfolding gossipNewOwnVote_def gossipVote_def gossipNewOwnVotesBundle_def Let_def
  by (intro core_intros; (simp add: core_rel_def; fail | simp add: core_rel_def pm_core_def set_db_def split: option.split))+

lemma core_place [core_intros]: "core_keeps (genAndPlaceVote env ty p r st h b)"
proof -
  have one: "core_keeps (place_wallet_vote env ty p r st h b pl w acc)" for pl w acc
    unfolding place_wallet_vote_def Let_def by (intro core_intros; (simp add: core_rel_def; fail | simp add: core_rel_def pm_core_def set_db_def split: option.split))
  have "core_keeps (place_votes (place_wallet_vote env ty p r st h b pl) ws acc)" for pl ws acc
    by (induction ws arbitrary: acc) (auto intro!: core_intros simp: one)
  then show ?thesis unfolding genAndPlaceVote_def Let_def by (intro core_intros) blast+
qed

lemma core_states [core_intros]:
  "core_keeps (genAndPlaceProposeVote env b vs)" "core_keeps (proposeBlock env)" "core_keeps (identifyBlock env)"
  "core_keeps (firstFinish env)" "core_keeps (next_vote_soft_voted_block env)" "core_keeps (next_vote_null_block env)"
  unfolding genAndPlaceProposeVote_def proposeBlock_def identifyBlock_def firstFinish_def
    next_vote_soft_voted_block_def next_vote_null_block_def Let_def
  by (intro core_intros; (simp add: core_rel_def; fail | simp add: core_rel_def pm_core_def set_db_def split: option.split))+

lemma core_second [core_intros]: "core_keeps (secondFinish env)"
  unfolding secondFinish_def Let_def by (intro core_intros; (simp add: core_rel_def; fail | simp add: core_rel_def pm_core_def set_db_def split: option.split))

lemma core_broadcast [core_intros]: "core_keeps (broadcastVotes env)"
  unfolding broadcastVotes_def stuckRoundBroadcastVotes_def stuckPeriodBroadcastVotes_def two_t_votes_def gossip_votes_def Let_def
  by (intro core_intros; (simp add: core_rel_def; fail | simp add: core_rel_def pm_core_def set_db_def split: option.split))

end
