(* ===== verification/Pbft_Invariants.thy ===== *)
theory Pbft_Invariants
  imports Pbft_Frames Vote_Manager_Props
begin

text \<open>
  The PBFT manager as a step relation: passes of the daemon interleaved with votes, proposed blocks and period data
  from the network. A locale states what a predicate must satisfy to be kept by \<open>stateOperations_\<close>; the coherence
  of state and step and the bounds of the dynamic lambda are its two instances.
\<close>

section \<open>Steps\<close>

text \<open>The constructor of a vote stores what it is given.\<close>

definition signs :: "pbft_env \<Rightarrow> bool" where
  "signs env \<longleftrightarrow> (\<forall>h p r st w. let v = ve_sign (pe_vote env) h p r st w in
     v_block v = h \<and> v_period v = p \<and> v_round v = r \<and> v_step v = st)"

text \<open>
  The environments of one chain: a fixed configuration and a total vote count per period that never changes. A pass
  of the daemon is taken while the 32-bit step counter has not reached its end: every step takes at least the
  polling interval, so one round would have to last more than thirteen years.
\<close>

definition env_ok :: "cacti_config \<Rightarrow> vote_env \<Rightarrow> (u64 \<Rightarrow> u64) \<Rightarrow> pbft_env \<Rightarrow> bool" where
  "env_ok cfg env0 dpos env \<longleftrightarrow> pe_cacti env = cfg \<and> signs env \<and> chain_env env0 dpos (pe_vote env)"

inductive pbft_step :: "cacti_config \<Rightarrow> vote_env \<Rightarrow> (u64 \<Rightarrow> u64) \<Rightarrow> pbft_manager \<Rightarrow> pbft_manager \<Rightarrow> bool"
  for cfg env0 dpos where
  daemon: "env_ok cfg env0 dpos env \<Longrightarrow> pm_step s \<noteq> - 1 \<Longrightarrow> run env s = Inr ((), s') \<Longrightarrow> pbft_step cfg env0 dpos s s'"
| net_vote: "env_ok cfg env0 dpos env \<Longrightarrow> addVerifiedVote (venv env s) v (pm_vm s) = Inr (b, m) \<Longrightarrow>
    pbft_step cfg env0 dpos s (s\<lparr>pm_vm := m\<rparr>)"
| net_block: "pbft_step cfg env0 dpos s (processProposedBlock b s)"
| sync_data: "pbft_step cfg env0 dpos s (periodDataQueuePush d node cert_votes s)"

abbreviation pbft_steps :: "cacti_config \<Rightarrow> vote_env \<Rightarrow> (u64 \<Rightarrow> u64) \<Rightarrow> pbft_manager \<Rightarrow> pbft_manager \<Rightarrow> bool" where
  "pbft_steps cfg env0 dpos \<equiv> (pbft_step cfg env0 dpos)\<^sup>*\<^sup>*"

lemma pbft_steps_invariant:
  assumes "pbft_steps cfg env0 dpos s s'" and "I s" and "\<And>s s'. pbft_step cfg env0 dpos s s' \<Longrightarrow> I s \<Longrightarrow> I s'"
  shows "I s'"
  using assms(1, 2) by (induction rule: rtranclp_induct) (auto intro: assms(3))

lemma network_core: "pm_core (s\<lparr>pm_vm := m\<rparr>) = pm_core s" "pm_core (processProposedBlock b s) = pm_core s"
  "pm_core (periodDataQueuePush d node cvs s) = pm_core s"
  by (simp_all add: processProposedBlock_def periodDataQueuePush_def set_queue_def)
     (simp_all add: pm_core_def)

section \<open>What \<open>stateOperations_\<close> keeps\<close>

definition pm_mode where
  "pm_mode s = (pm_state s, pm_step s, pm_dynamic_lambda s)"

lemma core_mode: "pm_core s = pm_core t \<Longrightarrow> pm_mode s = pm_mode t"
  by (simp add: pm_core_def pm_mode_def)

lemma sr_keeps_validation:
  "sr_keeps I a \<Longrightarrow> sr_keeps I b \<Longrightarrow> sr_keeps I c \<Longrightarrow>
     sr_keeps I (case r of Valid \<Rightarrow> a | Missing \<Rightarrow> b | Invalid \<Rightarrow> c)"
  by (cases r) simp_all

text \<open>What the parts of \<open>stateOperations_\<close> keep, it keeps.\<close>

locale daemon_actions =
  fixes env :: pbft_env and I :: "pbft_manager \<Rightarrow> bool"
  assumes added: "sr_keeps I (vm_action (addVerifiedVote (venv env s) v))"
    and validated: "sr_keeps I (vm_action (\<lambda>m. map_sum id (\<lambda>(verdict, v', m'). ((verdict, v'), m')) (validateVote (venv env s) v strict m)))"
    and two_t: "sr_keeps I (vm_action (getPbftTwoTPlusOne (venv env s) p ty))"
    and proposed: "sr_keeps I (valid_proposed env p h)"
    and broadcast: "sr_keeps I (broadcastVotes env)"
    and queue: "sr_keeps I (sr_modify (set_queue f) :: unit pm)"
    and sent: "sr_keeps I (sr_modify (pm_send g) :: unit pm)"
    and reset: "sr_keeps I (resetPbftConsensus env r)"
    and commit: "sr_keeps I (commit_block env d v)"
begin

lemma keeps_reads: "sr_keeps I (vm_result x)" "sr_keeps I (getWallets p)"
  unfolding vm_result_def getWallets_def by (intro keeps_intros)+

lemma keeps_queue: "sr_keeps I (sr_modify (malicious_peer n) :: unit pm)" "sr_keeps I (sr_modify (\<lambda>s. s\<lparr>pm_sync_queue := q\<rparr>) :: unit pm)"
  "sr_keeps I (sr_modify (\<lambda>s. set_queue (f s) s) :: unit pm)"
proof -
  have q: "I (set_queue h s)" if "I s" for h s
    using sr_keepsD[OF queue[of h] _ that] by simp
  show "sr_keeps I (sr_modify (malicious_peer n) :: unit pm)"
    by (rule sr_keepsI) (auto simp: malicious_peer_def intro: q sr_keepsD[OF sent])
  show "sr_keeps I (sr_modify (\<lambda>s. s\<lparr>pm_sync_queue := q\<rparr>) :: unit pm)"
    using q[of _ "\<lambda>_. q"] by (auto simp: set_queue_def intro: sr_keeps_modify)
  show "sr_keeps I (sr_modify (\<lambda>s. set_queue (f s) s) :: unit pm)"
    by (rule sr_keeps_modify) (rule q)
qed

lemma keeps_advanceRound: "sr_keeps I (advanceRound env)"
  unfolding advanceRound_def by (intro keeps_intros reset)

lemma keeps_push: "sr_keeps I (pushPbftBlock env d vs)"
  unfolding pushPbftBlock_def Let_def by (intro keeps_flow commit)

lemma keeps_tryPush: "sr_keeps I (tryPushCertVotesBlock env)"
  unfolding tryPushCertVotesBlock_def pushCertVotedPbftBlockIntoChain_def two_t_votes_def
  by (intro keeps_flow keeps_push keeps_reads proposed)

lemma keeps_certVotes: "sr_keeps I (validatePbftBlockCertVotes env b vs)"
proof -
  have "sr_keeps I (cert_votes_loop env b strict pick p r i vs done w)" for strict pick p r i vs "done" w
    by (induction vs arbitrary: i "done" w) (auto intro!: keeps_flow added validated)
  then show ?thesis
    unfolding validatePbftBlockCertVotes_def by (intro keeps_flow two_t)
qed

lemma keeps_period_data: "sr_keeps I (processPeriodData env)"
proof -
  have "sr_keeps I (check_votes_and_pillar env d vs n)" for d vs n
    unfolding check_votes_and_pillar_def Let_def
    by (intro keeps_flow keeps_certVotes keeps_queue queue keeps_reads)
  then show ?thesis
    unfolding processPeriodData_def Let_def by (intro keeps_flow sr_keeps_validation keeps_queue)
qed

lemma keeps_sync: "sr_keeps I (pushSyncedPbftBlocksIntoChain env)"
proof -
  have "sr_keeps I (sync_loop env n)" for n
    by (induction n) (auto intro!: keeps_flow keeps_period_data keeps_push sent)
  then show ?thesis
    unfolding pushSyncedPbftBlocksIntoChain_def by (intro keeps_flow keeps_queue)
qed

lemma keeps_stateOperations: "sr_keeps I (stateOperations env)"
  unfolding stateOperations_def
  by (intro keeps_flow keeps_sync keeps_tryPush keeps_advanceRound broadcast keeps_reads)

end

text \<open>A predicate on the state, the step and the dynamic lambda that resets and lambda updates keep.\<close>

locale daemon_invariant =
  fixes env :: pbft_env and I :: "pbft_manager \<Rightarrow> bool"
  assumes frame: "pm_mode s' = pm_mode s \<Longrightarrow> I s \<Longrightarrow> I s'"
    and round_reset: "I s \<Longrightarrow> I (reset_round env r s)"
    and adjust: "I s \<Longrightarrow> I (adjustDynamicLambda env p r s)"
begin

lemma keeps_core: "core_keeps m \<Longrightarrow> sr_keeps I m"
  by (rule sr_keepsI) (blast dest: core_eq core_mode intro: frame)

lemma keeps_modify: "(\<And>s. pm_mode (g s) = pm_mode s) \<Longrightarrow> sr_keeps I (sr_modify g)"
  by (rule sr_keeps_modify) (blast intro: frame)

lemma keeps_reset: "sr_keeps I (resetPbftConsensus env r)"
  unfolding resetPbftConsensus_def
  by (intro keeps_intros keeps_modify keeps_core[OF core_waits(2)] keeps_core[OF core_vm_action] round_reset)
     (simp_all add: pm_mode_def set_db_def)

lemma keeps_advancePeriod: "sr_keeps I (advancePeriod env)"
  unfolding advancePeriod_def Let_def
  by (intro keeps_flow keeps_modify keeps_reset keeps_core[OF core_waits(3)])
     (simp_all add: pm_mode_def cleanup_proposed_def set_db_def split: prod.split)

lemma keeps_pillar: "sr_keeps I (processPillarBlock env p)"
proof -
  have "pm_mode (place_pillar_votes env p h ws s) = pm_mode s" for p h ws s
    unfolding place_pillar_votes_def by (induction ws arbitrary: s) (auto simp: pm_mode_def)
  then show ?thesis
    unfolding processPillarBlock_def by (intro keeps_flow keeps_modify keeps_core[OF core_waits(1)])
qed

lemma keeps_commit: "sr_keeps I (commit_block env d v)"
proof -
  have "sr_keeps I (store_block env d v)"
    unfolding store_block_def Let_def
    by (intro keeps_flow keeps_modify keeps_core[OF core_vm_action]) (simp add: pm_mode_def set_db_def split: prod.split)
  moreover have "sr_keeps I (update_lambda env p r)" for p r
    unfolding update_lambda_def Let_def
    by (intro keeps_flow keeps_modify sr_keeps_modify adjust) (simp_all add: pm_mode_def set_db_def save_period_lambda_def)
  moreover have "sr_keeps I (finalize env d)" unfolding finalize_def by (intro keeps_intros)
  ultimately show ?thesis
    unfolding commit_block_def Let_def
    by (intro keeps_flow keeps_modify keeps_advancePeriod keeps_pillar) (simp_all add: pm_mode_def set_db_def)
qed

end

sublocale daemon_invariant \<subseteq> daemon_actions
  by unfold_locales
     (intro keeps_core core_vm_action core_getValid core_broadcast keeps_modify keeps_reset keeps_commit;
      simp add: set_queue_def pm_send_def pm_mode_def)+

section \<open>State and step\<close>

fun coherent_mode :: "PbftStates \<Rightarrow> pbft_step \<Rightarrow> bool" where
  "coherent_mode value_proposal_state step \<longleftrightarrow> step = 1"
| "coherent_mode filter_state step \<longleftrightarrow> step = 2"
| "coherent_mode certify_state step \<longleftrightarrow> step = 3"
| "coherent_mode finish_state step \<longleftrightarrow> 4 \<le> step \<and> step mod 2 = 0"
| "coherent_mode finish_polling_state step \<longleftrightarrow> 5 \<le> step \<and> step mod 2 = 1"

definition coherent :: "pbft_manager \<Rightarrow> bool" where
  "coherent s \<longleftrightarrow> coherent_mode (pm_state s) (pm_step s)"

lemma setPbftStep_fields [simp]:
  "pm_step (setPbftStep env n s) = n" "pm_state (setPbftStep env n s) = pm_state s"
  "pm_round (setPbftStep env n s) = pm_round s" "pm_dynamic_lambda (setPbftStep env n s) = pm_dynamic_lambda s"
  "pm_cert_voted (setPbftStep env n s) = pm_cert_voted s" "pm_chain (setPbftStep env n s) = pm_chain s"
  "pm_vm (setPbftStep env n s) = pm_vm s" "pm_proposed (setPbftStep env n s) = pm_proposed s"
  by (simp_all add: setPbftStep_def set_db_def Let_def)

lemma reset_round_fields [simp]:
  "pm_step (reset_round env r s) = 1" "pm_state (reset_round env r s) = value_proposal_state"
  "pm_round (reset_round env r s) = r" "pm_dynamic_lambda (reset_round env r s) = pm_dynamic_lambda s"
  "pm_cert_voted (reset_round env r s) = None" "pm_chain (reset_round env r s) = pm_chain s"
  "pm_vm (reset_round env r s) = clearOwnVerifiedVotes (pm_vm s)" "pm_proposed (reset_round env r s) = pm_proposed s"
  by (simp_all add: reset_round_def set_db_def Let_def)

lemma adjust_fields [simp]:
  "pm_step (adjustDynamicLambda env p r s) = pm_step s" "pm_state (adjustDynamicLambda env p r s) = pm_state s"
  by (simp_all add: adjustDynamicLambda_def set_db_def Let_def)

interpretation coh: daemon_invariant env "\<lambda>s. coherent s \<and> pm_step s \<noteq> - 1" for env
  by unfold_locales (simp_all add: coherent_def pm_mode_def)

lemma next_step_parity:
  fixes n :: pbft_step
  assumes "n \<noteq> - 1"
  shows "n mod 2 = 0 \<Longrightarrow> (n + 1) mod 2 = 1" and "n mod 2 = 1 \<Longrightarrow> (n + 1) mod 2 = 0"
    and "unat (n + 1) = Suc (unat n)"
proof -
  have u: "unat (n + 1) = Suc (unat n)"
    using assms by (metis add.commute unatSuc add_eq_0_iff minus_equation_iff)
  show "(n + 1) mod 2 = 1" if "n mod 2 = 0"
    using that by (auto simp: word_unat_eq_iff unat_mod u; presburger)
  show "(n + 1) mod 2 = 0" if "n mod 2 = 1"
    using that by (auto simp: word_unat_eq_iff unat_mod u; presburger)
  show "unat (n + 1) = Suc (unat n)" by (rule u)
qed

lemma coherent_next:
  assumes "coherent s" and "pm_step s \<noteq> - 1"
  shows "pm_state s = value_proposal_state \<Longrightarrow> coherent (setFilterState env s)"
    and "pm_state s = filter_state \<Longrightarrow> coherent (setCertifyState env s)"
    and "pm_state s = certify_state \<Longrightarrow> coherent (setFinishState env s)"
    and "pm_state s = finish_state \<Longrightarrow> coherent (setFinishPollingState env s)"
    and "pm_state s = finish_polling_state \<Longrightarrow> coherent (loopBackFinishState env s)"
proof -
  have "4 \<le> pm_step s \<Longrightarrow> 5 \<le> pm_step s + 1" "5 \<le> pm_step s \<Longrightarrow> 4 \<le> pm_step s + 1"
    by (simp_all add: word_le_nat_alt next_step_parity(3)[OF assms(2)])
  then show "pm_state s = finish_state \<Longrightarrow> coherent (setFinishPollingState env s)"
    and "pm_state s = finish_polling_state \<Longrightarrow> coherent (loopBackFinishState env s)"
    using assms next_step_parity(1, 2)[OF assms(2)]
    by (auto simp: coherent_def setFinishPollingState_def loopBackFinishState_def reset_next_voted_def set_db_def Let_def)
qed (use assms in \<open>auto simp: coherent_def setFilterState_def setCertifyState_def setFinishState_def Let_def\<close>)

lemma place_cert_vote_mode: "place_cert_vote env s = Inr (u, s') \<Longrightarrow> pm_mode s' = pm_mode s"
proof -
  have "sr_keeps (\<lambda>t. pm_mode t = pm_mode s) (place_cert_vote env)"
    unfolding place_cert_vote_def Let_def
    by (intro keeps_flow sr_keepsI[of _ "valid_proposed env x y" for x y] sr_keepsI[of _ "genAndPlaceVote env a b c d e f" for a b c d e f]
         sr_keeps_modify)
       (auto dest!: core_eq[OF core_getValid(2)] core_eq[OF core_place] core_mode simp: pm_mode_def set_db_def)
  then show "place_cert_vote env s = Inr (u, s') \<Longrightarrow> pm_mode s' = pm_mode s" by (auto dest: sr_keepsD)
qed

lemma certifyBlock_mode: "certifyBlock env s = Inr (u, s') \<Longrightarrow> pm_mode s' = pm_mode s"
  by (auto simp: certifyBlock_def Let_def pm_mode_def[symmetric] split: if_splits
      dest!: place_cert_vote_mode core_mode[OF core_eq[OF core_vm_action]]) (simp_all add: pm_mode_def)

lemma coherent_run_state:
  assumes c: "coherent s" and top: "pm_step s \<noteq> - 1" and r: "run_state env s = Inr (u, s')"
  shows "coherent s'"
proof -
  have mode: "coherent t \<and> pm_step t \<noteq> - 1 \<and> pm_state t = pm_state s" if "pm_mode t = pm_mode s" for t
    using c top that by (simp add: pm_mode_def coherent_def)
  have poll: "coherent t \<Longrightarrow> coherent (poll_again t)" for t by (simp add: coherent_def poll_again_def)
  have core: "coherent t \<and> pm_step t \<noteq> - 1 \<and> pm_state t = pm_state s" if "core_keeps m" "m s = Inr (x, t)" for m :: "unit pm" and x t
    using mode[OF core_mode[OF core_eq[OF that]]] .
  show ?thesis
    using r core[OF core_states(2)[of env]] core[OF core_states(3)[of env]] core[OF core_states(4)[of env]]
      core[OF core_second[of env]] mode[OF certifyBlock_mode[of env s]]
    by (cases "pm_state s") (auto simp: run_state_def split: if_splits intro: coherent_next poll)
qed

lemma coherent_core: "pm_core s = pm_core t \<Longrightarrow> coherent s = coherent t"
  by (simp add: pm_core_def coherent_def)

lemma coherent_step: "pbft_step cfg env0 dpos s s' \<Longrightarrow> coherent s \<Longrightarrow> coherent s'"
proof (induction rule: pbft_step.induct)
  case (daemon env s s')
  obtain t b where ops: "stateOperations env s = Inr (b, t)" and rest: "if b then s' = t else run_state env t = Inr ((), s')"
    using daemon.hyps by (auto simp: run_def split: if_splits)
  have "coherent t \<and> pm_step t \<noteq> - 1"
    using sr_keepsD[OF coh.keeps_stateOperations ops] daemon.prems daemon.hyps by blast
  then show ?case using rest coherent_run_state by (cases b) auto
qed (simp_all only: coherent_core[OF network_core(1)] coherent_core[OF network_core(2)] coherent_core[OF network_core(3)])

lemma coherent_initialState:
  assumes "initialState env s = Inr (u, s')"
  shows "coherent s'"
proof -
  have init: "coherent (init_state_step env t)" for t
  proof -
    have "n mod 2 = 1" if "n mod 2 \<noteq> 0" for n :: pbft_step
      using that by (simp add: word_unat_eq_iff unat_mod)
    moreover have "5 \<le> n" if "\<not> n < 4" "n mod 2 = 1" for n :: pbft_step
      using that by (simp add: word_unat_eq_iff unat_mod word_le_nat_alt word_less_nat_alt) presburger
    ultimately show ?thesis by (auto simp: init_state_step_def coherent_def Let_def)
  qed
  have mode: "coherent t \<Longrightarrow> pm_mode t' = pm_mode t \<Longrightarrow> coherent t'" for t t'
    by (simp add: coherent_def pm_mode_def)
  have pushed: "pm_mode (push_proposed b f t) = pm_mode t" "pm_mode (fold (\<lambda>e. push_proposed (snd e) f) bs t) = pm_mode t" for b f t bs
    by (rule core_mode; simp)+
  have upd: "pm_mode (t\<lparr>pm_round := r\<rparr>) = pm_mode t" "pm_mode (t\<lparr>pm_cert_voted := b\<rparr>) = pm_mode t"
    "pm_mode (t\<lparr>pm_executed := e, pm_next_voted_value := v, pm_next_voted_null := n, pm_round_start := i,
       pm_period_start := j, pm_next_step_time := k\<rparr>) = pm_mode t" for t r b e v n i j k
    by (simp_all add: pm_mode_def)
  have "sr_valid (\<lambda>_. True) (initialState env) (\<lambda>_. coherent)"
    unfolding initialState_def Let_def
    by (rule sr_valid_any_with, rule sr_valid_then[OF sr_valid_True], rule sr_valid_then[OF sr_valid_modify[where Q = "\<lambda>_. coherent"]], rule init,
        fold sr_keeps_def, intro keeps_flow sr_keeps_modify)
       (auto intro!: sr_keepsI simp: pushed upd Let_def elim!: mode split: option.split
          dest!: core_mode[OF core_eq[OF core_vm_action]] core_mode[OF core_eq[OF core_waits(2)]])
  then show ?thesis using assms by (auto dest: sr_validD)
qed

section \<open>Dynamic lambda\<close>

definition lambda_config :: "cacti_config \<Rightarrow> bool" where
  "lambda_config cfg \<longleftrightarrow> lambda_change cfg \<le> lambda_min cfg \<and> lambda_min cfg \<le> lambda_max cfg
     \<and> unat (lambda_max cfg) + unat (lambda_change cfg) < 2 ^ 32"

definition lambda_bounded :: "cacti_config \<Rightarrow> pbft_manager \<Rightarrow> bool" where
  "lambda_bounded cfg s \<longleftrightarrow> lambda_min cfg \<le> pm_dynamic_lambda s \<and> pm_dynamic_lambda s \<le> lambda_max cfg"

definition lower_lambda :: "cacti_config \<Rightarrow> u32 \<Rightarrow> u32" where
  "lower_lambda c x = (if x - lambda_change c < lambda_min c then lambda_min c else x - lambda_change c)"

definition raise_lambda :: "cacti_config \<Rightarrow> u32 \<Rightarrow> u32" where
  "raise_lambda c x = (if x + lambda_change c > lambda_max c then lambda_max c else x + lambda_change c)"

lemma adjust_lambda:
  "pm_dynamic_lambda (adjustDynamicLambda env p r s) =
     (let c = pe_cacti env; x = pm_dynamic_lambda s;
          y = (if isDynamicLambdaChangeInterval c p \<and> pm_rounds_count s + r = lambda_change_interval c \<and> x > lambda_min c
               then lower_lambda c x else x)
      in if 1 < r \<and> y < lambda_max c then raise_lambda c y else y)"
  unfolding adjustDynamicLambda_def lower_lambda_def raise_lambda_def set_db_def Let_def
  by (cases "isDynamicLambdaChangeInterval (pe_cacti env) p";
      cases "pm_rounds_count s + r = lambda_change_interval (pe_cacti env)";
      cases "lambda_min (pe_cacti env) < pm_dynamic_lambda s")
     (simp_all add: if_distrib[of pm_dynamic_lambda] split del: if_split cong: if_cong)

lemma lower_bounds:
  assumes "lambda_config c" and "lambda_min c < x"
  shows "lambda_min c \<le> lower_lambda c x" and "lower_lambda c x \<le> x"
  using assms by (auto simp: lambda_config_def lower_lambda_def word_le_nat_alt word_less_nat_alt unat_sub_if')

lemma raise_bounds:
  assumes "lambda_config c" and "x < lambda_max c"
  shows "x \<le> raise_lambda c x" and "raise_lambda c x \<le> lambda_max c"
  using assms by (auto simp: lambda_config_def raise_lambda_def word_le_nat_alt word_less_nat_alt unat_plus_if')

lemma adjust_bounded:
  assumes "lambda_config (pe_cacti env)" and "lambda_bounded (pe_cacti env) s"
  shows "lambda_bounded (pe_cacti env) (adjustDynamicLambda env p r s)"
proof -
  define y where "y = (if isDynamicLambdaChangeInterval (pe_cacti env) p
      \<and> pm_rounds_count s + r = lambda_change_interval (pe_cacti env) \<and> pm_dynamic_lambda s > lambda_min (pe_cacti env)
    then lower_lambda (pe_cacti env) (pm_dynamic_lambda s) else pm_dynamic_lambda s)"
  have "lambda_min (pe_cacti env) \<le> y" "y \<le> lambda_max (pe_cacti env)"
    using assms lower_bounds[OF assms(1)] by (auto simp: y_def lambda_bounded_def intro: order_trans)
  then show ?thesis
    using raise_bounds[OF assms(1), of y]
    by (auto simp: lambda_bounded_def adjust_lambda Let_def y_def[symmetric] intro: order_trans)
qed

interpretation lam: daemon_invariant env "\<lambda>s. lambda_config (pe_cacti env) \<longrightarrow> lambda_bounded (pe_cacti env) s" for env
  by unfold_locales (simp_all add: adjust_bounded, simp_all add: lambda_bounded_def pm_mode_def)

lemma run_state_lambda: "run_state env s = Inr (u, s') \<Longrightarrow> pm_dynamic_lambda s' = pm_dynamic_lambda s"
proof -
  have core: "pm_dynamic_lambda t = pm_dynamic_lambda s" if "core_keeps m" "m s = Inr (x, t)" for m :: "unit pm" and x t
    using core_eq[OF that] by (simp add: pm_core_def)
  have "certifyBlock env s = Inr (x, t) \<Longrightarrow> pm_dynamic_lambda t = pm_dynamic_lambda s" for x t
    using certifyBlock_mode[of env s x t] by (simp add: pm_mode_def)
  then show "run_state env s = Inr (u, s') \<Longrightarrow> pm_dynamic_lambda s' = pm_dynamic_lambda s"
    using core[OF core_states(2)[of env]] core[OF core_states(3)[of env]] core[OF core_states(4)[of env]] core[OF core_second[of env]]
    by (cases "pm_state s")
       (auto simp: run_state_def setFilterState_def setCertifyState_def setFinishState_def setFinishPollingState_def
          loopBackFinishState_def reset_next_voted_def poll_again_def set_db_def Let_def split: if_splits)
qed

lemma lambda_step:
  assumes cfg: "lambda_config cfg"
  shows "pbft_step cfg env0 dpos s s' \<Longrightarrow> lambda_bounded cfg s \<Longrightarrow> lambda_bounded cfg s'"
proof (induction rule: pbft_step.induct)
  case (daemon env s s')
  obtain t b where ops: "stateOperations env s = Inr (b, t)" and rest: "if b then s' = t else run_state env t = Inr ((), s')"
    using daemon.hyps by (auto simp: run_def split: if_splits)
  have "lambda_bounded cfg t" using sr_keepsD[OF lam.keeps_stateOperations ops] daemon cfg by (auto simp: env_ok_def)
  then show ?case using rest run_state_lambda[of env t "()" s'] by (cases b) (auto simp: lambda_bounded_def)
qed (insert network_core, simp_all add: lambda_bounded_def pm_core_def)

end
