(* ===== verification/Pbft_Placing.thy ===== *)
theory Pbft_Placing
  imports Pbft_Invariants
begin

text \<open>
  What the voting actions of the PBFT manager do to the votes and the proposed blocks: each moves the vote manager
  along its own step relation, loses no 2t+1 voted block and adds own votes only of the stated kind.
\<close>

section \<open>What the vote manager keeps\<close>

definition keeps_two_t :: "vote_manager \<Rightarrow> vote_manager \<Rightarrow> bool" where
  "keeps_two_t m m' \<longleftrightarrow> (\<forall>p r ty vb. getTwoTPlusOneVotedBlock (vm_votes m) p r ty = Some vb \<longrightarrow>
     getTwoTPlusOneVotedBlock (vm_votes m') p r ty = Some vb)"

lemma keeps_two_t_refl [simp]: "keeps_two_t m m"
  by (simp add: keeps_two_t_def)

lemma keeps_two_t_trans: "keeps_two_t m m' \<Longrightarrow> keeps_two_t m' m'' \<Longrightarrow> keeps_two_t m m''"
  by (simp add: keeps_two_t_def)

lemma keeps_two_t_same: "vm_votes m' = vm_votes m \<Longrightarrow> keeps_two_t m m'"
  by (simp add: keeps_two_t_def)

lemma insertTwoT_keeps:
  assumes "vv_inv vv" and "getTwoTPlusOneVotedBlock vv p r ty = Some vb"
  shows "getTwoTPlusOneVotedBlock (insertTwoTPlusOneVotedBlock ty' v vv) p r ty = Some vb"
  using assms(2)
  by (auto simp: insertTwoTPlusOneVotedBlock_def getTwoTPlusOneVotedBlock_round getRoundVotes_set_round[OF assms(1)]
      split: option.splits)

lemma update_two_t_keeps:
  assumes inv: "vv_inv (vm_votes m)" and res: "update_two_t v n vw m = Inr (b, m')"
  shows "keeps_two_t m m' \<and> vm_own_votes m' = vm_own_votes m"
proof -
  have "vv_inv (setNetworkTPlusOneStep v (vm_votes m))" using inv by (rule setNetworkTPlusOneStep_inv)
  note ins = insertTwoT_keeps[OF this] insertTwoT_keeps[OF inv]
  show ?thesis
    using res
    by (auto simp: update_two_t_def saveTwoTPlusOneVotesInDb_def keeps_two_t_def Let_def
        read_setNetworkTPlusOneStep[OF inv] intro!: ins split: option.splits if_splits PbftVoteTypes.splits)
qed

lemma addVerifiedVote_keeps:
  assumes inv: "vv_inv (vm_votes m)" and res: "addVerifiedVote env v m = Inr (b, m')"
  shows "keeps_two_t m m' \<and> vm_own_votes m' = vm_own_votes m"
proof (cases "v_weight v")
  case (Some w)
  show ?thesis
  proof (cases "w = 0")
    case False
    obtain u vv1 where u: "insertUniqueVoter v (vm_votes m) = (u, vv1)" by fastforce
    have inv1: "vv_inv vv1" using insertUniqueVoter_inv[of "vm_votes m" v] inv u by simp
    have two1: "getTwoTPlusOneVotedBlock vv1 p r ty = getTwoTPlusOneVotedBlock (vm_votes m) p r ty" for p r ty
      using read_insertUniqueVoter(2)[OF inv, of v] u by simp
    show ?thesis
    proof (cases "u = None \<and> \<not> (v_period v < vm_current_period m \<and> \<not> isValidRewardVote (m\<lparr>vm_votes := vv1\<rparr>) v)")
      case False
      then show ?thesis
        using res u Some \<open>w \<noteq> 0\<close> two1 by (auto simp: addVerifiedVote_def Let_def keeps_two_t_def split: option.splits if_splits)
    next
      case True
      obtain x vv2 where ins: "insertVotedValue v vv1 = Inr (x, vv2)"
        using res u Some \<open>w \<noteq> 0\<close> True by (auto simp: addVerifiedVote_def Let_def split: sum.splits if_splits)
      have inv2: "vv_inv vv2" using insertVotedValue_inv[OF inv1] ins by auto
      have two2: "getTwoTPlusOneVotedBlock vv2 p r ty = getTwoTPlusOneVotedBlock (vm_votes m) p r ty" for p r ty
        using ins two1
        by (auto simp: insertVotedValue_eq read_put_value[OF inv1] Let_def split: if_splits option.splits)
      show ?thesis
      proof (cases x)
        case None
        then show ?thesis
          using res u Some \<open>w \<noteq> 0\<close> True ins two2
          by (auto simp: addVerifiedVote_def Let_def keeps_two_t_def split: if_splits)
      next
        case (Some vw)
        have stored: "addVerifiedVote env v m =
            (case getPbftTwoTPlusOne env (v_period v - 1) (v_type v) (vote_stored v vv1 vv2 m) of
               Inl e \<Rightarrow> Inl e | Inr (None, m4) \<Rightarrow> Inr (True, m4) | Inr (Some n, m4) \<Rightarrow> update_two_t v n vw m4)"
          using addVerifiedVote_stored[OF \<open>v_weight v = Some w\<close> \<open>w \<noteq> 0\<close>, of m vv1 vw vv2 env] u True ins Some by simp
        have own: "vm_own_votes (vote_stored v vv1 vv2 m) = vm_own_votes m" by (simp add: vote_stored_def)
        obtain y m4 where m4: "getPbftTwoTPlusOne env (v_period v - 1) (v_type v) (vote_stored v vv1 vv2 m) = Inr (y, m4)"
          using res stored by (auto split: sum.splits)
        have f: "vm_votes m4 = vv2" "vm_own_votes m4 = vm_own_votes m"
          using arg_cong[OF getPbftTwoTPlusOne_frame[OF m4], of vm_votes] arg_cong[OF getPbftTwoTPlusOne_frame[OF m4], of vm_own_votes] own
          by simp_all
        show ?thesis
          using res stored m4 f two2 update_two_t_keeps[of m4 v _ vw b m'] inv2
          by (cases y) (auto simp: keeps_two_t_def)
      qed
    qed
  qed (use res Some in \<open>auto simp: addVerifiedVote_def\<close>)
qed (use res in \<open>simp add: addVerifiedVote_def\<close>)

section \<open>Proposed blocks are filed under their hash and period\<close>

definition proposed_ok :: "proposed_blocks \<Rightarrow> bool" where
  "proposed_ok pb \<longleftrightarrow> (\<forall>p m h b f. (p, m) \<in> set pb \<longrightarrow> (h, b, f) \<in> set m \<longrightarrow> pb_hash b = h \<and> pb_period b = p)"

lemma set_om_put: "set (om_put k v m) \<subseteq> insert (k, v) (set m)"
  by (induction m) auto

lemma set_um_put: "set (um_put k v m) \<subseteq> insert (k, v) (set m)"
  by (induction m) auto

lemma proposed_ok_empty [simp]: "proposed_ok []"
  by (simp add: proposed_ok_def)

lemma proposed_ok_put:
  assumes "proposed_ok pb" and "\<And>h b f. (h, b, f) \<in> set m \<Longrightarrow> pb_hash b = h \<and> pb_period b = p"
  shows "proposed_ok (om_put p m pb)"
  using assms set_om_put[of p m pb] unfolding proposed_ok_def by blast

lemma proposed_ok_find: "proposed_ok pb \<Longrightarrow> um_find pb p = Some m \<Longrightarrow> (h, b, f) \<in> set m \<Longrightarrow> pb_hash b = h \<and> pb_period b = p"
  unfolding proposed_ok_def by (blast dest: map_of_SomeD)

lemma proposed_ok_get: "proposed_ok pb \<Longrightarrow> getPbftProposedBlock pb p h = Some (b, f) \<Longrightarrow> pb_hash b = h \<and> pb_period b = p"
  by (auto simp: getPbftProposedBlock_def dest: map_of_SomeD proposed_ok_find split: option.splits)

lemma proposed_ok_push: "proposed_ok pb \<Longrightarrow> proposed_ok (fst (snd (pushProposedPbftBlock b save (pb, db))))"
proof -
  assume ok: "proposed_ok pb"
  have "pb_hash b' = h \<and> pb_period b' = pb_period b" if "(h, b', f) \<in> set (um_get_or [] pb (pb_period b))" for h b' f
    using that proposed_ok_find[OF ok, of "pb_period b"] by (cases "um_find pb (pb_period b)") (auto simp: um_get_or_def)
  with ok show ?thesis
    using set_um_put[of "pb_hash b" "(b, False)" "um_get_or [] pb (pb_period b)"]
    by (auto simp: pushProposedPbftBlock_def Let_def intro!: proposed_ok_put)
qed

lemma proposed_ok_mark: "proposed_ok pb \<Longrightarrow> markBlockAsValid b pb = Inr pb' \<Longrightarrow> proposed_ok pb'"
proof -
  assume ok: "proposed_ok pb" and res: "markBlockAsValid b pb = Inr pb'"
  obtain m b' f where m: "um_find pb (pb_period b) = Some m" "um_find m (pb_hash b) = Some (b', f)"
    and pb': "pb' = om_put (pb_period b) (um_put (pb_hash b) (b', True) m) pb"
    using res by (auto simp: markBlockAsValid_def split: option.splits)
  have "(pb_hash b, b', f) \<in> set m" using m(2) by (rule map_of_SomeD)
  with ok show "proposed_ok pb'"
    unfolding pb' using set_um_put[of "pb_hash b" "(b', True)" m] proposed_ok_find[OF ok m(1)]
    by (blast intro: proposed_ok_put)
qed

lemma cleanup_subset: "set (fst (cleanupProposedPbftBlocksByPeriod p (pb, db))) \<subseteq> set pb"
proof (induction pb arbitrary: db)
  case (Cons e pb)
  show ?case by (cases e) (simp add: subset_insertI2 Cons.IH)
qed simp

lemma proposed_ok_cleanup: "proposed_ok pb \<Longrightarrow> proposed_ok (fst (cleanupProposedPbftBlocksByPeriod p (pb, db)))"
  unfolding proposed_ok_def using cleanup_subset by blast

section \<open>Actions that leave votes and proposed blocks alone\<close>

definition still :: "pbft_manager \<Rightarrow> pbft_manager \<Rightarrow> bool" where
  "still s s' \<longleftrightarrow> pm_vm s' = pm_vm s \<and> pm_proposed s' = pm_proposed s"

interpretation still: action_frame still
  by unfold_locales (simp_all add: still_def)

named_theorems still_intros \<open>actions that leave votes and proposed blocks alone\<close>

lemmas [still_intros] = still.flow

lemma still_vm_result [still_intros]: "sr_moves still (vm_result r)"
  by (simp add: vm_result_def still.flow)

lemma still_waits [still_intros]: "sr_moves still (getWallets p)" "sr_moves still (waitForPeriodFinalization env)"
  "sr_moves still (updateWalletsEligibility env p)"
  unfolding getWallets_def waitForPeriodFinalization_def updateWalletsEligibility_def
  by (intro still_intros; simp add: still_def)+

lemma still_validate [still_intros]:
  "sr_moves still (validatePbftBlock env b)" "sr_moves still (getValidPbftProposedBlock env pb p h)"
  unfolding validatePbftBlock_def validate_anchor_def getValidPbftProposedBlock_def Let_def
  by (intro still_intros; simp add: still_def)+

lemma still_leader [still_intros]: "sr_moves still (identifyLeaderBlock env pb vs)"
proof -
  have "sr_moves still (leader_loop env cs e pb)" for cs e pb
    by (induction cs arbitrary: e pb) (auto intro!: still_intros)
  then show ?thesis unfolding identifyLeaderBlock_def by (intro still_intros) blast+
qed

lemma still_own_proposals [still_intros]: "sr_moves still (own_proposals env mk p ws pb vs)"
  by (induction ws arbitrary: pb vs) (auto intro!: still_intros)

lemma still_send [simp]: "still s (pm_send g s)" "still s (note_broadcast v s)"
  by (simp_all add: pm_send_def note_broadcast_def still_def)

lemma still_fold: "(\<And>x s. still s (f x s)) \<Longrightarrow> still s (fold f xs s)"
  by (induction xs arbitrary: s) (auto intro: still.refl still.trans)

lemma still_bundle: "still s (fold note_broadcast vs (pm_send g s))"
  by (rule still.trans[OF still_send(1) still_fold[OF still_send(2)]])

lemma still_gossip [still_intros]:
  "sr_moves still (gossipVote env v b r)" "sr_moves still (gossipNewOwnVote env v b)"
  "sr_moves still (gossipNewOwnVotesBundle env vs)"
  unfolding gossipNewOwnVote_def gossipVote_def gossipNewOwnVotesBundle_def
  by (intro still_intros; simp add: still_bundle)+

lemma still_broadcast [still_intros]: "sr_moves still (broadcastVotes env)"
  unfolding broadcastVotes_def stuckRoundBroadcastVotes_def stuckPeriodBroadcastVotes_def two_t_votes_def gossip_votes_def Let_def
  by (intro still_intros; (rule still_fold[OF still_send(1)] | simp add: still_def pm_send_def))

section \<open>Actions that place votes\<close>

definition vote_moves ::
  "vote_env \<Rightarrow> (u64 \<Rightarrow> u64) \<Rightarrow> (pbft_vote \<Rightarrow> bool) \<Rightarrow> pbft_manager \<Rightarrow> pbft_manager \<Rightarrow> bool" where
  "vote_moves env0 dpos F s s' \<longleftrightarrow>
     (proposed_ok (pm_proposed s) \<longrightarrow> proposed_ok (pm_proposed s'))
     \<and> (vm_reachable env0 dpos (pm_vm s) \<longrightarrow>
          vm_reachable env0 dpos (pm_vm s') \<and> keeps_two_t (pm_vm s) (pm_vm s')
          \<and> (\<exists>new. vm_own_votes (pm_vm s') = vm_own_votes (pm_vm s) @ new \<and> (\<forall>v\<in>set new. F v)))"

lemma vote_moves_still: "still s s' \<Longrightarrow> vote_moves env0 dpos F s s'"
  by (simp add: vote_moves_def still_def)

lemma vote_moves_trans:
  assumes "vote_moves env0 dpos F s t" and "vote_moves env0 dpos F t u"
  shows "vote_moves env0 dpos F s u"
  unfolding vote_moves_def
proof (intro conjI impI)
  assume r: "vm_reachable env0 dpos (pm_vm s)"
  obtain new where new: "vm_own_votes (pm_vm t) = vm_own_votes (pm_vm s) @ new" "\<forall>v\<in>set new. F v"
    and t: "vm_reachable env0 dpos (pm_vm t)" "keeps_two_t (pm_vm s) (pm_vm t)"
    using assms(1) r unfolding vote_moves_def by blast
  obtain new' where new': "vm_own_votes (pm_vm u) = vm_own_votes (pm_vm t) @ new'" "\<forall>v\<in>set new'. F v"
    and u: "vm_reachable env0 dpos (pm_vm u)" "keeps_two_t (pm_vm t) (pm_vm u)"
    using assms(2) t unfolding vote_moves_def by blast
  show "vm_reachable env0 dpos (pm_vm u)" "keeps_two_t (pm_vm s) (pm_vm u)"
    using u t keeps_two_t_trans by blast+
  show "\<exists>n. vm_own_votes (pm_vm u) = vm_own_votes (pm_vm s) @ n \<and> (\<forall>v\<in>set n. F v)"
    using new new' by (intro exI[of _ "new @ new'"]) auto
qed (use assms in \<open>simp add: vote_moves_def\<close>)

interpretation vot: action_frame "vote_moves env0 dpos F" for env0 dpos F
  by unfold_locales (blast intro: vote_moves_still still.refl vote_moves_trans)+

lemma vote_still: "sr_moves still m \<Longrightarrow> sr_moves (vote_moves env0 dpos F) m"
  by (auto simp: sr_moves_def intro: vote_moves_still)

lemma moves_vm_result:
  "(\<And>a. r = Inr a \<Longrightarrow> sr_moves R (f a)) \<Longrightarrow> sr_moves R (sr_bind (vm_result r) f)"
  by (rule sr_movesI) (auto simp: vm_result_def map_sum_def dest: sr_movesD split: sum.splits)

lemma chain_venv [simp]: "chain_env env0 dpos (venv env s) = chain_env env0 dpos (pe_vote env)"
  by (simp add: venv_def chain_env_def)

lemma reachable_inv: "vm_reachable env0 dpos m \<Longrightarrow> vv_inv (vm_votes m)"
  using vm_reachable_ok by (auto simp: vm_ok_def)

lemma vote_add:
  assumes "chain_env env0 dpos (pe_vote env)"
  shows "sr_moves (vote_moves env0 dpos F) (vm_action (addVerifiedVote (venv env s) v))"
proof (rule sr_movesI)
  fix t a t'
  assume "vm_action (addVerifiedVote (venv env s) v) t = Inr (a, t')"
  then obtain m where m: "addVerifiedVote (venv env s) v (pm_vm t) = Inr (a, m)" "t' = t\<lparr>pm_vm := m\<rparr>"
    by (auto simp: vm_action_def split: sum.splits)
  then show "vote_moves env0 dpos F t t'"
    using vm_add[of env0 dpos "pm_vm t" "venv env s" v a m] addVerifiedVote_keeps[of "pm_vm t" "venv env s" v a m] assms
    by (auto simp: vote_moves_def dest: reachable_inv)
qed

lemma vote_two_t:
  assumes "chain_env env0 dpos (pe_vote env)"
  shows "sr_moves (vote_moves env0 dpos F) (vm_action (getPbftTwoTPlusOne (venv env s) p ty))"
proof (rule sr_movesI)
  fix t a t'
  assume "vm_action (getPbftTwoTPlusOne (venv env s) p ty) t = Inr (a, t')"
  then obtain m where m: "getPbftTwoTPlusOne (venv env s) p ty (pm_vm t) = Inr (a, m)" "t' = t\<lparr>pm_vm := m\<rparr>"
    by (auto simp: vm_action_def split: sum.splits)
  have "vm_votes m = vm_votes (pm_vm t)" "vm_own_votes m = vm_own_votes (pm_vm t)"
    using arg_cong[OF getPbftTwoTPlusOne_frame[OF m(1)], of vm_votes] arg_cong[OF getPbftTwoTPlusOne_frame[OF m(1)], of vm_own_votes]
    by simp_all
  then show "vote_moves env0 dpos F t t'"
    using vm_two_t[of env0 dpos "pm_vm t" "venv env s" p ty a m] m assms by (auto simp: vote_moves_def keeps_two_t_same)
qed

lemma vote_save: "F v \<Longrightarrow> sr_moves (vote_moves env0 dpos F) (sr_modify (\<lambda>s. s\<lparr>pm_vm := saveOwnVerifiedVote v (pm_vm s)\<rparr>))"
  by (rule vot.moves_modify) (auto simp: vote_moves_def saveOwnVerifiedVote_def keeps_two_t_def dest: vm_own[of _ _ _ v])

text \<open>What is known of a vote the node places.\<close>

definition placed :: "PbftVoteTypes \<Rightarrow> pbft_period \<Rightarrow> pbft_round \<Rightarrow> pbft_step \<Rightarrow> h256 \<Rightarrow> pbft_vote \<Rightarrow> bool" where
  "placed ty p r st h v \<longleftrightarrow> v_block v = h \<and> v_period v = p \<and> v_round v = r \<and> v_step v = st \<and> v_type v = ty"

lemma generated_placed:
  "signs env \<Longrightarrow> generateVoteWithWeight (venv env s) h ty p r st w = Inr (Some v) \<Longrightarrow> placed ty p r st h v"
  by (auto simp: generateVoteWithWeight_def generateVote_def VrfPbftMsg_def signs_def placed_def venv_def v_type_def Let_def
      split: call.splits if_splits sum.splits option.splits)

lemma vote_wallet:
  assumes "signs env" and "chain_env env0 dpos (pe_vote env)"
  shows "sr_moves (vote_moves env0 dpos (placed ty p r st h)) (place_wallet_vote env ty p r st h b pl w acc)"
  unfolding place_wallet_vote_def
  by (rule vot.moves_with, rule moves_vm_result)
     (auto intro!: vot.flow vote_add vote_save vote_still[OF still_gossip(2)] vote_moves_still simp: assms still_def
       dest: generated_placed[OF assms(1)] split: option.split)

lemma wallet_flag:
  assumes "place_wallet_vote env ty p r st h b pl w acc s = Inr (acc', s')" and "vm_reachable env0 dpos (pm_vm s)"
  shows "fst acc' \<or> acc' = acc \<and> vm_own_votes (pm_vm s') = vm_own_votes (pm_vm s)"
proof -
  obtain g where g: "generateVoteWithWeight (venv env s) h ty p r st w = Inr g"
    using assms(1) by (cases "generateVoteWithWeight (venv env s) h ty p r st w") (auto simp: place_wallet_vote_def vm_result_def)
  show ?thesis
  proof (cases g)
    case None
    with assms(1) g show ?thesis by (simp add: place_wallet_vote_def vm_result_def)
  next
    case (Some v)
    obtain added m where m: "addVerifiedVote (venv env s) v (pm_vm s) = Inr (added, m)"
      using assms(1) g Some
      by (cases "addVerifiedVote (venv env s) v (pm_vm s)") (auto simp: place_wallet_vote_def vm_result_def vm_action_def)
    have "vm_own_votes m = vm_own_votes (pm_vm s)"
      using addVerifiedVote_keeps[OF reachable_inv[OF assms(2)] m] by simp
    with assms(1) g Some m show ?thesis
      by (cases added) (auto simp: place_wallet_vote_def vm_result_def vm_action_def)
  qed
qed

lemma place_votes_spec:
  assumes "signs env" and chain: "chain_env env0 dpos (pe_vote env)"
  shows "place_votes (place_wallet_vote env ty p r st h b pl) ws acc s = Inr (acc', s') \<Longrightarrow>
    vote_moves env0 dpos (placed ty p r st h) s s'
    \<and> (vm_reachable env0 dpos (pm_vm s) \<longrightarrow> fst acc' \<or> acc' = acc \<and> vm_own_votes (pm_vm s') = vm_own_votes (pm_vm s))"
proof (induction ws arbitrary: acc s)
  case (Cons e ws)
  obtain el w where e: "e = (el, w)" by fastforce
  show ?case
  proof (cases el)
    case True
    obtain acc1 s1 where s1: "place_wallet_vote env ty p r st h b pl w acc s = Inr (acc1, s1)"
      "place_votes (place_wallet_vote env ty p r st h b pl) ws acc1 s1 = Inr (acc', s')"
      using Cons.prems e True by auto
    have m1: "vote_moves env0 dpos (placed ty p r st h) s s1" using vote_wallet[OF assms] s1(1) by (rule sr_movesD)
    note IH = Cons.IH[OF s1(2)]
    have "fst acc' \<or> acc' = acc \<and> vm_own_votes (pm_vm s') = vm_own_votes (pm_vm s)" if "vm_reachable env0 dpos (pm_vm s)"
      using wallet_flag[OF s1(1) that] IH m1 that unfolding vote_moves_def by auto
    with IH m1 show ?thesis by (blast intro: vote_moves_trans)
  qed (use Cons e in auto)
qed (auto intro: vote_moves_still still.refl)

lemma genAndPlaceVote_spec:
  assumes "signs env" and "chain_env env0 dpos (pe_vote env)" and res: "genAndPlaceVote env ty p r st h b s = Inr (ok, s')"
  shows "vote_moves env0 dpos (placed ty p r st h) s s'"
    and "vm_reachable env0 dpos (pm_vm s) \<Longrightarrow> \<not> ok \<Longrightarrow> vm_own_votes (pm_vm s') = vm_own_votes (pm_vm s)"
    and "b = Some x \<Longrightarrow> pb_hash x = h \<and> pb_period x = p"
proof -
  obtain pl ws s1 acc s2 where parts: "getWallets p s = Inr (ws, s1)"
    "place_votes (place_wallet_vote env ty p r st h b pl) ws (False, []) s1 = Inr (acc, s2)" "ok = fst acc"
    and fin: "(case snd acc of [] \<Rightarrow> sr_return () | [v] \<Rightarrow> gossipNewOwnVote env v b | vs \<Rightarrow> gossipNewOwnVotesBundle env vs) s2 = Inr ((), s')"
    using res by (auto simp: genAndPlaceVote_def)
  have "sr_moves still (case snd acc of [] \<Rightarrow> sr_return () | [v] \<Rightarrow> gossipNewOwnVote env v b | vs \<Rightarrow> gossipNewOwnVotesBundle env vs)"
    by (intro still_intros)
  from sr_movesD[OF this fin] have last: "still s2 s'" .
  have first: "still s s1" using still_waits(1) parts(1) by (rule sr_movesD)
  note pv = place_votes_spec[OF assms(1, 2) parts(2)]
  show "vote_moves env0 dpos (placed ty p r st h) s s'"
    using vote_moves_trans[OF vote_moves_still[OF first] vote_moves_trans[OF _ vote_moves_still[OF last]]] pv by blast
  show "vm_own_votes (pm_vm s') = vm_own_votes (pm_vm s)" if "vm_reachable env0 dpos (pm_vm s)" "\<not> ok"
    using pv that parts(3) first last by (auto simp: still_def)
  show "b = Some x \<Longrightarrow> pb_hash x = h \<and> pb_period x = p"
    using res by (auto simp: genAndPlaceVote_def)
qed

section \<open>Blocks and leaders\<close>

context action_frame
begin

lemma moves_bind_result:
  assumes "sr_moves R m" and "\<And>s a s'. m s = Inr (a, s') \<Longrightarrow> sr_moves R (f a)"
  shows "sr_moves R (sr_bind m f)"
proof (rule sr_movesI)
  fix s c u
  assume "sr_bind m f s = Inr (c, u)"
  then obtain a t where "m s = Inr (a, t)" "f a t = Inr (c, u)" by auto
  then show "R s u" using assms sr_movesD trans by metis
qed

end

lemma getValid_result:
  assumes "getValidPbftProposedBlock env pb p h s = Inr (r, s')" and "proposed_ok pb"
  shows "proposed_ok (snd r)" and "fst r = Some b \<Longrightarrow> pb_hash b = h \<and> pb_period b = p"
  using assms(1) proposed_ok_get[OF assms(2), of p h] proposed_ok_mark[OF assms(2)] assms(2)
  by (auto simp: getValidPbftProposedBlock_def split: option.splits if_splits)

lemma valid_proposed_spec:
  assumes "valid_proposed env p h s = Inr (r, s')"
  shows "vote_moves env0 dpos F s s'" and "pm_vm s' = pm_vm s"
    and "proposed_ok (pm_proposed s) \<Longrightarrow> r = Some b \<Longrightarrow> pb_hash b = h \<and> pb_period b = p"
proof -
  obtain q t where q: "getValidPbftProposedBlock env (pm_proposed s) p h s = Inr (q, t)"
    and s': "s' = t\<lparr>pm_proposed := snd q\<rparr>" "r = fst q"
    using assms by (auto simp: valid_proposed_def)
  have "still s t" using still_validate(2) q by (rule sr_movesD)
  then show "vote_moves env0 dpos F s s'" "pm_vm s' = pm_vm s"
    using s' getValid_result(1)[OF q] by (auto simp: vote_moves_def still_def)
  show "pb_hash b = h \<and> pb_period b = p" if "proposed_ok (pm_proposed s)" "r = Some b"
    using getValid_result(2)[OF q that(1)] that(2) s' by simp
qed

lemma leader_loop_result:
  "leader_loop env cs e pb s = Inr (r, s') \<Longrightarrow> (proposed_ok pb \<longrightarrow> proposed_ok (snd r))
     \<and> (fst r = e \<or> (\<exists>b v. fst r = Some (b, v) \<and> v \<in> snd ` set cs))"
proof (induction cs arbitrary: e pb s)
  case (Cons c cs)
  obtain k v where c: "c = (k, v)" by fastforce
  have weaken: "(proposed_ok pb \<longrightarrow> proposed_ok (snd r)) \<and> (fst r = e \<or> (\<exists>b v. fst r = Some (b, v) \<and> v \<in> snd ` set (c # cs)))"
    if "leader_loop env cs e' pb' t = Inr (r, s')" "proposed_ok pb \<longrightarrow> proposed_ok pb'" "e' = e \<or> (\<exists>b. e' = Some (b, v))" for e' pb' t
    using Cons.IH[OF that(1)] that(2, 3) c by auto
  show ?case
  proof (cases "findPbftBlockInChain (pdb_chain (pm_db s)) (v_block v)")
    case True
    then show ?thesis using Cons.prems c by (intro weaken[of e pb s]) simp_all
  next
    case False
    obtain q t where q: "getValidPbftProposedBlock env pb (v_period v) (v_block v) s = Inr (q, t)"
      using Cons.prems False c by auto
    note ok = getValid_result(1)[OF q]
    show ?thesis
    proof (cases "fst q")
      case None
      then show ?thesis using Cons.prems c False q ok by (intro weaken[of e "snd q" t]) simp_all
    next
      case (Some b)
      show ?thesis
      proof (cases "pb_pivot b = kNullBlockHash")
        case True
        with Cons.prems c False q ok Some show ?thesis
          by (intro weaken[of "if e = None then Some (b, v) else e" "snd q" t]) simp_all
      qed (use Cons.prems c False q ok Some in auto)
    qed
  qed
qed simp

lemma set_candidates: "snd ` set (leader_candidates env vs) \<subseteq> set vs"
proof -
  have "snd ` set (fold (\<lambda>v. om_put (getProposal env v) v) ws m) \<subseteq> set ws \<union> snd ` set m" for ws m
  proof (induction ws arbitrary: m)
    case (Cons w ws)
    have "snd ` set (om_put (getProposal env w) w m) \<subseteq> insert w (snd ` set m)"
      using image_mono[OF set_om_put[of "getProposal env w" w m], of snd] by simp
    then show ?case using Cons.IH[of "om_put (getProposal env w) w m"] by (simp, blast)
  qed simp
  from this[of "filter (\<lambda>v. v_block v \<noteq> kNullBlockHash) vs" "[]"] show ?thesis
    unfolding leader_candidates_def by auto
qed

lemma identifyLeader_result:
  assumes "identifyLeaderBlock env pb vs s = Inr (r, s')"
  shows "proposed_ok pb \<Longrightarrow> proposed_ok (snd r)" and "fst r = Some (b, v) \<Longrightarrow> v \<in> set vs"
  using assms leader_loop_result[of env "leader_candidates env vs" None pb s r s'] set_candidates[of env vs]
  by (auto simp: identifyLeaderBlock_def split: if_splits)

lemma own_proposals_result:
  assumes "signs env"
  shows "own_proposals env mk p ws pb vs s = Inr (r, s') \<Longrightarrow>
    s' = s \<and> (\<forall>v\<in>set (snd r). v \<in> set vs \<or> v_period v = p \<and> v_round v = pm_round s \<and> v_type v = propose_vote)"
proof (induction ws arbitrary: pb vs)
  case (Cons w ws)
  obtain g where g: "generateVoteWithWeight (venv env s) (pb_hash (mk w)) propose_vote p (pm_round s) (pm_step s) w = Inr g"
    using Cons.prems
    by (cases "generateVoteWithWeight (venv env s) (pb_hash (mk w)) propose_vote p (pm_round s) (pm_step s) w")
       (auto simp: vm_result_def)
  show ?case
  proof (cases g)
    case None
    then show ?thesis using Cons g by (auto simp: vm_result_def)
  next
    case (Some v)
    have "placed propose_vote p (pm_round s) (pm_step s) (pb_hash (mk w)) v"
      using generated_placed[OF assms] g Some by blast
    then show ?thesis using Cons g Some by (fastforce simp: vm_result_def placed_def split: if_splits)
  qed
qed simp

definition round_vote :: "pbft_manager \<Rightarrow> PbftVoteTypes \<Rightarrow> pbft_vote \<Rightarrow> bool" where
  "round_vote s ty v \<longleftrightarrow> v_period v = getPbftPeriod s \<and> v_round v = pm_round s \<and> v_type v = ty"

lemma vote_moves_mono: "vote_moves env0 dpos F s s' \<Longrightarrow> (\<And>v. F v \<Longrightarrow> G v) \<Longrightarrow> vote_moves env0 dpos G s s'"
  unfolding vote_moves_def by blast

lemma vote_push: "vote_moves env0 dpos F s (push_proposed b save s)"
  using proposed_ok_push[of "pm_proposed s" b save "pdb_proposed (pm_db s)"]
  by (auto simp: vote_moves_def push_proposed_def set_db_def split: prod.splits)

lemma vote_generate:
  assumes sg: "signs env" and chain: "chain_env env0 dpos (pe_vote env)"
    and res: "generatePbftBlock env p prev a oh x ws s = Inr (r, s')"
  shows "vote_moves env0 dpos (\<lambda>v. v_period v = p \<and> v_round v = pm_round s \<and> v_type v = propose_vote) s s'"
    (is "vote_moves _ _ ?F _ _")
proof -
  define tail where "tail rv b v = sr_bind (sr_with (\<lambda>s. vm_action (addVerifiedVote (venv env s) v))) (\<lambda>added.
     if \<not> added then sr_return None
     else sr_then (sr_modify (push_proposed b True))
       (sr_then (sr_modify (\<lambda>s. s\<lparr>pm_vm := saveOwnVerifiedVote v (pm_vm s)\<rparr>)) (sr_return (Some (b, rv, v)))))"
    for rv :: "pbft_vote list" and b v
  have tail: "sr_moves (vote_moves env0 dpos ?F) (tail rv b v)" if "?F v" for rv b v
    unfolding tail_def by (intro vot.flow vote_add[OF chain] vote_save vote_push that)
  obtain reward_votes s1 where rv: "vm_result (getRewardVotes (pm_vm s)) s = Inr (reward_votes, s1)" "s1 = s"
    using res by (auto simp: generatePbftBlock_def vm_result_def)
  show ?thesis
  proof (cases "s' = s")
    case False
    then obtain mk pb vs t q u where steps: "own_proposals env mk p ws [] [] s = Inr ((pb, vs), t)"
      "identifyLeaderBlock env pb vs t = Inr (q, u)"
      "(case fst q of None \<Rightarrow> sr_return None | Some (b, v) \<Rightarrow> tail reward_votes b v) u = Inr (r, s')"
      using res[unfolded generatePbftBlock_def Let_def, folded tail_def] rv
      by (cases "pe_final_chain_hash env p") (auto split: if_splits)
    have t: "t = s" "\<forall>v\<in>set vs. ?F v" using own_proposals_result[OF sg steps(1)] by auto
    have u: "vote_moves env0 dpos ?F s u" using vote_still[OF still_leader] steps(2) t(1) by (blast dest: sr_movesD)
    show ?thesis
    proof (cases "fst q")
      case None
      then show ?thesis using steps(3) u by simp
    next
      case (Some bv)
      obtain b v where bv: "bv = (b, v)" by fastforce
      have "?F v" using identifyLeader_result(2)[OF steps(2)] Some bv t(2) by blast
      from sr_movesD[OF tail[OF this]] steps(3) Some bv have "vote_moves env0 dpos ?F u s'" by auto
      with u show ?thesis by (rule vote_moves_trans)
    qed
  qed (simp add: vote_moves_still still.refl)
qed

section \<open>The votes of each state\<close>

lemma vote_propose:
  assumes "signs env" and "chain_env env0 dpos (pe_vote env)" and res: "proposePbftBlock env s = Inr (r, s')"
  shows "vote_moves env0 dpos (round_vote s propose_vote) s s'"
proof (cases "s' = s")
  case False
  obtain ws s1 where ws: "getWallets (getPbftPeriod s) s = Inr (ws, s1)" "s1 = s"
    using res by (auto simp: proposePbftBlock_def getWallets_def Let_def)
  obtain prev a oh x ew where "generatePbftBlock env (getPbftPeriod s) prev a oh x ew s = Inr (r, s')"
    using res ws False by (auto simp: proposePbftBlock_def Let_def split: if_splits option.splits prod.splits)
  from vote_generate[OF assms(1, 2) this] show ?thesis
    by (rule vote_moves_mono) (simp add: round_vote_def)
qed (simp add: vote_moves_still still.refl)

lemma core_round: "pm_core s' = pm_core s \<Longrightarrow> round_vote s' = round_vote s"
  by (simp add: pm_core_def round_vote_def getPbftPeriod_def fun_eq_iff)

lemma vote_placed:
  assumes "signs env" and "chain_env env0 dpos (pe_vote env)"
    and "genAndPlaceVote env ty (getPbftPeriod s) (pm_round s) st h b t = Inr (ok, t')"
  shows "vote_moves env0 dpos (\<lambda>v. round_vote s ty v \<and> v_block v = h) t t'"
  using genAndPlaceVote_spec(1)[OF assms] by (rule vote_moves_mono) (simp add: placed_def round_vote_def)

lemma vote_moves_any: "vote_moves env0 dpos (\<lambda>v. F v \<and> G v) s s' \<Longrightarrow> vote_moves env0 dpos F s s'"
  by (erule vote_moves_mono) simp

end
