(* ===== verification/Pbft_Lock.thy ===== *)
theory Pbft_Lock
  imports Pbft_Placing
begin

text \<open>
  The votes a node places in one round: after a cert vote every further cert or next vote of the round is for the
  same block, and the block has 2t+1 soft votes. The vote manager moves along its own step relation, so what is
  known of its reachable states holds inside the PBFT manager.
\<close>

section \<open>The lock\<close>

definition own_vote_ok :: "pbft_manager \<Rightarrow> pbft_vote \<Rightarrow> bool" where
  "own_vote_ok s v \<longleftrightarrow> v_period v = getPbftPeriod s \<and> v_round v = pm_round s
     \<and> (v_type v = cert_vote \<longrightarrow> map_option pb_hash (pm_cert_voted s) = Some (v_block v))
     \<and> (v_type v = next_vote \<longrightarrow> pm_state s \<in> {finish_state, finish_polling_state}
          \<and> (\<forall>b. pm_cert_voted s = Some b \<longrightarrow> v_block v = pb_hash b))"

definition cert_ok :: "pbft_manager \<Rightarrow> bool" where
  "cert_ok s \<longleftrightarrow> (\<forall>b. pm_cert_voted s = Some b \<longrightarrow>
     two_t_block s (pm_round s) SoftVotedBlock = Some (pb_hash b) \<and> pb_period b = getPbftPeriod s)"

definition lock_inv :: "vote_env \<Rightarrow> (u64 \<Rightarrow> u64) \<Rightarrow> pbft_manager \<Rightarrow> bool" where
  "lock_inv env0 dpos s \<longleftrightarrow> vm_reachable env0 dpos (pm_vm s) \<and> proposed_ok (pm_proposed s) \<and> coherent s \<and> cert_ok s
     \<and> (\<forall>v\<in>set (vm_own_votes (pm_vm s)). own_vote_ok s v)"

lemma two_t_block_kept:
  assumes "keeps_two_t (pm_vm s) (pm_vm s')" and "pm_chain s' = pm_chain s" and "two_t_block s r ty = Some h"
  shows "two_t_block s' r ty = Some h"
  using assms by (auto simp: two_t_block_def getTwoTPlusOneVotedBlockHash_def getPbftPeriod_def keeps_two_t_def)

lemma lock_moves:
  assumes inv: "lock_inv env0 dpos s" and core: "pm_core s' = pm_core s" and moves: "vote_moves env0 dpos F s s'"
    and F: "\<And>v. F v \<Longrightarrow> own_vote_ok s v"
  shows "lock_inv env0 dpos s'"
proof -
  have same: "own_vote_ok s' = own_vote_ok s" "coherent s' = coherent s" "pm_chain s' = pm_chain s"
    "pm_cert_voted s' = pm_cert_voted s" "pm_round s' = pm_round s" "getPbftPeriod s' = getPbftPeriod s"
    using core by (simp_all add: pm_core_def own_vote_ok_def getPbftPeriod_def coherent_def fun_eq_iff)
  obtain new where new: "vm_own_votes (pm_vm s') = vm_own_votes (pm_vm s) @ new" "\<forall>v\<in>set new. F v"
    and vm: "vm_reachable env0 dpos (pm_vm s')" "keeps_two_t (pm_vm s) (pm_vm s')" "proposed_ok (pm_proposed s')"
    using moves inv unfolding vote_moves_def lock_inv_def by blast
  have "cert_ok s'" using inv two_t_block_kept[OF vm(2) same(3)] by (simp add: lock_inv_def cert_ok_def same)
  then show ?thesis using inv new vm F by (auto simp: lock_inv_def same)
qed

text \<open>Actions that add no own vote.\<close>

definition quiet :: "vote_env \<Rightarrow> (u64 \<Rightarrow> u64) \<Rightarrow> pbft_manager \<Rightarrow> pbft_manager \<Rightarrow> bool" where
  "quiet env0 dpos s s' \<longleftrightarrow> core_rel s s' \<and> vote_moves env0 dpos (\<lambda>_. False) s s'"

interpretation qui: action_frame "quiet env0 dpos" for env0 dpos
  by unfold_locales (auto simp: quiet_def intro: core.refl core.trans vot.refl vot.trans)

lemma quiet_moves: "core_keeps m \<Longrightarrow> sr_moves (vote_moves env0 dpos (\<lambda>_. False)) m \<Longrightarrow> sr_moves (quiet env0 dpos) m"
  by (simp add: sr_moves_def quiet_def)

lemma quiet_still: "core_keeps m \<Longrightarrow> sr_moves still m \<Longrightarrow> sr_moves (quiet env0 dpos) m"
  by (rule quiet_moves) (simp_all add: vote_still)

lemma lock_quiet: "sr_moves (quiet env0 dpos) m \<Longrightarrow> sr_keeps (lock_inv env0 dpos) m"
  by (rule sr_keepsI) (auto dest!: sr_movesD simp: quiet_def core_rel_def intro: lock_moves)

lemma vote_valid_placed:
  assumes "signs env" and "chain_env env0 dpos (pe_vote env)" and "valid_proposed env p h s = Inr (r, t)"
    and "genAndPlaceVote env ty (getPbftPeriod s) (pm_round s) st h' b t = Inr (ok, t')"
  shows "vote_moves env0 dpos (\<lambda>v. round_vote s ty v \<and> v_block v = h') s t'"
  using vote_moves_trans[OF valid_proposed_spec(1)[OF assms(3)] vote_placed[OF assms(1, 2, 4)]] .

lemma vote_proposeBlock:
  assumes sg: "signs env" and ch: "chain_env env0 dpos (pe_vote env)" and r: "proposeBlock env s = Inr (u, s')"
  shows "vote_moves env0 dpos (round_vote s propose_vote) s s'"
proof (cases "pm_round s = 1 \<or> two_t_block s (pm_round s - 1) NextVotedNullBlock \<noteq> None")
  case True
  then obtain q t where q: "proposePbftBlock env s = Inr (q, t)"
    and rest: "(case q of None \<Rightarrow> sr_return () | Some (b, reward_votes, v) \<Rightarrow>
      sr_then (sr_when (pe_net env) (sr_modify (pm_send (GossipVotesBundle reward_votes False)))) (gossipNewOwnVote env v (Some b))) t = Inr (u, s')"
    using r by (auto simp: proposeBlock_def)
  have "sr_moves still (case q of None \<Rightarrow> sr_return () | Some (b, reward_votes, v) \<Rightarrow>
      sr_then (sr_when (pe_net env) (sr_modify (pm_send (GossipVotesBundle reward_votes False)))) (gossipNewOwnVote env v (Some b)))"
    by (intro still_intros still_send)
  from sr_movesD[OF this rest] vote_propose[OF sg ch q] show ?thesis
    by (blast intro: vote_moves_trans vote_moves_still)
next
  case False
  obtain h q t where q: "valid_proposed env (getPbftPeriod s) h s = Inr (q, t)"
    and rest: "s' = t \<or> (\<exists>b vs ok. genAndPlaceProposeVote env b vs t = Inr (ok, s'))"
    using r False by (auto simp: proposeBlock_def vm_result_def split: option.splits if_splits) blast+
  have core: "getPbftPeriod t = getPbftPeriod s" "pm_round t = pm_round s"
    using core_eq[OF core_getValid(2) q] by (simp_all add: pm_core_def getPbftPeriod_def)
  note first = valid_proposed_spec(1)[OF q, of env0 dpos "round_vote s propose_vote"]
  show ?thesis
  proof (cases "s' = t")
    case False
    then obtain b vs ok where g: "genAndPlaceProposeVote env b vs t = Inr (ok, s')" using rest by blast
    then obtain x where "still t x" "s' = t \<or>
        genAndPlaceVote env propose_vote (getPbftPeriod s) (pm_round s) (pm_step t) (pb_hash b) (Some b) x = Inr (ok, s')"
      using core still_send(1)[of t "GossipVotesBundle vs False"] still.refl[of t]
      by (auto simp: genAndPlaceProposeVote_def sr_when_def simp del: still_send split: if_splits)
    with False have "vote_moves env0 dpos (round_vote s propose_vote) x s'"
      using vote_moves_any[OF vote_placed[OF sg ch]] by blast
    then show ?thesis by (rule vote_moves_trans[OF vote_moves_trans[OF first vote_moves_still[OF \<open>still t x\<close>]]])
  qed (use first in simp)
qed

lemma vote_identifyBlock:
  assumes sg: "signs env" and ch: "chain_env env0 dpos (pe_vote env)" and r: "identifyBlock env s = Inr (u, s')"
  shows "vote_moves env0 dpos (round_vote s soft_vote) s s'"
proof (cases "pm_round s = 1 \<or> two_t_block s (pm_round s - 1) NextVotedNullBlock \<noteq> None")
  case True
  then obtain q t where q: "identifyLeaderBlock env (pm_proposed s) (getProposalVotes (pm_vm s) (getPbftPeriod s) (pm_round s)) s = Inr (q, t)"
    and rest: "s' = t\<lparr>pm_proposed := snd q\<rparr> \<or> (\<exists>h b ok.
      genAndPlaceVote env soft_vote (getPbftPeriod s) (pm_round s) (pm_step s) h b (t\<lparr>pm_proposed := snd q\<rparr>) = Inr (ok, s'))"
    using r by (auto simp: identifyBlock_def Let_def split: option.splits prod.splits) blast+
  have "vote_moves env0 dpos (round_vote s soft_vote) s (t\<lparr>pm_proposed := snd q\<rparr>)"
    using sr_movesD[OF still_leader q] identifyLeader_result(1)[OF q] by (auto simp: vote_moves_def still_def)
  with rest vote_moves_any[OF vote_placed[OF sg ch]] show ?thesis by (blast intro: vote_moves_trans)
next
  case False
  then show ?thesis
    using r valid_proposed_spec(1) vote_moves_any[OF vote_valid_placed[OF sg ch]]
    by (auto simp: identifyBlock_def Let_def vote_moves_still still.refl split: option.splits)
qed

lemma vote_firstFinish:
  assumes sg: "signs env" and ch: "chain_env env0 dpos (pe_vote env)" and r: "firstFinish env s = Inr (u, s')"
  shows "vote_moves env0 dpos (\<lambda>v. round_vote s next_vote v \<and> (\<forall>b. pm_cert_voted s = Some b \<longrightarrow> v_block v = pb_hash b)) s s'"
proof (cases "pm_cert_voted s")
  case (Some b)
  then show ?thesis using r vote_placed[OF sg ch, of next_vote s] by (auto simp: firstFinish_def Let_def)
next
  case None
  then show ?thesis
    using r valid_proposed_spec(1) vote_moves_any[OF vote_valid_placed[OF sg ch]] vote_moves_any[OF vote_placed[OF sg ch]]
    by (auto simp: firstFinish_def Let_def vote_moves_still still.refl split: option.splits if_splits)
qed


lemma vote_next_soft:
  assumes sg: "signs env" and ch: "chain_env env0 dpos (pe_vote env)" and ok: "cert_ok s"
    and r: "next_vote_soft_voted_block env s = Inr (u, s')"
  shows "vote_moves env0 dpos (\<lambda>v. round_vote s next_vote v \<and> (\<forall>b. pm_cert_voted s = Some b \<longrightarrow> v_block v = pb_hash b)) s s'"
    (is "vote_moves _ _ ?F _ _")
proof (cases "two_t_block s (pm_round s) SoftVotedBlock")
  case (Some h)
  have F: "?F v" if "round_vote s next_vote v \<and> v_block v = h" for v
    using that ok Some by (auto simp: cert_ok_def)
  have placed: "vote_moves env0 dpos ?F s t'"
    if "valid_proposed env (getPbftPeriod s) h s = Inr (q, t)"
      "genAndPlaceVote env next_vote (getPbftPeriod s) (pm_round s) (pm_step s) h b t = Inr (x, t')" for q t b x t'
    using vote_valid_placed[OF sg ch that] by (rule vote_moves_mono) (rule F)
  have upd: "still t' ((set_db (\<lambda>db. db\<lparr>pdb_next_voted_soft := Some True\<rparr>) t')\<lparr>pm_next_voted_value := True\<rparr>)" for t'
    by (simp add: still_def set_db_def)
  show ?thesis
    using r Some vote_moves_trans[OF placed vote_moves_still[OF upd]]
    by (auto simp: next_vote_soft_voted_block_def Let_def sr_when_def vote_moves_still still.refl
        intro: valid_proposed_spec(1) placed split: if_splits option.splits)
qed (use r in \<open>auto simp: next_vote_soft_voted_block_def Let_def vote_moves_still still.refl split: if_splits\<close>)

lemma vote_next_null:
  assumes sg: "signs env" and ch: "chain_env env0 dpos (pe_vote env)" and r: "next_vote_null_block env s = Inr (u, s')"
  shows "vote_moves env0 dpos (\<lambda>v. round_vote s next_vote v \<and> (\<forall>b. pm_cert_voted s = Some b \<longrightarrow> v_block v = pb_hash b)) s s'"
proof (cases "pm_cert_voted s")
  case None
  have placed: "vote_moves env0 dpos (round_vote s next_vote) s t'"
    if "genAndPlaceVote env next_vote (getPbftPeriod s) (pm_round s) (pm_step s) kNullBlockHash None s = Inr (x, t')" for x t'
    using vote_moves_any[OF vote_placed[OF sg ch that]] .
  have upd: "still t' ((set_db (\<lambda>db. db\<lparr>pdb_next_voted_null := Some True\<rparr>) t')\<lparr>pm_next_voted_null := True\<rparr>)" for t'
    by (simp add: still_def set_db_def)
  have "vote_moves env0 dpos (round_vote s next_vote) s s'"
    using r vote_moves_trans[OF placed vote_moves_still[OF upd]]
    by (auto simp: next_vote_null_block_def Let_def sr_when_def vote_moves_still still.refl intro: placed split: if_splits)
  with None show ?thesis by simp
qed (use r in \<open>auto simp: next_vote_null_block_def vote_moves_still still.refl\<close>)

section \<open>One state\<close>

text \<open>A change of the state within the round.\<close>

lemma lock_same:
  assumes "lock_inv env0 dpos s" and "coherent s'" and "pm_vm s' = pm_vm s" and "pm_proposed s' = pm_proposed s"
    and "pm_chain s' = pm_chain s" and "pm_round s' = pm_round s" and "pm_cert_voted s' = pm_cert_voted s"
    and "pm_state s \<in> {finish_state, finish_polling_state} \<Longrightarrow> pm_state s' \<in> {finish_state, finish_polling_state}"
  shows "lock_inv env0 dpos s'"
  using assms(1, 2) assms(8)
  by (auto simp: lock_inv_def own_vote_ok_def cert_ok_def two_t_block_def getPbftPeriod_def assms(3-7))

lemma lock_next:
  assumes "lock_inv env0 dpos s" and "pm_step s \<noteq> - 1"
  shows "pm_state s = value_proposal_state \<Longrightarrow> lock_inv env0 dpos (setFilterState env s)"
    and "pm_state s = filter_state \<Longrightarrow> lock_inv env0 dpos (setCertifyState env s)"
    and "pm_state s = certify_state \<Longrightarrow> lock_inv env0 dpos (setFinishState env s)"
    and "pm_state s = finish_state \<Longrightarrow> lock_inv env0 dpos (setFinishPollingState env s)"
    and "pm_state s = finish_polling_state \<Longrightarrow> lock_inv env0 dpos (loopBackFinishState env s)"
    and "lock_inv env0 dpos (poll_again s)"
proof -
  have c: "coherent s" using assms(1) by (simp add: lock_inv_def)
  note next_ok = coherent_next[OF c assms(2)]
  show "pm_state s = value_proposal_state \<Longrightarrow> lock_inv env0 dpos (setFilterState env s)"
    by (rule lock_same[OF assms(1) next_ok(1)]) (simp_all add: setFilterState_def Let_def)
  show "pm_state s = filter_state \<Longrightarrow> lock_inv env0 dpos (setCertifyState env s)"
    by (rule lock_same[OF assms(1) next_ok(2)]) (simp_all add: setCertifyState_def Let_def)
  show "pm_state s = certify_state \<Longrightarrow> lock_inv env0 dpos (setFinishState env s)"
    by (rule lock_same[OF assms(1) next_ok(3)]) (simp_all add: setFinishState_def Let_def)
  show "pm_state s = finish_state \<Longrightarrow> lock_inv env0 dpos (setFinishPollingState env s)"
    by (rule lock_same[OF assms(1) next_ok(4)])
       (simp_all add: setFinishPollingState_def reset_next_voted_def set_db_def Let_def)
  show "pm_state s = finish_polling_state \<Longrightarrow> lock_inv env0 dpos (loopBackFinishState env s)"
    by (rule lock_same[OF assms(1) next_ok(5)])
       (simp_all add: loopBackFinishState_def reset_next_voted_def set_db_def Let_def)
  show "lock_inv env0 dpos (poll_again s)"
    by (rule lock_same[OF assms(1)]) (use c in \<open>simp_all add: poll_again_def coherent_def\<close>)
qed


lemma not_placed:
  assumes "signs env" and "chain_env env0 dpos (pe_vote env)" and "genAndPlaceVote env ty p r st h b s = Inr (False, s')"
  shows "vote_moves env0 dpos (\<lambda>_. False) s s'"
  using genAndPlaceVote_spec(1, 2)[OF assms] by (auto simp: vote_moves_def)

text \<open>A cert vote for the soft voted block of the round.\<close>

lemma lock_cert_placed:
  assumes sg: "signs env" and ch: "chain_env env0 dpos (pe_vote env)" and inv: "lock_inv env0 dpos t"
    and st: "pm_state t = certify_state" and none: "pm_cert_voted t = None"
    and soft: "two_t_block t (pm_round t) SoftVotedBlock = Some h" and b: "pb_hash b = h" "pb_period b = getPbftPeriod t"
    and g: "genAndPlaceVote env cert_vote (getPbftPeriod t) (pm_round t) step h (Some b) t = Inr (True, t')"
    and s': "s' = (set_db (\<lambda>db. db\<lparr>pdb_cert_voted := Some (pm_round t, b)\<rparr>) t')\<lparr>pm_cert_voted := Some b\<rparr>"
  shows "lock_inv env0 dpos s'"
proof -
  have core: "pm_chain t' = pm_chain t" "pm_round t' = pm_round t" "pm_state t' = certify_state" "pm_step t' = pm_step t"
    using core_eq[OF core_place g] st by (simp_all add: pm_core_def)
  obtain new where new: "vm_own_votes (pm_vm t') = vm_own_votes (pm_vm t) @ new"
      "\<forall>v\<in>set new. round_vote t cert_vote v \<and> v_block v = h"
    and vm: "vm_reachable env0 dpos (pm_vm t')" "keeps_two_t (pm_vm t) (pm_vm t')" "proposed_ok (pm_proposed t')"
    using vote_placed[OF sg ch g] inv unfolding vote_moves_def lock_inv_def by blast
  have c: "cert_ok s'"
    using two_t_block_kept[OF vm(2) core(1) soft] b core
    by (simp add: s' cert_ok_def two_t_block_def getPbftPeriod_def set_db_def)
  have old: "v_type v \<noteq> cert_vote \<and> v_type v \<noteq> next_vote \<and> v_period v = getPbftPeriod t \<and> v_round v = pm_round t"
    if "v \<in> set (vm_own_votes (pm_vm t))" for v
    using inv that st none by (auto simp: lock_inv_def own_vote_ok_def)
  have "\<forall>v\<in>set (vm_own_votes (pm_vm s')). own_vote_ok s' v"
    using old new core b by (auto simp: s' own_vote_ok_def round_vote_def set_db_def getPbftPeriod_def)
  moreover have "coherent s'" using inv core st by (simp add: s' coherent_def lock_inv_def set_db_def)
  ultimately show ?thesis using vm c by (simp add: lock_inv_def s' set_db_def)
qed

lemma lock_cert_vote:
  assumes sg: "signs env" and ch: "chain_env env0 dpos (pe_vote env)" and inv: "lock_inv env0 dpos s"
    and st: "pm_state s = certify_state" and none: "pm_cert_voted s = None" and r: "place_cert_vote env s = Inr (u, s')"
  shows "lock_inv env0 dpos s'"
proof (cases "two_t_block s (pm_round s) SoftVotedBlock")
  case soft: (Some h)
  obtain q t where q: "valid_proposed env (getPbftPeriod s) h s = Inr (q, t)"
    using r soft by (auto simp: place_cert_vote_def Let_def)
  have core: "pm_core t = pm_core s" using core_eq[OF core_getValid(2) q] .
  have t: "lock_inv env0 dpos t" by (rule lock_moves[OF inv core valid_proposed_spec(1)[OF q, where F = "\<lambda>_. False"]]) simp
  show ?thesis
  proof (cases q)
    case None
    then show ?thesis using r soft q t by (simp add: place_cert_vote_def Let_def)
  next
    case (Some b)
    have b: "pb_hash b = h" "pb_period b = getPbftPeriod s"
      using valid_proposed_spec(3)[OF q _ Some] inv by (simp_all add: lock_inv_def)
    have same: "pm_state t = certify_state" "pm_cert_voted t = None" "pm_round t = pm_round s" "getPbftPeriod t = getPbftPeriod s"
      "two_t_block t (pm_round s) SoftVotedBlock = Some h"
      using core st none soft valid_proposed_spec(2)[OF q] by (simp_all add: pm_core_def getPbftPeriod_def two_t_block_def)
    obtain ok t' where g: "genAndPlaceVote env cert_vote (getPbftPeriod t) (pm_round t) (pm_step s) h (Some b) t = Inr (ok, t')"
      and rest: "((if \<not> ok then sr_return () else sr_modify (\<lambda>s'. (set_db (\<lambda>db. db\<lparr>pdb_cert_voted := Some (pm_round s, b)\<rparr>) s')
        \<lparr>pm_cert_voted := Some b\<rparr>)) :: unit pm) t' = Inr ((), s')"
      using r soft q Some b same by (auto simp: place_cert_vote_def Let_def)
    show ?thesis
    proof (cases ok)
      case True
      have g': "genAndPlaceVote env cert_vote (getPbftPeriod t) (pm_round t) (pm_step s) h (Some b) t = Inr (True, t')"
        using g True by simp
      show ?thesis
        by (rule lock_cert_placed[OF sg ch t same(1, 2) _ b(1) _ g']) (use same b rest True in simp_all)
    next
      case False
      then show ?thesis using lock_moves[OF t core_eq[OF core_place g] not_placed[OF sg ch]] g rest by simp
    qed
  qed
qed (use r inv in \<open>simp add: place_cert_vote_def Let_def\<close>)

lemma lock_certify:
  assumes sg: "signs env" and ch: "chain_env env0 dpos (pe_vote env)" and inv: "lock_inv env0 dpos s"
    and st: "pm_state s = certify_state" and r: "certifyBlock env s = Inr (u, s')"
  shows "lock_inv env0 dpos s'"
proof -
  define t where "t = s\<lparr>pm_go_finish := pe_now env - pm_round_start s > getPbftDeadline env s - kPollingIntervalMs\<rparr>"
  have t: "lock_inv env0 dpos t" "pm_state t = certify_state" "pm_cert_voted t = pm_cert_voted s"
    by (rule lock_same[OF inv]) (use inv st in \<open>simp_all add: t_def lock_inv_def coherent_def\<close>)
  have two: "lock_inv env0 dpos y" if "vm_action (getPbftTwoTPlusOne (venv env s) p ty) t = Inr (x, y)" for p ty x y
    using sr_keepsD[OF lock_quiet[OF quiet_moves[OF core_vm_action vote_two_t[OF ch]]] that t(1)] .
  show ?thesis
    using r two t lock_cert_vote[OF sg ch t(1, 2)]
    by (auto simp: certifyBlock_def Let_def t_def[symmetric] split: if_splits)
qed

lemma finish_vote_ok:
  "pm_state s \<in> {finish_state, finish_polling_state} \<Longrightarrow>
     round_vote s next_vote v \<and> (\<forall>b. pm_cert_voted s = Some b \<longrightarrow> v_block v = pb_hash b) \<Longrightarrow> own_vote_ok s v"
  by (auto simp: round_vote_def own_vote_ok_def)

lemma lock_second:
  assumes sg: "signs env" and ch: "chain_env env0 dpos (pe_vote env)" and inv: "lock_inv env0 dpos s"
    and st: "pm_state s = finish_polling_state" and r: "secondFinish env s = Inr (u, s')"
  shows "lock_inv env0 dpos s'"
proof -
  obtain t x where t: "next_vote_soft_voted_block env s = Inr ((), t)" and x: "next_vote_null_block env t = Inr ((), x)"
    and s': "s' = x\<lparr>pm_loop_back_finish := pe_now env - pm_second_finish_start x > 2 * (pm_lambda x - kPollingIntervalMs)\<rparr>"
    using r by (auto simp: secondFinish_def)
  have "lock_inv env0 dpos t"
    using inv st by (intro lock_moves[OF inv core_eq[OF core_states(5) t] vote_next_soft[OF sg ch _ t]]) (auto simp: lock_inv_def intro: finish_vote_ok)
  moreover have "pm_state t = finish_polling_state" using core_eq[OF core_states(5) t] st by (simp add: pm_core_def)
  ultimately have "lock_inv env0 dpos x"
    by (intro lock_moves[OF _ core_eq[OF core_states(6) x] vote_next_null[OF sg ch x]]) (auto intro: finish_vote_ok)
  then show ?thesis by (rule lock_same) (use \<open>lock_inv env0 dpos x\<close> in \<open>simp_all add: s' lock_inv_def coherent_def\<close>)
qed

lemma lock_run_state:
  assumes sg: "signs env" and ch: "chain_env env0 dpos (pe_vote env)" and inv: "lock_inv env0 dpos s" and top: "pm_step s \<noteq> - 1"
    and r: "run_state env s = Inr (u, s')"
  shows "lock_inv env0 dpos s'"
proof -
  have c: "coherent s" using inv by (simp add: lock_inv_def)
  have ok: "lock_inv env0 dpos t \<and> pm_step t \<noteq> - 1 \<and> pm_state t = pm_state s"
    if "core_keeps m" "m s = Inr (x, t)" "vote_moves env0 dpos F s t" "\<And>v. F v \<Longrightarrow> own_vote_ok s v" for m :: "unit pm" and x t F
    using lock_moves[OF inv core_eq[OF that(1, 2)] that(3, 4)] core_eq[OF that(1, 2)] top by (simp add: pm_core_def)
  have propose: "own_vote_ok s v" if "round_vote s ty v" "ty = propose_vote \<or> ty = soft_vote" for ty v
    using that by (auto simp: round_vote_def own_vote_ok_def)
  show ?thesis
  proof (cases "pm_state s")
    case value_proposal_state
    then obtain t where t: "proposeBlock env s = Inr ((), t)" "s' = setFilterState env t" using r by (auto simp: run_state_def)
    have "lock_inv env0 dpos t \<and> pm_step t \<noteq> - 1 \<and> pm_state t = pm_state s"
      by (rule ok[OF core_states(2) t(1) vote_proposeBlock[OF sg ch t(1)]]) (simp add: propose)
    then show ?thesis using t(2) value_proposal_state by (simp add: lock_next(1))
  next
    case filter_state
    then obtain t where t: "identifyBlock env s = Inr ((), t)" "s' = setCertifyState env t" using r by (auto simp: run_state_def)
    have "lock_inv env0 dpos t \<and> pm_step t \<noteq> - 1 \<and> pm_state t = pm_state s"
      by (rule ok[OF core_states(3) t(1) vote_identifyBlock[OF sg ch t(1)]]) (simp add: propose)
    then show ?thesis using t(2) filter_state by (simp add: lock_next(2))
  next
    case certify_state
    then obtain t where t: "certifyBlock env s = Inr ((), t)" "s' = (if pm_go_finish t then setFinishState env t else poll_again t)"
      using r by (auto simp: run_state_def)
    have "lock_inv env0 dpos t" "pm_step t \<noteq> - 1" "pm_state t = certify_state"
      using lock_certify[OF sg ch inv certify_state t(1)] certifyBlock_mode[OF t(1)] top certify_state by (simp_all add: pm_mode_def)
    then show ?thesis using t(2) by (auto intro: lock_next)
  next
    case finish_state
    then obtain t where t: "firstFinish env s = Inr ((), t)" "s' = setFinishPollingState env t" using r by (auto simp: run_state_def)
    have "lock_inv env0 dpos t \<and> pm_step t \<noteq> - 1 \<and> pm_state t = pm_state s"
      by (rule ok[OF core_states(4) t(1) vote_firstFinish[OF sg ch t(1)]]) (rule finish_vote_ok, simp add: finish_state)
    then show ?thesis using t(2) finish_state by (simp add: lock_next(4))
  next
    case finish_polling_state
    then obtain t where t: "secondFinish env s = Inr ((), t)" "s' = (if pm_loop_back_finish t then loopBackFinishState env t else poll_again t)"
      using r by (auto simp: run_state_def)
    then have "lock_inv env0 dpos t" "pm_step t \<noteq> - 1" "pm_state t = pm_state s"
      using lock_second[OF sg ch inv finish_polling_state t(1)] core_eq[OF core_second t(1)] top by (simp_all add: pm_core_def)
    then show ?thesis using t(2) finish_polling_state by (auto intro: lock_next)
  qed
qed


section \<open>New rounds and periods\<close>

definition based :: "vote_env \<Rightarrow> (u64 \<Rightarrow> u64) \<Rightarrow> pbft_manager \<Rightarrow> bool" where
  "based env0 dpos s \<longleftrightarrow> vm_reachable env0 dpos (pm_vm s) \<and> proposed_ok (pm_proposed s)"

text \<open>The state at the start of a round: no own votes and no cert voted block.\<close>

definition fresh :: "vote_env \<Rightarrow> (u64 \<Rightarrow> u64) \<Rightarrow> pbft_manager \<Rightarrow> bool" where
  "fresh env0 dpos s \<longleftrightarrow> based env0 dpos s \<and> coherent s \<and> vm_own_votes (pm_vm s) = [] \<and> pm_cert_voted s = None"

lemma fresh_lock: "fresh env0 dpos s \<Longrightarrow> lock_inv env0 dpos s"
  by (simp add: fresh_def based_def lock_inv_def cert_ok_def)

lemma lock_based: "lock_inv env0 dpos s \<Longrightarrow> based env0 dpos s"
  by (simp add: based_def lock_inv_def)

lemma based_still: "sr_moves still m \<Longrightarrow> sr_keeps (based env0 dpos) m"
  by (rule sr_keepsI) (auto dest!: sr_movesD simp: still_def based_def)

lemma fresh_frame: "fresh env0 dpos s \<Longrightarrow> pm_core t = pm_core s \<Longrightarrow> still s t \<Longrightarrow> fresh env0 dpos t"
  by (simp add: still_def based_def fresh_def pm_core_def coherent_def)

lemma fresh_still: "core_keeps m \<Longrightarrow> sr_moves still m \<Longrightarrow> sr_keeps (fresh env0 dpos) m"
  by (rule sr_keepsI) (blast dest: core_eq sr_movesD fresh_frame)

lemma set_current_own: "setCurrentPbftPeriodAndRound p r m = Inr m' \<Longrightarrow> vm_own_votes m' = vm_own_votes m"
  by (auto simp: setCurrentPbftPeriodAndRound_def Let_def split: option.splits sum.splits)

lemma fresh_current: "sr_keeps (fresh env0 dpos) (vm_action (\<lambda>m. map_sum id (Pair ()) (setCurrentPbftPeriodAndRound p r m)))"
proof (rule sr_keepsI)
  fix s a s'
  assume f: "fresh env0 dpos s" and "vm_action (\<lambda>m. map_sum id (Pair ()) (setCurrentPbftPeriodAndRound p r m)) s = Inr (a, s')"
  then obtain m where m: "setCurrentPbftPeriodAndRound p r (pm_vm s) = Inr m" "s' = s\<lparr>pm_vm := m\<rparr>"
    by (cases "setCurrentPbftPeriodAndRound p r (pm_vm s)") (auto simp: vm_action_def)
  then show "fresh env0 dpos s'"
    using f set_current_own[OF m(1)] by (auto simp: fresh_def based_def coherent_def intro: vm_round)
qed

lemma fresh_reset: "sr_valid (based env0 dpos) (resetPbftConsensus env r) (\<lambda>_. fresh env0 dpos)"
proof -
  have "fresh env0 dpos (reset_round env r s)" if "based env0 dpos s" for s
    using that by (simp add: fresh_def based_def coherent_def vm_clear) (simp add: clearOwnVerifiedVotes_def)
  then have start: "sr_valid (based env0 dpos) (sr_modify (reset_round env r) :: unit pm) (\<lambda>_. fresh env0 dpos)"
    by (rule sr_valid_modify)
  show ?thesis
    unfolding resetPbftConsensus_def
    by (rule sr_valid_then[OF start], fold sr_keeps_def,
        intro keeps_flow fresh_current sr_keeps_modify fresh_still[OF core_waits(2) still_waits(2)])
       (simp_all add: fresh_def based_def coherent_def set_db_def)
qed

lemma fresh_advance: "sr_valid (based env0 dpos) (advancePeriod env) (\<lambda>_. fresh env0 dpos)"
  unfolding advancePeriod_def Let_def
proof (rule sr_valid_then[OF fresh_reset], fold sr_keeps_def, intro keeps_flow sr_keeps_modify fresh_still[OF core_waits(3) still_waits(3)])
  show "fresh env0 dpos (cleanup_proposed p s)" if "fresh env0 dpos s" for p s
    using that proposed_ok_cleanup[of "pm_proposed s" p "pdb_proposed (pm_db s)"]
    by (auto simp: fresh_def based_def coherent_def cleanup_proposed_def set_db_def split: prod.split)
qed (auto simp: fresh_def based_def coherent_def vm_cleanupVotesByPeriod_def intro: vm_clean[unfolded vm_cleanupVotesByPeriod_def])

lemma adjust_votes [simp]:
  "pm_vm (adjustDynamicLambda env p r s) = pm_vm s" "pm_proposed (adjustDynamicLambda env p r s) = pm_proposed s"
  by (simp_all add: adjustDynamicLambda_def set_db_def Let_def)

lemma fresh_pillar: "sr_keeps (fresh env0 dpos) (processPillarBlock env p)"
proof -
  have "pm_core (place_pillar_votes env q h ws s) = pm_core s" "still s (place_pillar_votes env q h ws s)" for q h ws s
    unfolding place_pillar_votes_def
    by (rule core_fold, simp add: pm_core_def split: prod.split) (rule still_fold, simp add: still_def split: prod.split)
  then show ?thesis
    unfolding processPillarBlock_def
    by (intro keeps_flow sr_keeps_modify fresh_still[OF core_waits(1) still_waits(1)]) (blast intro: fresh_frame)
qed

lemma fresh_commit: "sr_valid (based env0 dpos) (commit_block env d v) (\<lambda>_. fresh env0 dpos)"
proof -
  have "sr_keeps (based env0 dpos) (vm_action (\<lambda>m. map_sum id (Pair ()) (resetRewardVotes p r st h m)))" for p r st h
    by (rule sr_keepsI) (auto simp: vm_action_def based_def map_sum_def intro: vm_reset split: sum.splits)
  then have stored: "sr_keeps (based env0 dpos) (store_block env d v)"
    unfolding store_block_def Let_def by (intro keeps_flow sr_keeps_modify) (simp_all add: based_def set_db_def split: prod.split)
  have lambda: "sr_keeps (based env0 dpos) (update_lambda env p r)" for p r
    unfolding update_lambda_def Let_def
    by (intro keeps_flow sr_keeps_modify) (simp_all add: based_def save_period_lambda_def, simp_all add: set_db_def)
  have final: "sr_keeps (based env0 dpos) (finalize env d)" unfolding finalize_def by (intro keeps_intros)
  have executed: "sr_keeps (based env0 dpos) (sr_modify (\<lambda>s. (set_db (\<lambda>db. db\<lparr>pdb_executed := Some True\<rparr>) s)\<lparr>pm_executed := True\<rparr>) :: unit pm)"
    by (rule sr_keeps_modify) (simp add: based_def set_db_def)
  note first = stored[unfolded sr_keeps_def] lambda[unfolded sr_keeps_def] final[unfolded sr_keeps_def] executed[unfolded sr_keeps_def]
  show ?thesis
    unfolding commit_block_def Let_def
    by (rule sr_valid_then[OF first(1) sr_valid_then[OF first(2) sr_valid_then[OF first(3) sr_valid_then[OF first(4)
          sr_valid_then[OF fresh_advance]]]]], fold sr_keeps_def, intro keeps_flow fresh_pillar)
qed


section \<open>The daemon\<close>

lemma imp_keeps: "(P \<Longrightarrow> sr_keeps I m) \<Longrightarrow> sr_keeps (\<lambda>s. P \<longrightarrow> I s) m"
  unfolding sr_keeps_def sr_valid_def by blast

lemma lock_fresh: "sr_valid (based env0 dpos) m (\<lambda>_. fresh env0 dpos) \<Longrightarrow> sr_keeps (lock_inv env0 dpos) m"
  unfolding sr_keeps_def by (erule sr_valid_weaken) (blast intro: lock_based fresh_lock)+

lemma vote_validate:
  "sr_moves (vote_moves env0 dpos F)
     (vm_action (\<lambda>m. map_sum id (\<lambda>(verdict, v', m'). ((verdict, v'), m')) (validateVote (venv env s) v strict m)))"
proof (rule sr_movesI)
  fix t a t'
  assume "vm_action (\<lambda>m. map_sum id (\<lambda>(verdict, v', m'). ((verdict, v'), m')) (validateVote (venv env s) v strict m)) t = Inr (a, t')"
  then obtain m verdict v' where m: "validateVote (venv env s) v strict (pm_vm t) = Inr (verdict, v', m)" "t' = t\<lparr>pm_vm := m\<rparr>"
    by (cases "validateVote (venv env s) v strict (pm_vm t)") (auto simp: vm_action_def)
  have "vm_votes m = vm_votes (pm_vm t)" "vm_own_votes m = vm_own_votes (pm_vm t)"
    using m(1) by (auto simp: validateVote_def Let_def split: if_splits call.splits option.splits sum.splits)
  then show "vote_moves env0 dpos F t t'"
    using m vm_validate[of env0 dpos "pm_vm t" "venv env s" v strict verdict v' m] by (auto simp: vote_moves_def keeps_two_t_same)
qed

lemma quiet_valid: "sr_moves (quiet env0 dpos) (valid_proposed env p h)"
  by (rule quiet_moves[OF core_getValid(2)]) (auto intro: sr_movesI valid_proposed_spec(1))

interpretation locked: daemon_actions env "\<lambda>s. chain_env env0 dpos (pe_vote env) \<longrightarrow> lock_inv env0 dpos s" for env env0 dpos
proof unfold_locales
  show "sr_keeps (\<lambda>s. chain_env env0 dpos (pe_vote env) \<longrightarrow> lock_inv env0 dpos s) (sr_modify (set_queue f) :: unit pm)" for f
    by (intro imp_keeps lock_quiet quiet_still core.flow still.flow; simp add: core_rel_def pm_core_def still_def set_queue_def)
  show "sr_keeps (\<lambda>s. chain_env env0 dpos (pe_vote env) \<longrightarrow> lock_inv env0 dpos s) (sr_modify (pm_send g) :: unit pm)" for g
    by (intro imp_keeps lock_quiet quiet_still core.flow still.flow; simp add: core_rel_def)
qed (intro imp_keeps lock_fresh[OF fresh_reset] lock_fresh[OF fresh_commit]
      lock_quiet[OF quiet_valid] lock_quiet[OF quiet_still[OF core_broadcast still_broadcast]]
      lock_quiet[OF quiet_moves[OF core_vm_action vote_add]] lock_quiet[OF quiet_moves[OF core_vm_action vote_two_t]]
      lock_quiet[OF quiet_moves[OF core_vm_action vote_validate]]; assumption)+

lemma lock_step: "pbft_step cfg env0 dpos s s' \<Longrightarrow> lock_inv env0 dpos s \<Longrightarrow> lock_inv env0 dpos s'"
proof (induction rule: pbft_step.induct)
  case (daemon env s s')
  have env: "signs env" "chain_env env0 dpos (pe_vote env)" using daemon.hyps by (simp_all add: env_ok_def)
  obtain t b where ops: "stateOperations env s = Inr (b, t)" and rest: "if b then s' = t else run_state env t = Inr ((), s')"
    using daemon.hyps by (auto simp: run_def split: if_splits)
  have "coherent s" using daemon.prems by (simp add: lock_inv_def)
  then have "pm_step t \<noteq> - 1" using sr_keepsD[OF coh.keeps_stateOperations ops] daemon.hyps by blast
  moreover have "lock_inv env0 dpos t" using sr_keepsD[OF locked.keeps_stateOperations ops] daemon.prems env by blast
  ultimately show ?case using rest lock_run_state[OF env] by (cases b) auto
next
  case (net_vote env s v b m)
  then have "vm_action (addVerifiedVote (venv env s) v) s = Inr (b, s\<lparr>pm_vm := m\<rparr>)" by (simp add: vm_action_def)
  from sr_keepsD[OF lock_quiet[OF quiet_moves[OF core_vm_action vote_add]] this net_vote.prems] net_vote.hyps
  show ?case by (simp add: env_ok_def)
next
  case (net_block s b)
  have "vote_moves env0 dpos (\<lambda>_. False) s (processProposedBlock b s)"
    by (simp add: processProposedBlock_def vote_push vote_moves_still still.refl)
  then show ?case by (rule lock_moves[OF net_block network_core(2)]) simp
next
  case (sync_data s d node cvs)
  have "vote_moves env0 dpos (\<lambda>_. False) s (periodDataQueuePush d node cvs s)"
    by (rule vote_moves_still) (simp add: still_def periodDataQueuePush_def set_queue_def)
  then show ?case by (rule lock_moves[OF sync_data network_core(3)]) simp
qed


section \<open>The start\<close>

text \<open>A start without own votes and without a stored cert voted block.\<close>

definition unvoted :: "vote_env \<Rightarrow> (u64 \<Rightarrow> u64) \<Rightarrow> pbft_manager \<Rightarrow> bool" where
  "unvoted env0 dpos s \<longleftrightarrow> based env0 dpos s \<and> vm_own_votes (pm_vm s) = [] \<and> pm_cert_voted s = None
     \<and> pdb_cert_voted (pm_db s) = None"

lemma unvoted_frame:
  "unvoted env0 dpos s \<Longrightarrow> pm_vm t = pm_vm s \<Longrightarrow> pm_proposed t = pm_proposed s \<Longrightarrow> pm_cert_voted t = pm_cert_voted s \<Longrightarrow>
     pdb_cert_voted (pm_db t) = pdb_cert_voted (pm_db s) \<Longrightarrow> unvoted env0 dpos t"
  by (simp add: unvoted_def based_def)

lemma unvoted_push: "unvoted env0 dpos s \<Longrightarrow> unvoted env0 dpos (push_proposed b save s)"
  using proposed_ok_push[of "pm_proposed s" b save "pdb_proposed (pm_db s)"]
  by (auto simp: unvoted_def based_def push_proposed_def set_db_def split: prod.splits)

lemma unvoted_fold: "unvoted env0 dpos s \<Longrightarrow> unvoted env0 dpos (fold (\<lambda>e. push_proposed (snd e) save) bs s)"
  by (induction bs arbitrary: s) (auto intro: unvoted_push)

lemma unvoted_current: "sr_keeps (unvoted env0 dpos) (vm_action (\<lambda>m. map_sum id (Pair ()) (setCurrentPbftPeriodAndRound p r m)))"
proof (rule sr_keepsI)
  fix s a s'
  assume f: "unvoted env0 dpos s" and "vm_action (\<lambda>m. map_sum id (Pair ()) (setCurrentPbftPeriodAndRound p r m)) s = Inr (a, s')"
  then obtain m where m: "setCurrentPbftPeriodAndRound p r (pm_vm s) = Inr m" "s' = s\<lparr>pm_vm := m\<rparr>"
    by (cases "setCurrentPbftPeriodAndRound p r (pm_vm s)") (auto simp: vm_action_def)
  then show "unvoted env0 dpos s'"
    using f set_current_own[OF m(1)] by (auto simp: unvoted_def based_def intro: vm_round)
qed

lemma unvoted_initialState:
  assumes "unvoted env0 dpos s0" and "initialState env s0 = Inr (u, s)"
  shows "fresh env0 dpos s"
proof -
  have lambda: "sr_keeps (unvoted env0 dpos) (init_lambda env)"
    unfolding init_lambda_def Let_def by (intro keeps_flow sr_keeps_modify; erule unvoted_frame; simp)
  have step: "unvoted env0 dpos (init_state_step env t)" if "unvoted env0 dpos t" for t
    by (rule unvoted_frame[OF that]) (simp_all add: init_state_step_def Let_def, simp_all add: setPbftStep_def set_db_def Let_def)
  have wait: "sr_keeps (unvoted env0 dpos) (waitForPeriodFinalization env)"
    unfolding waitForPeriodFinalization_def by (intro keeps_flow)
  have "sr_keeps (unvoted env0 dpos) (initialState env)"
    unfolding initialState_def Let_def
    by (intro keeps_flow lambda unvoted_current wait; rule sr_keeps_modify; (erule step | erule unvoted_fold | (erule unvoted_frame; simp) | (simp add: unvoted_def)))
  from sr_keepsD[OF this assms(2, 1)] coherent_initialState[OF assms(2)] show ?thesis
    by (simp add: fresh_def unvoted_def)
qed

end
