(* ===== verification/Pbft_Props.thy ===== *)
theory Pbft_Props
  imports Pbft_Lock
begin

text \<open>
  The properties of the PBFT manager's runs, from its start through any interleaving of daemon passes, votes, blocks
  and period data, with a node that places a cert vote and a next vote as the example.
\<close>

section \<open>An example node\<close>

definition demo_cacti :: cacti_config where
  "demo_cacti = \<lparr>cacti_block_num = 0, lambda_min = 500, lambda_max = 1500, lambda_default = 1500,
     lambda_change_interval = 100, lambda_change = 20, block_propagation_min = 1000, block_propagation_max = 3000,
     consensus_delay = 100\<rparr>"

definition demo_env :: "int \<Rightarrow> pbft_env" where
  "demo_env now =
     \<lparr>pe_vote = sample_env\<lparr>ve_sortition_weight := (\<lambda>_ _ _ _ _ _ _. 0), ve_chain_size := 0,
        ve_sign := (\<lambda>b p r s a. \<lparr>v_hash = b + ucast s, v_block = b, v_period = p, v_round = r, v_step = s, v_voter = a, v_weight = None\<rparr>)\<rparr>,
      pe_now = now, pe_net = False, pe_syncing = False, pe_own_pillar_vote = False, pe_lambda_ms = 1500,
      pe_dag_blocks_size = 10, pe_ghost_path_move_back = 0, pe_pbft_gas_limit = 1000000, pe_dag_gas_limit = 100000,
      pe_cornus_block_num = 0, pe_cornus_dag_gas_limit = 100000, pe_cornus_pbft_gas_limit = 1000000,
      pe_ficus = \<lparr>ficus_block_num = 1000, pillar_blocks_interval = 10\<rparr>, pe_cacti = demo_cacti,
      pe_dag_genesis = 5, pe_last_block_number = 0, pe_delegation_delay = 5, pe_dpos_eligible = (\<lambda>_ _. Ret True),
      pe_final_chain_hash = (\<lambda>_. Some 0), pe_ghost = (\<lambda>_. []), pe_dag_order = (\<lambda>_ _. []), pe_dag_block = (\<lambda>_. None),
      pe_non_finalized = [], pe_nonfinalized_trx = (\<lambda>_. []), pe_pillar_block = None,
      pe_create_pillar_block = (\<lambda>_. None), pe_finalize_pillar = (\<lambda>_. []), pe_place_pillar_vote = (\<lambda>_ _ _. False),
      pe_validate_pillar_vote = (\<lambda>_. False), pe_add_pillar_vote = (\<lambda>_. 0), pe_pillar_threshold = (\<lambda>_. None),
      pe_voter_index_hash = (\<lambda>_ n. ucast n), pe_sha3 = (\<lambda>_. 0), pe_block_digest = (\<lambda>_ _. 0), pe_random = 0\<rparr>"

definition demo_block :: pbft_block where
  "demo_block = \<lparr>pb_hash = 77, pb_prev = 0, pb_pivot = 0, pb_order_hash = 0, pb_final_chain_hash = 0, pb_period = 1,
     pb_reward_votes = [], pb_extra_data = None\<rparr>"

definition demo_soft_vote :: pbft_vote where
  "demo_soft_vote = \<lparr>v_hash = 11, v_block = 77, v_period = 1, v_round = 1, v_step = 2, v_voter = 9, v_weight = Some 70\<rparr>"

definition demo_start :: pbft_manager where
  "demo_start = \<lparr>pm_state = value_proposal_state, pm_round = 1, pm_step = 1, pm_lambda = 0, pm_dynamic_lambda = 0,
     pm_rounds_count = 0, pm_broadcast_votes = 1, pm_rebroadcast_votes = 1, pm_broadcast_reward_votes = 1,
     pm_rebroadcast_reward_votes = 1, pm_cert_voted = None, pm_broadcasted = [], pm_round_start = 0, pm_period_start = 0,
     pm_second_finish_start = 0, pm_next_step_time = 0, pm_executed = False, pm_next_voted_value = False,
     pm_next_voted_null = False, pm_go_finish = False, pm_loop_back_finish = False, pm_pillar_vote_period = 0,
     pm_sync_queue = pdq_new, pm_proposed = [], pm_wallets = [(True, 3)], pm_wallets_period = 0, pm_anchor_cache = [],
     pm_chain = pc_empty, pm_vm = sample_manager,
     pm_db = \<lparr>pdb_chain = \<lparr>cdb_heads = [], cdb_block_period = [], cdb_period_data = [], cdb_dag_period = [],
         cdb_trx_location = [], cdb_dag_blocks = [], cdb_transactions = []\<rparr>,
       pdb_proposed = [], pdb_round = None, pdb_step = None, pdb_lambda = None, pdb_executed = None,
       pdb_next_voted_soft = None, pdb_next_voted_null = None, pdb_cert_voted = None, pdb_rounds_count = None,
       pdb_period_lambda = []\<rparr>, pm_sent = []\<rparr>"

text \<open>
  The node starts, passes the proposal and the filter step, learns the block and its 2t+1 soft votes, cert votes it
  after two lambdas and next votes it after the deadline.
\<close>

definition demo_vm :: vote_manager where
  "demo_vm = sample_manager\<lparr>vm_current_period := 1, vm_current_round := 1\<rparr>"

definition demo_s0 :: pbft_manager where
  "demo_s0 = demo_start\<lparr>pm_lambda := 1500, pm_dynamic_lambda := 1500, pm_vm := demo_vm, pm_db := (pm_db demo_start)\<lparr>pdb_step := Some 1\<rparr>\<rparr>"

definition demo_s1 :: pbft_manager where
  "demo_s1 = demo_s0\<lparr>pm_state := filter_state, pm_step := 2, pm_next_step_time := 3000, pm_db := (pm_db demo_start)\<lparr>pdb_step := Some 2\<rparr>\<rparr>"

lemma one_small [simp]: "\<not> (13 :: u32) \<le> 1" "\<not> (1000 :: u64) \<le> 1"
  by (simp_all add: word_le_nat_alt)

lemmas demo_start_eval =
  sr_defs initialState_def init_lambda_def init_state_step_def setPbftStep_def set_db_def getPbftPeriod_def getPbftMgrField_def
  getPbftMgrStatus_def isOnCactiHardfork_def getRoundsCountDynamicLambda_def getRoundLambda_def vm_action_def
  setCurrentPbftPeriodAndRound_def waitForPeriodFinalization_def getRoundVotes_def kMaxSteps_def Let_def
  demo_env_def demo_cacti_def demo_start_def pc_empty_def sample_manager_def vm_empty_def demo_vm_def

lemma demo_initial: "initialState (demo_env 0) demo_start = Inr ((), demo_s0)"
  by (simp add: demo_s0_def demo_start_eval)

lemmas demo_run_eval = demo_start_eval run_def stateOperations_def pushSyncedPbftBlocksIntoChain_def advanceRound_def
  determineNewRound_def getWallets_def run_state_def proposeBlock_def proposePbftBlock_def generatePbftBlock_def
  sortition_wallets.simps genAndValidateVrfSortition_def venv_def sample_env_def anchor_choice_def
  isFicusHardfork_def createPbftBlockExtraData_def vm_result_def getRewardVotes_def own_proposals.simps identifyLeaderBlock_def
  setFilterState_def kNullBlockHash_def two_t_block_def getTwoTPlusOneVotedBlockHash_def getTwoTPlusOneVotedBlock_def
  getPeriodVotes_def getProposalVotes_def identifyBlock_def setCertifyState_def certifyBlock_def place_cert_vote_def
  valid_proposed_def getValidPbftProposedBlock_def getPbftProposedBlock_def validatePbftBlock_def checkPbftBlockValidation_def
  validateFinalChainHash_def checkRewardVotes_def validatePbftBlockExtraData_def check_pillar_hash_def
  isPbftWithPillarBlockPeriod_def firstPillarBlockPeriod_def markBlockAsValid_def genAndPlaceVote_def pillar_vote_target_def
  place_wallet_vote_def generateVoteWithWeight_def generateVote_def VrfPbftMsg_def saveOwnVerifiedVote_def
  saveOwnVerifiedVote_db_def gossipNewOwnVote_def gossipVote_def note_broadcast_def setFinishState_def getPbftDeadline_def
  kPollingIntervalMs_def firstFinish_def setFinishPollingState_def reset_next_voted_def poll_again_def sample_eval
  leader_candidates_def getStepVotes_def getTwoTPlusOneVotedBlockVotes_def

lemma demo_propose: "run (demo_env 0) demo_s0 = Inr ((), demo_s1)"
  by (simp add: demo_s0_def demo_s1_def demo_run_eval)

definition demo_s2 :: pbft_manager where
  "demo_s2 = demo_s1\<lparr>pm_state := certify_state, pm_step := 3, pm_db := (pm_db demo_start)\<lparr>pdb_step := Some 3\<rparr>\<rparr>"

definition demo_soft_votes :: votes_with_weight where
  "demo_soft_votes = \<lparr>vw_weight = 70, vw_votes = [(11, demo_soft_vote)]\<rparr>"

definition demo_vm3 :: vote_manager where
  "demo_vm3 = demo_vm\<lparr>vm_votes := [(1, [(1, \<lparr>rv_two_t_plus_one = [(SoftVotedBlock, \<lparr>vb_hash = 77, vb_step = 2\<rparr>)],
        rv_step_votes = [(2, \<lparr>sv_votes = [(77, demo_soft_votes)], sv_unique_voters = []\<rparr>)], rv_t_plus_one_step = 0\<rparr>)])],
     vm_two_t_cache := [(soft_vote, 0, 67)],
     vm_db := \<lparr>db_own_votes = [], db_two_t_votes = [(SoftVotedBlock, [demo_soft_vote])], db_extra_reward_votes = []\<rparr>\<rparr>"

definition demo_s3 :: pbft_manager where
  "demo_s3 = demo_s2\<lparr>pm_vm := demo_vm3\<rparr>"

definition demo_s4 :: pbft_manager where
  "demo_s4 = demo_s3\<lparr>pm_proposed := [(1, [(77, demo_block, False)])],
     pm_db := (pm_db demo_s3)\<lparr>pdb_proposed := [(77, demo_block)]\<rparr>\<rparr>"

lemma demo_filter: "run (demo_env 3000) demo_s1 = Inr ((), demo_s2)"
  by (simp add: demo_s0_def demo_s1_def demo_s2_def demo_run_eval)

lemma demo_soft: "addVerifiedVote (venv (demo_env 3000) demo_s2) demo_soft_vote (pm_vm demo_s2) = Inr (True, demo_vm3)"
  by (simp add: demo_s0_def demo_s1_def demo_s2_def demo_vm3_def demo_soft_vote_def demo_soft_votes_def demo_run_eval)

lemma demo_blk: "processProposedBlock demo_block demo_s3 = demo_s4"
  by (simp add: demo_s0_def demo_s1_def demo_s2_def demo_s3_def demo_s4_def demo_block_def processProposedBlock_def
    isInProposedBlocks_def push_proposed_def pushProposedPbftBlock_def demo_run_eval)

text \<open>The cert vote and the next vote of the node.\<close>

definition demo_own_vote :: "pbft_step \<Rightarrow> pbft_vote" where
  "demo_own_vote step = \<lparr>v_hash = 77 + ucast step, v_block = 77, v_period = 1, v_round = 1, v_step = step, v_voter = 3, v_weight = Some 3\<rparr>"

definition demo_vm5 :: vote_manager where
  "demo_vm5 = demo_vm3\<lparr>vm_votes := [(1, [(1, \<lparr>rv_two_t_plus_one = [(SoftVotedBlock, \<lparr>vb_hash = 77, vb_step = 2\<rparr>)],
        rv_step_votes = [(2, \<lparr>sv_votes = [(77, demo_soft_votes)], sv_unique_voters = []\<rparr>),
          (3, \<lparr>sv_votes = [(77, \<lparr>vw_weight = 3, vw_votes = [(80, demo_own_vote 3)]\<rparr>)], sv_unique_voters = []\<rparr>)],
        rv_t_plus_one_step = 0\<rparr>)])],
     vm_two_t_cache := [(soft_vote, 0, 67), (cert_vote, 0, 67)], vm_own_votes := [demo_own_vote 3],
     vm_db := \<lparr>db_own_votes = [(80, demo_own_vote 3)], db_two_t_votes = [(SoftVotedBlock, [demo_soft_vote])],
       db_extra_reward_votes = []\<rparr>\<rparr>"

definition demo_s5 :: pbft_manager where
  "demo_s5 = demo_s4\<lparr>pm_proposed := [(1, [(77, demo_block, True)])], pm_cert_voted := Some demo_block,
     pm_broadcasted := [(77, [3])], pm_next_step_time := 3100,
     pm_db := (pm_db demo_s4)\<lparr>pdb_cert_voted := Some (1, demo_block)\<rparr>, pm_vm := demo_vm5\<rparr>"

definition demo_s6 :: pbft_manager where
  "demo_s6 = demo_s5\<lparr>pm_state := finish_state, pm_step := 4, pm_go_finish := True, pm_next_step_time := 6000,
     pm_db := (pm_db demo_s5)\<lparr>pdb_step := Some 4\<rparr>\<rparr>"

lemmas demo_states = demo_s0_def demo_s1_def demo_s2_def demo_s3_def demo_s4_def demo_s5_def demo_s6_def demo_vm3_def demo_vm5_def
  demo_soft_vote_def demo_soft_votes_def demo_block_def demo_own_vote_def

lemma demo_certify: "run (demo_env 3000) demo_s4 = Inr ((), demo_s5)"
  by (simp add: demo_states demo_run_eval)

lemma demo_expire: "run (demo_env 6000) demo_s5 = Inr ((), demo_s6)"
  by (simp add: demo_states demo_run_eval)

lemma demo_finish: "\<exists>s. run (demo_env 6000) demo_s6 = Inr ((), s)
    \<and> vm_own_votes (pm_vm s) = [demo_own_vote 3, demo_own_vote 4]"
  by (simp add: demo_states demo_run_eval)

lemma demo_env_ok: "env_ok demo_cacti sample_env (\<lambda>_. 100) (demo_env now)"
  by (simp add: env_ok_def signs_def chain_env_def demo_env_def sample_env_def Let_def)

lemma demo_moves:
  "pbft_step demo_cacti sample_env (\<lambda>_. 100) demo_s0 demo_s1" "pbft_step demo_cacti sample_env (\<lambda>_. 100) demo_s1 demo_s2"
  "pbft_step demo_cacti sample_env (\<lambda>_. 100) demo_s2 demo_s3" "pbft_step demo_cacti sample_env (\<lambda>_. 100) demo_s3 demo_s4"
  "pbft_step demo_cacti sample_env (\<lambda>_. 100) demo_s4 demo_s5" "pbft_step demo_cacti sample_env (\<lambda>_. 100) demo_s5 demo_s6"
proof -
  have top: "pm_step demo_s0 \<noteq> - 1" "pm_step demo_s1 \<noteq> - 1" "pm_step demo_s4 \<noteq> - 1" "pm_step demo_s5 \<noteq> - 1"
    by (simp_all add: demo_states demo_start_def)
  show "pbft_step demo_cacti sample_env (\<lambda>_. 100) demo_s0 demo_s1" by (rule daemon[OF demo_env_ok top(1) demo_propose])
  show "pbft_step demo_cacti sample_env (\<lambda>_. 100) demo_s1 demo_s2" by (rule daemon[OF demo_env_ok top(2) demo_filter])
  show "pbft_step demo_cacti sample_env (\<lambda>_. 100) demo_s2 demo_s3"
    unfolding demo_s3_def by (rule net_vote[OF demo_env_ok demo_soft])
  show "pbft_step demo_cacti sample_env (\<lambda>_. 100) demo_s3 demo_s4" unfolding demo_blk[symmetric] by (rule net_block)
  show "pbft_step demo_cacti sample_env (\<lambda>_. 100) demo_s4 demo_s5" by (rule daemon[OF demo_env_ok top(3) demo_certify])
  show "pbft_step demo_cacti sample_env (\<lambda>_. 100) demo_s5 demo_s6" by (rule daemon[OF demo_env_ok top(4) demo_expire])
qed

lemma demo_path: "pbft_steps demo_cacti sample_env (\<lambda>_. 100) demo_s0 demo_s6"
  using demo_moves by (meson converse_rtranclp_into_rtranclp rtranclp.rtrancl_refl)

section \<open>State and step\<close>

text \<open>The votes a state places.\<close>

fun state_vote :: "PbftStates \<Rightarrow> PbftVoteTypes" where
  "state_vote value_proposal_state = propose_vote"
| "state_vote filter_state = soft_vote"
| "state_vote certify_state = cert_vote"
| "state_vote finish_state = next_vote"
| "state_vote finish_polling_state = next_vote"

lemma coherent_type: "coherent s \<Longrightarrow> step_type (pm_step s) = state_vote (pm_state s)"
proof -
  have "4 \<le> n \<Longrightarrow> step_type n = next_vote" "5 \<le> n \<Longrightarrow> step_type n = next_vote" for n
    by (auto simp: step_type_def word_le_nat_alt)
  then show "coherent s \<Longrightarrow> step_type (pm_step s) = state_vote (pm_state s)"
    by (cases "pm_state s") (auto simp: coherent_def step_type_def)
qed

text \<open>
  C3: from its start, whatever the database holds, and through any interleaving of daemon passes with messages of
  the network, the PBFT manager's step fits its state: 1, 2 and 3 in the first three states, even from 4 on in the
  first finishing state and odd from 5 on in the second. So the step has the type of the votes the state places,
  which the constructor of a vote asserts.
\<close>

theorem pbft_state_step:
  assumes "initialState env s0 = Inr ((), s)" and "pbft_steps cfg env0 dpos s s'"
  shows "coherent_mode (pm_state s') (pm_step s') \<and> step_type (pm_step s') = state_vote (pm_state s')"
proof -
  have "coherent s'"
    using pbft_steps_invariant[where I = coherent, OF assms(2) coherent_initialState[OF assms(1)]] coherent_step by blast
  then show ?thesis using coherent_type by (simp add: coherent_def)
qed

theorem pbft_state_step_witness:
  "coherent_mode (pm_state demo_s6) (pm_step demo_s6) \<and> pm_step demo_s6 = 4 \<and> step_type 4 = next_vote"
  using pbft_state_step[OF demo_initial demo_path] by (simp add: demo_states)

section \<open>Dynamic lambda\<close>

text \<open>
  C12: with a consistent configuration the dynamic lambda never leaves the configured interval, in whatever rounds
  blocks are finalized: the 32-bit subtraction and addition of \<open>adjustDynamicLambda\<close> do not wrap around.
\<close>

theorem dynamic_lambda_bounds:
  assumes "lambda_config cfg" and "lambda_bounded cfg s" and "pbft_steps cfg env0 dpos s s'"
  shows "lambda_min cfg \<le> pm_dynamic_lambda s' \<and> pm_dynamic_lambda s' \<le> lambda_max cfg"
  using pbft_steps_invariant[where I = "lambda_bounded cfg", OF assms(3, 2)] lambda_step[OF assms(1)]
  by (auto simp: lambda_bounded_def)

theorem dynamic_lambda_bounds_witness: "500 \<le> pm_dynamic_lambda demo_s6 \<and> pm_dynamic_lambda demo_s6 \<le> 1500"
proof -
  have "lambda_config demo_cacti" "lambda_bounded demo_cacti demo_s0"
    by (simp_all add: lambda_config_def lambda_bounded_def demo_cacti_def demo_s0_def)
  from dynamic_lambda_bounds[OF this demo_path] show ?thesis by (simp add: demo_cacti_def)
qed

section \<open>The cert vote locks\<close>

lemma soft_quorum:
  assumes "lock_inv env0 dpos s" and "pm_cert_voted s = Some b"
  shows "\<exists>vw. value_of (vm_votes (pm_vm s)) (getPbftPeriod s) (pm_round s) 2 (pb_hash b) = Some vw
     \<and> unat (two_t_of env0 (dpos (getPbftPeriod s - 1)) soft_vote) \<le> full_weight vw"
proof -
  obtain vb where vb: "getTwoTPlusOneVotedBlock (vm_votes (pm_vm s)) (getPbftPeriod s) (pm_round s) SoftVotedBlock = Some vb"
    "vb_hash vb = pb_hash b"
    using assms by (auto simp: lock_inv_def cert_ok_def two_t_block_def getTwoTPlusOneVotedBlockHash_def)
  have q: "quorum_ok env0 dpos (vm_votes (pm_vm s))"
    using assms(1) vm_reachable_ok unfolding lock_inv_def vm_ok_def by blast
  then have "step_type (vb_step vb) = soft_vote" using vb(1) unfolding quorum_ok_def by fastforce
  then have "vb_step vb = 2" by (auto simp: step_type_def split: if_splits)
  with q vb \<open>step_type (vb_step vb) = soft_vote\<close> show ?thesis unfolding quorum_ok_def by metis
qed

text \<open>
  C2: a node that starts without own votes and without a stored cert voted block, and then takes any interleaving of
  daemon passes with messages of the network, never contradicts its cert vote: every further cert vote and every
  next vote of the round is for the block of the cert vote, and that block has 2t+1 soft votes in the round.
\<close>

theorem cert_vote_locks:
  assumes "unvoted env0 dpos s0" and "initialState env s0 = Inr ((), s)" and "pbft_steps cfg env0 dpos s s'"
    and "v \<in> set (vm_own_votes (pm_vm s'))" and "v_type v = cert_vote"
    and "w \<in> set (vm_own_votes (pm_vm s'))" and "v_type w = cert_vote \<or> v_type w = next_vote"
  shows "v_block w = v_block v \<and> v_period w = v_period v \<and> v_round w = v_round v
     \<and> (\<exists>vw. value_of (vm_votes (pm_vm s')) (v_period v) (v_round v) 2 (v_block v) = Some vw
          \<and> unat (two_t_of env0 (dpos (v_period v - 1)) soft_vote) \<le> full_weight vw)"
proof -
  have inv: "lock_inv env0 dpos s'"
    using pbft_steps_invariant[where I = "lock_inv env0 dpos", OF assms(3) fresh_lock[OF unvoted_initialState[OF assms(1, 2)]]]
      lock_step by blast
  then have own: "own_vote_ok s' v" "own_vote_ok s' w" using assms(4, 6) by (simp_all add: lock_inv_def)
  then obtain b where "pm_cert_voted s' = Some b" "pb_hash b = v_block v" using assms(5) by (auto simp: own_vote_ok_def)
  with soft_quorum[OF inv this(1)] own assms(7) show ?thesis by (auto simp: own_vote_ok_def)
qed

theorem cert_vote_locks_witness:
  "\<exists>s. pbft_steps demo_cacti sample_env (\<lambda>_. 100) demo_s0 s \<and> set (vm_own_votes (pm_vm s)) = {demo_own_vote 3, demo_own_vote 4}
     \<and> (\<exists>vw. value_of (vm_votes (pm_vm s)) 1 1 2 77 = Some vw \<and> 67 \<le> full_weight vw)"
proof -
  obtain s where s: "run (demo_env 6000) demo_s6 = Inr ((), s)" "vm_own_votes (pm_vm s) = [demo_own_vote 3, demo_own_vote 4]"
    using demo_finish by blast
  have "pm_step demo_s6 \<noteq> - 1" by (simp add: demo_states)
  then have path: "pbft_steps demo_cacti sample_env (\<lambda>_. 100) demo_s0 s"
    using demo_path daemon[OF demo_env_ok _ s(1)] by (meson rtranclp.rtrancl_into_rtrancl)
  have un: "unvoted sample_env (\<lambda>_. 100) demo_start"
    using sample_manager_reachable by (simp add: unvoted_def based_def demo_start_def sample_manager_def vm_empty_def)
  have "v_type (demo_own_vote 3) = cert_vote" "v_type (demo_own_vote 4) = next_vote"
    by (simp_all add: demo_own_vote_def v_type_def step_type_def)
  with cert_vote_locks[OF un demo_initial path, of "demo_own_vote 3" "demo_own_vote 4"] s(2) path show ?thesis
    by (auto simp: demo_own_vote_def two_t_of_def getPbftSortitionThreshold_def sample_env_def)
qed

end
