(* ===== verification/Pbft_Block_Props.thy ===== *)
theory Pbft_Block_Props
  imports Pbft_Props "HOL-Library.Multiset"
begin

text \<open>
  Blocks, their transactions and the chain: the order \<open>reorderTransactions\<close> gives the transactions of a period, the
  chain that a restart reads back, the fuel of the sync loop, and what the checks of a block let pass.
\<close>

section \<open>Reordering transactions\<close>

abbreviation of_sender :: "addr_t \<Rightarrow> transaction list \<Rightarrow> transaction list" where
  "of_sender a \<equiv> filter (\<lambda>t. trx_sender t = a)"

text \<open>The position \<open>p\<close> holds the last transaction of the sender; positions start at \<open>i\<close>.\<close>

fun last_at :: "addr_t \<Rightarrow> nat \<Rightarrow> transaction list \<Rightarrow> nat \<Rightarrow> bool" where
  "last_at a i [] p \<longleftrightarrow> False"
| "last_at a i (t # ts) p \<longleftrightarrow> (if of_sender a ts = [] then trx_sender t = a \<and> p = i else last_at a (Suc i) ts p)"

lemma last_at_bound: "last_at a i ts p \<Longrightarrow> i \<le> p"
  by (induction ts arbitrary: i) (fastforce split: if_splits)+

text \<open>One pass of the first loop: whether the account is noted, and the last nonce kept for it.\<close>

definition noted :: "transaction \<Rightarrow> (addr_t, nat) umap \<Rightarrow> (addr_t, u256) umap \<Rightarrow> bool" where
  "noted t ro nonces \<longleftrightarrow> um_find ro (trx_sender t) \<noteq> None
     \<or> (case um_find nonces (trx_sender t) of None \<Rightarrow> False | Some n \<Rightarrow> trx_nonce t < n)"

lemma reverse_accounts_step:
  "\<exists>nonces'. reverse_accounts i (t # ts) ro nonces =
       reverse_accounts (Suc i) ts (if noted t ro nonces then um_put (trx_sender t) i ro else ro) nonces'
     \<and> (\<forall>a. a \<noteq> trx_sender t \<longrightarrow> um_find nonces' a = um_find nonces a)
     \<and> (\<not> noted t ro nonces \<longrightarrow> um_find nonces' (trx_sender t) = Some (trx_nonce t))"
proof (cases "um_find nonces (trx_sender t)")
  case (Some n)
  consider "n < trx_nonce t" | "trx_nonce t < n" | "n = trx_nonce t" by fastforce
  then show ?thesis
    using Some
    by cases (auto simp: noted_def split: option.split intro: exI[of _ nonces] exI[of _ "um_put (trx_sender t) (trx_nonce t) nonces"])
qed (auto simp: noted_def split: option.split intro: exI[of _ nonces] exI[of _ "um_put (trx_sender t) (trx_nonce t) nonces"])

lemma reverse_accounts_other:
  "of_sender a ts = [] \<Longrightarrow> um_find (reverse_accounts i ts ro nonces) a = um_find ro a"
proof (induction ts arbitrary: i ro nonces)
  case (Cons t ts)
  then have "trx_sender t \<noteq> a" "of_sender a ts = []" by (auto split: if_splits)
  with Cons.IH reverse_accounts_step[of i t ts ro nonces] show ?case by auto
qed simp

lemma reverse_accounts_last:
  "um_find (reverse_accounts i ts ro nonces) a = Some p \<Longrightarrow> of_sender a ts \<noteq> [] \<Longrightarrow> last_at a i ts p"
proof (induction ts arbitrary: i ro nonces)
  case (Cons t ts)
  obtain nonces' where step: "reverse_accounts i (t # ts) ro nonces =
      reverse_accounts (Suc i) ts (if noted t ro nonces then um_put (trx_sender t) i ro else ro) nonces'"
    using reverse_accounts_step by blast
  show ?case
  proof (cases "of_sender a ts = []")
    case True
    then have a: "trx_sender t = a" using Cons.prems(2) by (auto split: if_splits)
    have "um_find (if noted t ro nonces then um_put (trx_sender t) i ro else ro) a = Some p"
      using Cons.prems(1)[unfolded step] True by (simp add: reverse_accounts_other split del: if_split)
    then show ?thesis using True a by (auto simp: noted_def split: if_splits)
  next
    case False
    then show ?thesis using Cons.IH[OF Cons.prems(1)[unfolded step]] by simp
  qed
qed simp

lemma reverse_accounts_none:
  assumes "um_find (reverse_accounts i ts ro nonces) a = None"
  shows "um_find ro a = None \<and> sorted (map trx_nonce (of_sender a ts))
    \<and> (\<forall>n t. um_find nonces a = Some n \<longrightarrow> t \<in> set (of_sender a ts) \<longrightarrow> n \<le> trx_nonce t)"
  using assms
proof (induction ts arbitrary: i ro nonces)
  case (Cons t ts)
  obtain nonces' where step: "reverse_accounts i (t # ts) ro nonces =
      reverse_accounts (Suc i) ts (if noted t ro nonces then um_put (trx_sender t) i ro else ro) nonces'"
    and n: "\<forall>a. a \<noteq> trx_sender t \<longrightarrow> um_find nonces' a = um_find nonces a"
      "\<not> noted t ro nonces \<longrightarrow> um_find nonces' (trx_sender t) = Some (trx_nonce t)"
    using reverse_accounts_step by blast
  note IH = Cons.IH[OF Cons.prems[unfolded step]]
  show ?case
  proof (cases "trx_sender t = a")
    case True
    then have not: "\<not> noted t ro nonces" using IH by (auto split: if_splits)
    then have "um_find ro a = None" "\<And>n. um_find nonces a = Some n \<Longrightarrow> n \<le> trx_nonce t"
      using True by (auto simp: noted_def not_less split: option.splits)
    then show ?thesis using IH True not n by (auto intro: order_trans)
  qed (use IH n in \<open>auto split: if_splits\<close>)
qed simp

text \<open>The multimap sorts by nonce and keeps the order of equal nonces.\<close>

definition nonce_sorted :: "transaction list \<Rightarrow> (u256 \<times> transaction) list \<Rightarrow> bool" where
  "nonce_sorted ts m \<longleftrightarrow> sorted (map fst m) \<and> (\<forall>e\<in>set m. fst e = trx_nonce (snd e))
     \<and> (\<forall>n. filter (\<lambda>t. trx_nonce t = n) (map snd m) = filter (\<lambda>t. trx_nonce t = n) ts)"

lemma mm_insert_set: "set (mm_insert k v m) = insert (k, v) (set m)"
  by (induction m) (auto split: if_splits)

lemma mm_insert_sorted: "sorted (map fst m) \<Longrightarrow> sorted (map fst (mm_insert k v m))"
proof (induction m)
  case (Cons e m)
  then show ?case
    by (cases e) (auto simp: mm_insert_set not_less intro: order_trans[OF less_imp_le])
qed simp

lemma mm_insert_filter:
  assumes "sorted (map fst m)" and "\<forall>e\<in>set m. fst e = f (snd e)"
  shows "filter (\<lambda>t. f t = n) (map snd (mm_insert (f v) v m)) = filter (\<lambda>t. f t = n) (map snd m) @ (if f v = n then [v] else [])"
  using assms
proof (induction m)
  case (Cons e m)
  show ?case
  proof (cases "f v < fst e")
    case True
    have "filter (\<lambda>t. f t = n) (map snd (e # m)) = []" if "f v = n"
      using that True Cons.prems by (fastforce simp: filter_empty_conv)
    with True show ?thesis by (cases e) auto
  qed (use Cons in \<open>cases e; auto\<close>)
qed simp

lemma nonce_sorted_insert: "nonce_sorted ts m \<Longrightarrow> nonce_sorted (ts @ [t]) (mm_insert (trx_nonce t) t m)"
  unfolding nonce_sorted_def by (simp add: mm_insert_sorted mm_insert_set mm_insert_filter)

lemma nonce_sorted_sort:
  assumes "nonce_sorted ts m"
  shows "map snd m = sort_key trx_nonce ts"
proof -
  have "map fst m = map trx_nonce (map snd m)" using assms by (auto simp: nonce_sorted_def)
  then have "sorted (map trx_nonce (map snd m))" using assms unfolding nonce_sorted_def by metis
  moreover have "filter (\<lambda>x. trx_nonce k = trx_nonce x) (map snd m) = filter (\<lambda>x. trx_nonce k = trx_nonce x) ts" for k
    using assms by (simp add: nonce_sorted_def eq_commute[of "trx_nonce k"])
  moreover have "mset (map snd m) = mset ts"
  proof (rule multiset_eqI)
    fix t :: transaction
    have "filter (\<lambda>x. trx_nonce x = trx_nonce t) (map snd m) = filter (\<lambda>x. trx_nonce x = trx_nonce t) ts"
      using assms by (simp add: nonce_sorted_def)
    from arg_cong[OF this, of "\<lambda>xs. count (mset xs) t"] show "count (mset (map snd m)) t = count (mset ts) t"
      by (simp only: mset_filter count_filter_mset if_True simp_thms)
  qed
  ultimately show ?thesis by (intro properties_for_sort_key[symmetric]) simp_all
qed

text \<open>The second loop: the collected transactions are those of their account, and each account is placed once.\<close>

definition by_account :: "(addr_t, (u256 \<times> transaction) list) umap \<Rightarrow> bool" where
  "by_account ant \<longleftrightarrow> (\<forall>b m e. um_find ant b = Some m \<longrightarrow> e \<in> set m \<longrightarrow> trx_sender (snd e) = b)"

lemma get_put: "um_get_or d (um_put b m ant) a = (if a = b then m else um_get_or d ant a)"
  by (simp add: um_get_or_def)

lemma by_account_get: "by_account ant \<Longrightarrow> e \<in> set (um_get_or [] ant b) \<Longrightarrow> trx_sender (snd e) = b"
  unfolding by_account_def um_get_or_def by (cases "um_find ant b") (simp, metis option.simps(5))

lemma by_account_put:
  assumes "by_account ant"
  shows "by_account (um_put (trx_sender t) (mm_insert (trx_nonce t) t (um_get_or [] ant (trx_sender t))) ant)"
  using assms by_account_get[OF assms] unfolding by_account_def by (auto simp: mm_insert_set)

lemma by_account_of_sender:
  assumes "by_account ant"
  shows "of_sender a (map snd (mm_insert (trx_nonce t) t (um_get_or [] ant (trx_sender t)))) =
    (if trx_sender t = a then map snd (mm_insert (trx_nonce t) t (um_get_or [] ant a)) else [])"
  using by_account_get[OF assms] by (auto simp: mm_insert_set filter_empty_conv filter_id_conv)

lemma place_absent:
  "by_account ant \<Longrightarrow> um_find ro a = None \<Longrightarrow>
     of_sender a (place_transactions ro i ts ant ordered) = of_sender a ordered @ of_sender a ts"
proof (induction ts arbitrary: i ant ordered)
  case (Cons t ts)
  then show ?case by (auto simp: Let_def by_account_of_sender by_account_put split: option.split)
qed simp

lemma place_done:
  "by_account ant \<Longrightarrow> of_sender a ts = [] \<Longrightarrow> of_sender a (place_transactions ro i ts ant ordered) = of_sender a ordered"
proof (induction ts arbitrary: i ant ordered)
  case (Cons t ts)
  then have "trx_sender t \<noteq> a" "of_sender a ts = []" by (auto split: if_splits)
  with Cons show ?case by (auto simp: Let_def by_account_of_sender by_account_put split: option.split)
qed simp

lemma place_noted:
  assumes "um_find ro a = Some p"
  shows "by_account ant \<Longrightarrow> last_at a i ts p \<Longrightarrow>
    of_sender a (place_transactions ro i ts ant ordered) =
      of_sender a ordered @ map snd (fold (\<lambda>t. mm_insert (trx_nonce t) t) (of_sender a ts) (um_get_or [] ant a))"
proof (induction ts arbitrary: i ant ordered)
  case (Cons t ts)
  show ?case
  proof (cases "of_sender a ts = []")
    case True
    then show ?thesis
      using Cons.prems assms by_account_put[OF Cons.prems(1), of t] by_account_of_sender[OF Cons.prems(1), of a t]
      by (simp add: Let_def place_done)
  next
    case False
    then have at: "last_at a (Suc i) ts p" using Cons.prems(2) by simp
    then have "p \<noteq> i" using last_at_bound by fastforce
    show ?thesis
    proof (cases "trx_sender t = a")
      case True
      then show ?thesis
        using Cons.IH[OF by_account_put[OF Cons.prems(1), of t] at] assms \<open>p \<noteq> i\<close> by (simp add: Let_def get_put)
    next
      case other: False
      then show ?thesis
        using Cons.IH[OF Cons.prems(1) at] Cons.IH[OF by_account_put[OF Cons.prems(1), of t] at] Cons.prems(1)
        by (auto simp: Let_def by_account_of_sender get_put split: option.split)
    qed
  qed
qed simp

lemma fold_mm_insert: "nonce_sorted ts m \<Longrightarrow> nonce_sorted (ts @ us) (fold (\<lambda>t. mm_insert (trx_nonce t) t) us m)"
proof (induction us arbitrary: ts m)
  case (Cons u us)
  from Cons.IH[OF nonce_sorted_insert[OF Cons.prems]] show ?case by simp
qed simp

lemma of_sender_mset: "(\<And>a. mset (of_sender a xs) = mset (of_sender a ys)) \<Longrightarrow> mset xs = mset ys"
proof (rule multiset_eqI)
  fix t :: transaction
  assume "\<And>a. mset (of_sender a xs) = mset (of_sender a ys)"
  from arg_cong[OF this[of "trx_sender t"], of "\<lambda>m. count m t"] show "count (mset xs) t = count (mset ys) t"
    by (simp only: mset_filter count_filter_mset if_True simp_thms)
qed

lemma sort_key_sorted: "sorted (map f xs) \<Longrightarrow> sort_key f xs = xs"
  by (induction xs) (auto simp: insort_is_Cons)

lemma reorder_sender:
  "of_sender a (reorderTransactions xs) = sort_key trx_nonce (of_sender a xs)"
proof (cases "um_find (reverse_accounts 0 xs [] []) a")
  case None
  then have "sort_key trx_nonce (of_sender a xs) = of_sender a xs"
    using reverse_accounts_none[OF None] by (simp add: sort_key_sorted)
  then show ?thesis using None by (simp add: reorderTransactions_def Let_def place_absent by_account_def)
next
  case (Some p)
  then have "of_sender a xs \<noteq> []" using reverse_accounts_other[of a xs 0 "[]" "[]"] by auto
  with reverse_accounts_last[OF Some] have "last_at a 0 xs p" .
  from place_noted[OF Some _ this, of "[]" "[]"]
  have "of_sender a (reorderTransactions xs) = map snd (fold (\<lambda>t. mm_insert (trx_nonce t) t) (of_sender a xs) [])"
    using Some by (auto simp: reorderTransactions_def Let_def by_account_def um_get_or_def)
  moreover have "nonce_sorted [] []" by (simp add: nonce_sorted_def)
  ultimately show ?thesis using nonce_sorted_sort[OF fold_mm_insert[of "[]" "[]" "of_sender a xs"]] by simp
qed

text \<open>
  C10: \<open>reorderTransactions\<close> permutes the transactions of a period, and the transactions of every account come out in
  the order of their nonces, those with the same nonce in the order they had.
\<close>

theorem reorderTransactions_spec:
  "mset (reorderTransactions xs) = mset xs
   \<and> filter (\<lambda>t. trx_sender t = a) (reorderTransactions xs) = sort_key trx_nonce (filter (\<lambda>t. trx_sender t = a) xs)"
  using of_sender_mset[of "reorderTransactions xs" xs] by (simp add: reorder_sender)

section \<open>Reopening the chain\<close>

text \<open>
  The chains of a database: the first start on an empty one, then blocks that pass \<open>checkPbftBlockValidation\<close>, are
  not stored yet and have a hash that is not null, while the 64-bit chain size has not reached its end.
\<close>

inductive chain_reach :: "pbft_chain \<Rightarrow> chain_db \<Rightarrow> bool" where
  first_start: "cdb_heads db = [] \<Longrightarrow> cdb_block_period db = [] \<Longrightarrow> PbftChain db = Some (Inr (c, db')) \<Longrightarrow> chain_reach c db'"
| block_pushed: "chain_reach c db \<Longrightarrow> checkPbftBlockValidation c (pd_blk d) \<Longrightarrow> \<not> pbftBlockInDb db (pb_hash (pd_blk d)) \<Longrightarrow>
    pb_hash (pd_blk d) \<noteq> 0 \<Longrightarrow> pc_size c \<noteq> - 1 \<Longrightarrow> chain_commit d (c, db) = (c', db') \<Longrightarrow> chain_reach c' db'"

definition chain_ok :: "pbft_chain \<Rightarrow> chain_db \<Rightarrow> bool" where
  "chain_ok c db \<longleftrightarrow> pc_head_hash c = 0
     \<and> um_find (cdb_heads db) 0 = Some (0, pc_size c, pc_non_empty_size c, pc_last_hash c)
     \<and> (\<forall>h p. um_find (cdb_block_period db) h = Some p \<longrightarrow> p \<le> pc_size c)
     \<and> (if pc_last_hash c = 0 then pc_last_anchor c = 0
        else \<exists>b. getPbftBlock db (pc_last_hash c) = Some b \<and> anchor_loop db b = Some (Inr (pc_last_anchor c)))"

lemma anchor_loop_extend:
  assumes ext: "\<And>h b. getPbftBlock db h = Some b \<Longrightarrow> getPbftBlock db' h = Some b"
    and loop: "anchor_loop db b = Some (Inr a)"
  shows "anchor_loop db' b = Some (Inr a)"
proof -
  define P where "P db0 b y \<longleftrightarrow> (db0 = db \<longrightarrow> (\<forall>a. y = Inr a \<longrightarrow> anchor_loop db' b = Some (Inr a)))"
    for db0 b and y :: "h256 pbft_result"
  have "P db b (Inr a)"
  proof (rule anchor_loop.raw_induct[OF _ loop])
    fix rec db0 and b :: pbft_block and y
    assume IH: "\<And>db0 b y. rec db0 b = Some y \<Longrightarrow> P db0 b y"
      and res: "(if pb_pivot b \<noteq> 0 then Some (Inr (pb_pivot b)) else if pb_prev b = 0 then Some (Inr (pb_pivot b))
        else case getPbftBlockInChain db0 (pb_prev b) of Inl e \<Rightarrow> Some (Inl e) | Inr b' \<Rightarrow> rec db0 b') = Some y"
    show "P db0 b y"
    proof (cases "pb_pivot b \<noteq> 0 \<or> pb_prev b = 0")
      case True
      then show ?thesis using res by (auto simp: P_def anchor_loop.simps[of db' b] split: if_splits)
    next
      case False
      then have "anchor_loop db' b = Some (Inr a)" if db: "db0 = db" and y: "y = Inr a" for a
      proof -
        obtain b' where b': "getPbftBlock db (pb_prev b) = Some b'" "rec db b' = Some (Inr a)"
          using res False db y by (auto simp: getPbftBlockInChain_def split: option.splits)
        from IH[OF b'(2)] have "anchor_loop db' b' = Some (Inr a)" by (simp add: P_def)
        with False ext[OF b'(1)] show ?thesis by (simp add: anchor_loop.simps[of db' b] getPbftBlockInChain_def)
      qed
      then show ?thesis by (simp add: P_def)
    qed
  qed
  then show ?thesis by (simp add: P_def)
qed

lemma chain_ok_first:
  assumes "cdb_heads db = []" and "cdb_block_period db = []" and "PbftChain db = Some (Inr (c, db'))"
  shows "chain_ok c db'"
  using assms by (auto simp: chain_ok_def PbftChain_def pc_empty_def getJsonStr_def)

lemma chain_ok_commit:
  assumes ok: "chain_ok c db" and valid: "checkPbftBlockValidation c (pd_blk d)" and new: "\<not> pbftBlockInDb db (pb_hash (pd_blk d))"
    and hash: "pb_hash (pd_blk d) \<noteq> 0" and top: "pc_size c \<noteq> - 1" and res: "chain_commit d (c, db) = (c', db')"
  shows "chain_ok c' db'"
proof -
  let ?b = "pd_blk d"
  have p: "pb_period ?b = pc_size c + 1" "pb_prev ?b = pc_last_hash c" using valid by (simp_all add: checkPbftBlockValidation_def)
  have c': "c' = updatePbftChain (pb_hash ?b) (pb_pivot ?b) c" using res by (simp add: chain_commit_def Let_def)
  have "unat (pc_size c + 1) = Suc (unat (pc_size c))"
    using top by (metis add.commute unatSuc add_eq_0_iff minus_equation_iff)
  then have up: "x \<le> pc_size c \<Longrightarrow> x \<le> pc_size c + 1 \<and> x \<noteq> pc_size c + 1" for x
    by (auto simp: word_le_nat_alt)
  have heads: "um_find (cdb_heads db') 0 = Some (0, pc_size c', pc_non_empty_size c', pc_last_hash c')" "pc_head_hash c' = 0"
    using res ok by (auto simp: chain_commit_def chain_ok_def savePeriodData_def getJsonStrForBlock_def updatePbftChain_def kNullBlockHash_def Let_def)
  have periods: "um_find (cdb_block_period db') h = (if h = pb_hash ?b then Some (pc_size c + 1) else um_find (cdb_block_period db) h)"
    "um_find (cdb_period_data db') x = (if x = pc_size c + 1 then Some d else um_find (cdb_period_data db) x)" for h x
    using res p(1) by (auto simp: chain_commit_def savePeriodData_def Let_def)
  have bound: "um_find (cdb_block_period db) h = Some x \<Longrightarrow> x \<le> pc_size c" for h x using ok by (simp add: chain_ok_def)
  have ext: "getPbftBlock db' h = Some b" if "getPbftBlock db h = Some b" for h b
    using that new bound up by (auto simp: getPbftBlock_def pbftBlockInDb_def periods split: option.splits if_splits)
  have blk: "getPbftBlock db' (pb_hash ?b) = Some ?b" by (simp add: getPbftBlock_def periods)
  have "anchor_loop db' ?b = Some (Inr (pc_last_anchor c'))"
  proof (cases "pb_pivot ?b \<noteq> 0 \<or> pb_prev ?b = 0")
    case True
    then show ?thesis
      using ok p(2) by (auto simp: anchor_loop.simps[of db' ?b] c' updatePbftChain_def kNullBlockHash_def chain_ok_def Let_def)
  next
    case False
    then obtain b where b: "getPbftBlock db (pc_last_hash c) = Some b" "anchor_loop db b = Some (Inr (pc_last_anchor c))"
      using ok p(2) by (auto simp: chain_ok_def)
    from anchor_loop_extend[OF ext b(2)] ext[OF b(1)] False p(2) show ?thesis
      by (simp add: anchor_loop.simps[of db' ?b] getPbftBlockInChain_def c' updatePbftChain_def kNullBlockHash_def Let_def)
  qed
  moreover have "pc_size c' = pc_size c + 1" "pc_last_hash c' = pb_hash ?b" by (simp_all add: c' updatePbftChain_def Let_def)
  ultimately show ?thesis
    using heads hash blk up bound by (auto simp: chain_ok_def periods split: if_splits)
qed

lemma chain_reach_ok: "chain_reach c db \<Longrightarrow> chain_ok c db"
  by (induction rule: chain_reach.induct) (blast intro: chain_ok_first chain_ok_commit)+

text \<open>
  C9: a restart reads back the chain: from the database after any number of pushed blocks the constructor of
  \<open>PbftChain\<close> ends, asserts nothing, writes nothing and builds exactly the head that was in memory, with the last
  anchor found by walking back over the blocks without one.
\<close>

theorem chain_reopen:
  assumes "chain_reach c db"
  shows "PbftChain db = Some (Inr (c, db))"
  using chain_reach_ok[OF assms]
  by (cases c) (auto simp: chain_ok_def PbftChain_def pc_empty_def getPbftBlockInChain_def split: if_splits)

definition sample_chain_db :: chain_db where
  "sample_chain_db = \<lparr>cdb_heads = [], cdb_block_period = [], cdb_period_data = [], cdb_dag_period = [], cdb_trx_location = [],
     cdb_dag_blocks = [], cdb_transactions = []\<rparr>"

definition sample_period :: "h256 \<Rightarrow> h256 \<Rightarrow> h256 \<Rightarrow> pbft_period \<Rightarrow> period_data" where
  "sample_period hash prev pivot period =
     \<lparr>pd_blk = \<lparr>pb_hash = hash, pb_prev = prev, pb_pivot = pivot, pb_order_hash = 0, pb_final_chain_hash = 0,
        pb_period = period, pb_reward_votes = [], pb_extra_data = None\<rparr>,
      pd_prev_cert_votes = [], pd_dag_blocks = [], pd_transactions = [], pd_pillar_votes = None\<rparr>"

definition sample_chain1 :: "pbft_chain \<times> chain_db" where
  "sample_chain1 = chain_commit (sample_period 71 0 9 1) (pc_empty, sample_chain_db\<lparr>cdb_heads := [(0, 0, 0, 0, 0)]\<rparr>)"

definition sample_chain2 :: "pbft_chain \<times> chain_db" where
  "sample_chain2 = chain_commit (sample_period 72 71 0 2) sample_chain1"

lemmas sample_chain_eval = sample_chain1_def sample_chain2_def sample_chain_db_def sample_period_def chain_commit_def savePeriodData_def
  getJsonStrForBlock_def updatePbftChain_def pc_empty_def kNullBlockHash_def Let_def

text \<open>The second block has no anchor; the reopened chain has the anchor of the first.\<close>

theorem chain_reopen_witness:
  "PbftChain (snd sample_chain2) = Some (Inr (fst sample_chain2, snd sample_chain2)) \<and> pc_last_anchor (fst sample_chain2) = 9"
proof -
  have "PbftChain sample_chain_db = Some (Inr (pc_empty, sample_chain_db\<lparr>cdb_heads := [(0, 0, 0, 0, 0)]\<rparr>))"
    by (simp add: PbftChain_def sample_chain_db_def pc_empty_def getJsonStr_def)
  then have "chain_reach pc_empty (sample_chain_db\<lparr>cdb_heads := [(0, 0, 0, 0, 0)]\<rparr>)"
    by (rule first_start[rotated 2]) (simp_all add: sample_chain_db_def)
  then have "chain_reach (fst sample_chain1) (snd sample_chain1)"
    by (rule block_pushed[where d = "sample_period 71 0 9 1"])
       (simp_all add: sample_chain_eval checkPbftBlockValidation_def pbftBlockInDb_def)
  then have "chain_reach (fst sample_chain2) (snd sample_chain2)"
    by (rule block_pushed[where d = "sample_period 72 71 0 2"])
       (simp_all add: sample_chain_eval checkPbftBlockValidation_def pbftBlockInDb_def)
  from chain_reopen[OF this] show ?thesis by (simp add: sample_chain_eval)
qed

section \<open>The sync loop\<close>

definition same_queue :: "pbft_manager \<Rightarrow> pbft_manager \<Rightarrow> bool" where
  "same_queue s t \<longleftrightarrow> pm_sync_queue t = pm_sync_queue s"

interpretation squeue: action_frame same_queue
  by unfold_locales (simp_all add: same_queue_def)

lemma squeue_vm: "sr_moves same_queue (vm_action f)"
  by (auto simp: same_queue_def vm_action_def intro!: sr_movesI split: sum.splits)

lemma squeue_waits: "sr_moves same_queue (getWallets p)" "sr_moves same_queue (waitForPeriodFinalization env)"
  "sr_moves same_queue (updateWalletsEligibility env p)"
  unfolding getWallets_def waitForPeriodFinalization_def updateWalletsEligibility_def
  by (intro squeue.flow; simp add: same_queue_def)+

lemma squeue_fields [simp]:
  "pm_sync_queue (reset_round env r s) = pm_sync_queue s" "pm_sync_queue (adjustDynamicLambda env p r s) = pm_sync_queue s"
  "pm_sync_queue (save_period_lambda p l s) = pm_sync_queue s" "pm_sync_queue (set_db f s) = pm_sync_queue s"
  by (simp_all add: reset_round_def adjustDynamicLambda_def save_period_lambda_def set_db_def Let_def)

lemma squeue_advance: "sr_moves same_queue (advancePeriod env)"
  unfolding advancePeriod_def resetPbftConsensus_def cleanup_proposed_def Let_def
  by (intro squeue.flow squeue_vm squeue_waits; simp add: same_queue_def split: prod.split)

lemma squeue_push: "sr_moves same_queue (pushPbftBlock env d vs)"
proof -
  have "pm_sync_queue (place_pillar_votes env p h ws s) = pm_sync_queue s" for p h ws s
    unfolding place_pillar_votes_def by (induction ws arbitrary: s) auto
  then have "sr_moves same_queue (commit_block env d v)" for d v
    unfolding commit_block_def store_block_def update_lambda_def finalize_def processPillarBlock_def Let_def
    by (intro squeue.flow squeue_vm squeue_waits squeue_advance; simp add: same_queue_def split: prod.split)
  then show ?thesis unfolding pushPbftBlock_def Let_def by (intro squeue.flow)
qed

abbreviation queued :: "pbft_manager \<Rightarrow> nat" where
  "queued s \<equiv> length (pdq_queue (pm_sync_queue s))"

definition no_longer :: "pbft_manager \<Rightarrow> pbft_manager \<Rightarrow> bool" where
  "no_longer s t \<longleftrightarrow> queued t \<le> queued s"

interpretation nolong: action_frame no_longer
  by unfold_locales (simp_all add: no_longer_def)

lemma nolong_same: "sr_moves same_queue m \<Longrightarrow> sr_moves no_longer m"
  by (simp add: sr_moves_def same_queue_def no_longer_def)

lemma nolong_validation:
  "sr_moves no_longer a \<Longrightarrow> sr_moves no_longer b \<Longrightarrow> sr_moves no_longer c \<Longrightarrow>
     sr_moves no_longer (case r of Valid \<Rightarrow> a | Missing \<Rightarrow> b | Invalid \<Rightarrow> c)"
  by (cases r) simp_all

lemma nolong_queue: "no_longer s (malicious_peer n s)" "no_longer s (set_queue (share_weights vs) s)"
  by (simp_all add: no_longer_def malicious_peer_def set_queue_def pm_send_def pdq_clear_def share_weights_def split: list.split)

lemma nolong_checks: "sr_moves no_longer (check_votes_and_pillar env d vs node)"
proof -
  have "sr_moves same_queue (cert_votes_loop env b strict pick p r i vs done w)" for b strict pick p r i vs "done" w
    by (induction vs arbitrary: i "done" w) (auto intro!: squeue.flow squeue_vm)
  then have "sr_moves same_queue (validatePbftBlockCertVotes env b vs)" for b vs
    unfolding validatePbftBlockCertVotes_def by (intro squeue.flow squeue_vm)
  then show ?thesis
    unfolding check_votes_and_pillar_def Let_def vm_result_def
    by (intro nolong.flow nolong_queue) (blast intro: nolong_same)+
qed

lemma processPeriodData_shorter:
  assumes "processPeriodData env s = Inr (r, t)"
  shows "queued t < queued s"
proof -
  obtain d vs node q where pop: "pdq_pop (pm_sync_queue s) = Inr ((d, vs, node), q)"
    using assms by (auto simp: processPeriodData_def)
  define s1 where "s1 = s\<lparr>pm_sync_queue := q\<rparr>"
  have less: "queued s1 < queued s"
    using pop by (auto simp: s1_def pdq_pop_def split: list.splits)
  obtain m where m: "m s1 = Inr (r, t)" "sr_moves no_longer (m :: (period_data \<times> pbft_vote list) option pm)"
  proof
    show "(if findPbftBlockInChain (pdb_chain (pm_db s)) (pb_hash (pd_blk d)) then sr_return None
        else sr_then (sr_assert PbftAssert (pe_net env))
          (if pb_prev (pd_blk d) \<noteq> pc_last_hash (pm_chain s) then
             sr_bind (sr_lift (getPbftBlockInChain (pdb_chain (pm_db s)) (pc_last_hash (pm_chain s)))) (\<lambda>last_block.
             if pb_period (pd_blk d) \<le> pb_period last_block then sr_return None
             else sr_then (sr_modify (malicious_peer node)) (sr_return None))
           else
             (case validateFinalChainHash env (pd_blk d) of
                Missing \<Rightarrow> sr_fail Waiting
              | Invalid \<Rightarrow> sr_then (sr_modify (malicious_peer node)) (sr_return None)
              | Valid \<Rightarrow> check_votes_and_pillar env d vs node))) s1 = Inr (r, t)" (is "?m s1 = _")
      using assms pop by (simp add: processPeriodData_def Let_def s1_def)
    show "sr_moves no_longer ?m"
      by (intro nolong.flow nolong_checks nolong_validation nolong_queue)
  qed
  from sr_movesD[OF m(2, 1)] less show ?thesis by (simp add: no_longer_def)
qed

lemma sync_loop_fuel: "queued s \<le> n \<Longrightarrow> queued s \<le> m \<Longrightarrow> sync_loop env n s = sync_loop env m s"
proof (induction n arbitrary: m s)
  case 0
  then have "pdq_size (pm_sync_queue s) = 0" by (simp add: pdq_size_def)
  then show ?case by (cases m) (simp_all add: sr_with_def)
next
  case (Suc n)
  show ?case
  proof (cases m)
    case 0
    then have "pdq_size (pm_sync_queue s) = 0" using Suc.prems by (simp add: pdq_size_def)
    then show ?thesis using 0 by (simp add: sr_with_def)
  next
    case m: (Suc k)
    show ?thesis
    proof (cases "processPeriodData env s")
      case (Inr rt)
      obtain r t where rt: "rt = (r, t)" by fastforce
      have t: "queued t \<le> n" "queued t \<le> k" using processPeriodData_shorter[of env s r t] Inr rt Suc.prems m by auto
      have next_same: "sync_loop env n t' = sync_loop env k t'" if "queued t' = queued t" for t'
        using Suc.IH[of t' k] t that by simp
      have push: "queued t' = queued t" if "pushPbftBlock env d vs t = Inr (b, t')" for d vs b t'
        using sr_movesD[OF squeue_push that] by (simp add: same_queue_def)
      show ?thesis
        using Inr rt m next_same[of t] next_same push
        by (auto simp: sr_with_def sr_bind_def sr_then_def sr_modify_def pm_send_def split: option.split sum.split)
    qed (simp add: m sr_with_def sr_bind_def)
  qed
qed


definition sample_synced :: pbft_manager where
  "sample_synced = demo_s0\<lparr>pm_sync_queue := \<lparr>pdq_queue = [(sample_period 71 0 9 1, 0)], pdq_period = 1,
       pdq_last_cert_votes = [demo_soft_vote]\<rparr>,
     pm_db := (pm_db demo_s0)\<lparr>pdb_chain := snd sample_chain1\<rparr>\<rparr>"


section \<open>Checks of a block\<close>

text \<open>
  C15: once the order of an anchor is cached, a further block with that anchor is accepted or refused whatever its
  order hash is. The cache is filled when another block with the anchor was valid in the period.
\<close>

theorem cached_anchor_ignores_order_hash:
  assumes "um_find (pm_anchor_cache s) (pb_pivot b) \<noteq> None"
  shows "validatePbftBlock env (b\<lparr>pb_order_hash := h\<rparr>) s = validatePbftBlock env b s"
proof -
  have same: "checkPbftBlockValidation c (b\<lparr>pb_order_hash := h\<rparr>) = checkPbftBlockValidation c b"
    "validateFinalChainHash env (b\<lparr>pb_order_hash := h\<rparr>) = validateFinalChainHash env b"
    "validatePbftBlockExtraData env (b\<lparr>pb_order_hash := h\<rparr>) = validatePbftBlockExtraData env b"
    "check_pillar_hash env (b\<lparr>pb_order_hash := h\<rparr>) = check_pillar_hash env b" for c
    by (simp_all add: checkPbftBlockValidation_def validateFinalChainHash_def validatePbftBlockExtraData_def check_pillar_hash_def
        split: option.split prod.split)
  show ?thesis
    using assms by (simp add: validatePbftBlock_def sr_with_def same cong: if_cong)
qed

theorem cached_anchor_ignores_order_hash_witness:
  "validatePbftBlock (demo_env 0) (demo_block\<lparr>pb_pivot := 9, pb_order_hash := 5\<rparr>) (demo_s0\<lparr>pm_anchor_cache := [(9, [])]\<rparr>)
     = Inr (True, demo_s0\<lparr>pm_anchor_cache := [(9, [])]\<rparr>)"
proof -
  have "validatePbftBlock (demo_env 0) (demo_block\<lparr>pb_pivot := 9\<rparr>) (demo_s0\<lparr>pm_anchor_cache := [(9, [])]\<rparr>)
     = Inr (True, demo_s0\<lparr>pm_anchor_cache := [(9, [])]\<rparr>)"
    by (simp add: demo_states demo_run_eval)
  then show ?thesis
    using cached_anchor_ignores_order_hash[of "demo_s0\<lparr>pm_anchor_cache := [(9, [])]\<rparr>" "demo_block\<lparr>pb_pivot := 9\<rparr>" "demo_env 0" 5]
    by simp
qed

text \<open>The votes that pass the loop, and the sum of their weights.\<close>

definition synced_vote :: "pbft_block \<Rightarrow> pbft_period \<Rightarrow> pbft_round \<Rightarrow> pbft_vote \<Rightarrow> bool" where
  "synced_vote b p r v \<longleftrightarrow> v_period v = p \<and> v_round v = r \<and> v_step v = 3 \<and> v_block v = pb_hash b \<and> v_weight v \<noteq> None"

lemma validateVote_same:
  assumes "validateVote env v strict m = Inr (ValidVote, v', m')"
  shows "\<exists>w. v' = v\<lparr>v_weight := Some w\<rparr>"
  using assms by (auto simp: validateVote_def Let_def split: if_splits call.splits option.splits sum.splits)

lemma cert_votes_loop_spec:
  assumes "cert_votes_loop env b strict pick p r i vs done w s = Inr ((True, done', w'), s')"
  shows "\<exists>new. done' = done @ new \<and> map v_hash new = map v_hash vs \<and> (\<forall>v\<in>set new. synced_vote b p r v)
    \<and> w' = w + sum_list (map weight_of new)"
  using assms
proof (induction vs arbitrary: i "done" w s)
  case (Cons v vs)
  have v: "v_period v = p" "v_round v = r" "v_step v = 3" "v_block v = pb_hash b"
    using Cons.prems by (auto split: if_splits)
  obtain verdict v1 m where val: "validateVote (venv env s) v (strict \<or> i = pick) (pm_vm s) = Inr (verdict, v1, m)"
    using Cons.prems v by (cases "validateVote (venv env s) v (strict \<or> i = pick) (pm_vm s)") (auto simp: vm_action_def split: if_splits)
  then have ok: "verdict = ValidVote" using Cons.prems v by (auto simp: vm_action_def split: if_splits)
  obtain x where x: "v1 = v\<lparr>v_weight := Some x\<rparr>" using validateVote_same val ok by blast
  obtain t where "cert_votes_loop env b strict pick p r (Suc i) vs (done @ [v1]) (w + x) t = Inr ((True, done', w'), s')"
    using Cons.prems v val ok x by (auto simp: vm_action_def split: if_splits)
  from Cons.IH[OF this] obtain new where new: "done' = (done @ [v1]) @ new" "map v_hash new = map v_hash vs"
    "\<forall>v\<in>set new. synced_vote b p r v" "w' = w + x + sum_list (map weight_of new)" by blast
  then show ?case
    using v x weight_of_def[of v1] by (intro exI[of _ "v1 # new"]) (simp add: synced_vote_def)
qed simp

lemma cert_votes_loop_vm:
  assumes "chain_env env0 dpos (pe_vote env)"
  shows "sr_moves (vote_moves env0 dpos (\<lambda>_. False)) (cert_votes_loop env b strict pick p r i vs done w)"
  by (induction vs arbitrary: i "done" w) (auto intro!: vot.flow vote_add[OF assms] vote_validate)

text \<open>
  C11: cert votes that a synced block passes with are cert votes of one round for that block, and their weights, as
  the vote validation computes them, sum up to at least 2t+1 for the period before.
\<close>

theorem synced_cert_votes:
  assumes "vm_reachable env0 dpos (pm_vm s)" and "chain_env env0 dpos (pe_vote env)"
    and "validatePbftBlockCertVotes env b vs s = Inr ((True, vs'), s')"
  shows "map v_hash vs' = map v_hash vs \<and> (\<forall>v\<in>set vs'. synced_vote b (pb_period b) (v_round (hd vs)) v)
    \<and> unat (two_t_of env0 (dpos (pb_period b - 1)) cert_vote) \<le> sum_list (map (\<lambda>v. unat (weight_of v)) vs')"
proof -
  obtain v0 rest where vs: "vs = v0 # rest" using assms(3) by (cases vs) (auto simp: validatePbftBlockCertVotes_def)
  have period: "v_period v0 = pb_period b" using assms(3) vs by (auto simp: validatePbftBlockCertVotes_def split: if_splits)
  obtain w t where loop: "cert_votes_loop env b (pb_period b mod 100 = 0) (pe_random env mod length vs) (v_period v0) (v_round v0) 0 vs [] 0 s
      = Inr ((True, vs', w), t)"
    and rest: "(\<exists>n u. vm_action (getPbftTwoTPlusOne (venv env t) (v_period v0 - 1) cert_vote) t = Inr (Some n, u) \<and> \<not> w < n)"
    using assms(3) vs period
    by (auto simp: validatePbftBlockCertVotes_def split: if_splits option.splits)
  then obtain n m where n: "getPbftTwoTPlusOne (venv env t) (v_period v0 - 1) cert_vote (pm_vm t) = Inr (Some n, m)" "\<not> w < n"
    by (auto simp: vm_action_def split: sum.splits)
  have "vm_reachable env0 dpos (pm_vm t)"
    using sr_movesD[OF cert_votes_loop_vm[OF assms(2)] loop] assms(1) by (simp add: vote_moves_def)
  then have "cache_ok env0 dpos (pm_vm t)" using vm_reachable_ok by (simp add: vm_ok_def)
  then have two: "n = two_t_of env0 (dpos (pb_period b - 1)) cert_vote"
    using getPbftTwoTPlusOne_chain(2)[OF _ _ n(1), of env0 dpos n] assms(2) period by simp
  from cert_votes_loop_spec[OF loop] have new: "map v_hash vs' = map v_hash vs" "\<forall>v\<in>set vs'. synced_vote b (v_period v0) (v_round v0) v"
    "w = sum_list (map weight_of vs')" by auto
  have "unat n \<le> sum_list (map (\<lambda>v. unat (weight_of v)) vs')"
    using n(2) new(3) unat_sum_list_le[of weight_of vs'] by (simp add: not_less word_le_nat_alt)
  with new two period vs show ?thesis by simp
qed

definition synced_env :: pbft_env where
  "synced_env = (demo_env 0)\<lparr>pe_vote := (pe_vote (demo_env 0))\<lparr>ve_vrf_weight := (\<lambda>_ _ _ _. 34)\<rparr>\<rparr>"

definition synced_cert_vote :: "h256 \<Rightarrow> pbft_vote" where
  "synced_cert_vote h = \<lparr>v_hash = h, v_block = 77, v_period = 1, v_round = 1, v_step = 3, v_voter = 4, v_weight = None\<rparr>"

lemmas synced_eval = validatePbftBlockCertVotes_def synced_env_def synced_cert_vote_def validateVote_def ec_insert_def ec_contains_def ec_empty_def
  demo_states demo_run_eval

lemma synced_two: "\<exists>s. validatePbftBlockCertVotes synced_env demo_block [synced_cert_vote 11, synced_cert_vote 12] demo_s0
    = Inr ((True, [(synced_cert_vote 11)\<lparr>v_weight := Some 34\<rparr>, (synced_cert_vote 12)\<lparr>v_weight := Some 34\<rparr>]), s)"
  by (simp add: synced_eval)

theorem synced_cert_votes_witness:
  "\<exists>vs s. validatePbftBlockCertVotes synced_env demo_block [synced_cert_vote 11, synced_cert_vote 12] demo_s0 = Inr ((True, vs), s)
     \<and> 67 \<le> sum_list (map (\<lambda>v. unat (weight_of v)) vs) \<and> synced_vote demo_block 1 1 (hd vs)"
proof -
  have reach: "vm_reachable sample_env (\<lambda>_. 100) (pm_vm demo_s0)"
    using vm_round[OF sample_manager_reachable, of 1 1 demo_vm]
    by (simp add: demo_s0_def demo_vm_def setCurrentPbftPeriodAndRound_def getRoundVotes_def sample_manager_def vm_empty_def)
  have env: "chain_env sample_env (\<lambda>_. 100) (pe_vote synced_env)"
    by (simp add: chain_env_def synced_env_def demo_env_def sample_env_def)
  have two: "unat (two_t_of sample_env 100 cert_vote) = 67"
    by (simp add: two_t_of_def getPbftSortitionThreshold_def sample_env_def)
  obtain s where s: "validatePbftBlockCertVotes synced_env demo_block [synced_cert_vote 11, synced_cert_vote 12] demo_s0
    = Inr ((True, [(synced_cert_vote 11)\<lparr>v_weight := Some 34\<rparr>, (synced_cert_vote 12)\<lparr>v_weight := Some 34\<rparr>]), s)"
    using synced_two by blast
  from synced_cert_votes[OF reach env s] s two show ?thesis by (auto simp: demo_block_def synced_cert_vote_def)
qed


end
