(* ===== verification/Spec2Isabelle.thy ===== *)
theory Spec2Isabelle
  imports Prelude Transaction_Types Caches Transaction_Queue Transaction_Queue_Order
    Transaction_Queue_Props Verified_Votes Vote_Manager Vote_Manager_Props Dag_Graph_Props
    Vote_Codec_Props Packet_Pool_Props Pbft_Block_Props
begin

text \<open>
  A verification library for the node of the Taraxa network in \<open>src/\<close>.
\<close>

end
